(* ===== verification/Muses_Prelude.thy ===== *)
theory Muses_Prelude
  imports Main "HOL-Library.Word" "HOL-Library.Multiset"
begin

text \<open>
  Shared vocabulary of the muses verification library.

  The C++ integer types are words of their width (\<open>u8\<close>, \<open>u32\<close>, \<open>u64\<close>; \<open>std::size_t\<close> is
  \<open>u64\<close> on the supported platforms) where an operation wraps or works bitwise, and \<open>nat\<close> where
  a component only counts.  An operation that the C++ standard leaves undefined (dereferencing a
  dangling iterator or pointer) is the value \<open>None\<close> of an option type.

  The collections \<open>muses_inv\<close>, \<open>muses_abs\<close> and \<open>muses_ops\<close> gather invariants, abstraction
  functions and operation definitions that component proofs unfold together.
\<close>

section \<open>Types and collections\<close>

type_synonym u8 = "8 word"
type_synonym u16 = "16 word"
type_synonym u32 = "32 word"
type_synonym u64 = "64 word"

named_theorems muses_inv \<open>unfolding rules for component invariants\<close>
named_theorems muses_abs \<open>unfolding rules for abstraction functions\<close>
named_theorems muses_ops \<open>unfolding rules for component operations\<close>

section \<open>Association lists with distinct keys\<close>

definition del_key :: "'k \<Rightarrow> ('k \<times> 'v) list \<Rightarrow> ('k \<times> 'v) list" where
  "del_key k xs = filter (\<lambda>p. fst p \<noteq> k) xs"

lemma del_key_Nil [simp]: "del_key k [] = []"
  by (simp add: del_key_def)

lemma del_key_Cons [simp]: "del_key k (p # xs) = (if fst p = k then del_key k xs else p # del_key k xs)"
  by (simp add: del_key_def)

lemma set_del_key [simp]: "set (del_key k xs) = {p \<in> set xs. fst p \<noteq> k}"
  by (simp add: del_key_def)

lemma map_of_del_key [simp]: "map_of (del_key k xs) = (map_of xs)(k := None)"
  by (induction xs) (auto simp: fun_eq_iff)

lemma keys_del_key [simp]: "map fst (del_key k xs) = removeAll k (map fst xs)"
  by (induction xs) auto

lemma del_key_absent [simp]: "k \<notin> fst ` set xs \<Longrightarrow> del_key k xs = xs"
  by (induction xs) auto

lemma distinct_del_key [simp]: "distinct (map fst xs) \<Longrightarrow> distinct (map fst (del_key k xs))"
  by (simp add: distinct_removeAll)

lemma length_del_key_le: "length (del_key k xs) \<le> length xs"
  by (simp add: del_key_def)

lemma length_del_key_present:
  assumes "distinct (map fst xs)" "k \<in> fst ` set xs"
  shows "Suc (length (del_key k xs)) = length xs"
  using assms by (induction xs) (auto simp: del_key_absent)

lemma del_key_take:
  "distinct (map fst xs) \<Longrightarrow> k \<notin> fst ` set (take n xs) \<Longrightarrow> del_key k (take n xs) = take n xs"
  by simp

section \<open>Outcomes of operations that may loop, block or be undefined\<close>

text \<open>
  \<open>Ret r\<close>: the call returns \<open>r\<close>.  \<open>Spinning\<close>: a retry loop is still running after the given
  number of iterations.  \<open>Blocked\<close>: the calling thread waits and nobody is there to wake it.
  \<open>Undefined\<close>: the call runs into undefined behaviour.
\<close>

datatype 'r outcome = Ret 'r | Spinning | Blocked | Undefined

primrec bind_outcome :: "'r outcome \<Rightarrow> ('r \<Rightarrow> 's outcome) \<Rightarrow> 's outcome" where
  "bind_outcome (Ret r) f = f r"
| "bind_outcome Spinning f = Spinning"
| "bind_outcome Blocked f = Blocked"
| "bind_outcome Undefined f = Undefined"

lemma bind_outcome_Ret:
  assumes "bind_outcome x f = Ret r"
  obtains y where "x = Ret y" "f y = Ret r"
  using assms by (cases x) auto

end
