(* ===== verification/Lru_Cache.thy ===== *)
theory Lru_Cache
  imports Muses_Prelude
begin

text \<open>
  The LRU cache of \<open>src/muses/lru_cache.hpp\<close>.

  A \<open>std::list\<close> node is a triple of its address, key and value; a \<open>std::list::iterator\<close> is the
  address of its node, so that splicing a node keeps every iterator valid and an iterator to a
  node that is no longer in the list is dangling.  \<open>std::unordered_map\<close> is a partial function
  from keys to iterators.  Every operation that dereferences, splices or erases through an
  iterator returns \<open>None\<close> when the iterator is dangling (undefined behaviour in C++).  All public
  methods hold one mutex, so the operations are atomic and a concurrent history is a sequence of
  them.
\<close>

section \<open>State and operations\<close>

record ('k, 'v) lru =
  lru_entries :: "(nat \<times> 'k \<times> 'v) list"  \<comment> \<open>front = MRU, back = LRU\<close>
  lru_index :: "'k \<Rightarrow> nat option"
  lru_max_entries :: nat
  lru_next_node :: nat  \<comment> \<open>next node address the allocator hands out\<close>

definition lru_new :: "nat \<Rightarrow> ('k, 'v) lru" where
  "lru_new max_entries =
     \<lparr>lru_entries = [], lru_index = Map.empty, lru_max_entries = max_entries, lru_next_node = 0\<rparr>"

definition promote :: "nat \<Rightarrow> ('k, 'v) lru \<Rightarrow> ('k, 'v) lru option" where
  "promote it c =
     (case map_of (lru_entries c) it of
        None \<Rightarrow> None
      | Some kv \<Rightarrow> Some (c\<lparr>lru_entries := (it, kv) # del_key it (lru_entries c)\<rparr>))"

definition lru_get :: "'k \<Rightarrow> ('k, 'v) lru \<Rightarrow> ('v option \<times> ('k, 'v) lru) option" where
  "lru_get key c =
     (case lru_index c key of
        None \<Rightarrow> Some (None, c)
      | Some it \<Rightarrow>
          (case promote it c of
             None \<Rightarrow> None
           | Some c' \<Rightarrow>
               (case map_of (lru_entries c') it of
                  None \<Rightarrow> None
                | Some kv \<Rightarrow> Some (Some (snd kv), c'))))"

definition evict_lru_locked :: "('k, 'v) lru \<Rightarrow> ('k, 'v) lru" where
  "evict_lru_locked c =
     (if lru_entries c = [] then c
      else c\<lparr>lru_index := (lru_index c)(fst (snd (last (lru_entries c))) := None),
             lru_entries := butlast (lru_entries c)\<rparr>)"

definition write_value :: "nat \<Rightarrow> 'v \<Rightarrow> ('k, 'v) lru \<Rightarrow> ('k, 'v) lru option" where
  "write_value it v c =
     (if it \<in> fst ` set (lru_entries c)
      then Some (c\<lparr>lru_entries := map (\<lambda>n. if fst n = it then (it, fst (snd n), v) else n) (lru_entries c)\<rparr>)
      else None)"

definition put_locked :: "'k \<Rightarrow> 'v \<Rightarrow> ('k, 'v) lru \<Rightarrow> ('k, 'v) lru option" where
  "put_locked key value c =
     (if lru_max_entries c = 0 then Some c
      else case lru_index c key of
        Some it \<Rightarrow>
          (case write_value it value c of
             None \<Rightarrow> None
           | Some c1 \<Rightarrow> promote it c1)
      | None \<Rightarrow>
          (let c1 = (if length (lru_entries c) \<ge> lru_max_entries c then evict_lru_locked c else c);
               node = lru_next_node c1
           in Some (c1\<lparr>lru_entries := (node, key, value) # lru_entries c1,
                       lru_index := (lru_index c1)(key \<mapsto> node),
                       lru_next_node := Suc node\<rparr>)))"

definition lru_put :: "'k \<Rightarrow> 'v \<Rightarrow> ('k, 'v) lru \<Rightarrow> ('k, 'v) lru option" where
  "lru_put key value c = put_locked key value c"

definition lru_contains :: "'k \<Rightarrow> ('k, 'v) lru \<Rightarrow> bool" where
  "lru_contains key c \<longleftrightarrow> lru_index c key \<noteq> None"

definition lru_erase :: "'k \<Rightarrow> ('k, 'v) lru \<Rightarrow> (bool \<times> ('k, 'v) lru) option" where
  "lru_erase key c =
     (case lru_index c key of
        None \<Rightarrow> Some (False, c)
      | Some it \<Rightarrow>
          (if it \<in> fst ` set (lru_entries c)
           then Some (True, c\<lparr>lru_entries := del_key it (lru_entries c),
                              lru_index := (lru_index c)(key := None)\<rparr>)
           else None))"

definition lru_clear :: "('k, 'v) lru \<Rightarrow> ('k, 'v) lru" where
  "lru_clear c = c\<lparr>lru_entries := [], lru_index := Map.empty\<rparr>"

definition lru_size :: "('k, 'v) lru \<Rightarrow> nat" where
  "lru_size c = length (lru_entries c)"

definition lru_capacity :: "('k, 'v) lru \<Rightarrow> nat" where
  "lru_capacity c = lru_max_entries c"

datatype ('k, 'v) lru_op = LGet 'k | LPut 'k 'v | LErase 'k | LClear

fun lru_step :: "('k, 'v) lru_op \<Rightarrow> ('k, 'v) lru \<Rightarrow> ('k, 'v) lru option" where
  "lru_step (LGet k) c = map_option snd (lru_get k c)"
| "lru_step (LPut k v) c = lru_put k v c"
| "lru_step (LErase k) c = map_option snd (lru_erase k c)"
| "lru_step LClear c = Some (lru_clear c)"

fun lru_run :: "('k, 'v) lru_op list \<Rightarrow> ('k, 'v) lru \<Rightarrow> ('k, 'v) lru option" where
  "lru_run [] c = Some c"
| "lru_run (x # xs) c = (case lru_step x c of None \<Rightarrow> None | Some c' \<Rightarrow> lru_run xs c')"

section \<open>Specification: a recency list\<close>

type_synonym ('k, 'v) recency = "('k \<times> 'v) list"

definition spec_get :: "'k \<Rightarrow> ('k, 'v) recency \<Rightarrow> 'v option \<times> ('k, 'v) recency" where
  "spec_get k xs =
     (case map_of xs k of None \<Rightarrow> (None, xs) | Some v \<Rightarrow> (Some v, (k, v) # del_key k xs))"

definition spec_put :: "nat \<Rightarrow> 'k \<Rightarrow> 'v \<Rightarrow> ('k, 'v) recency \<Rightarrow> ('k, 'v) recency" where
  "spec_put n k v xs = take n ((k, v) # del_key k xs)"

fun spec_step :: "nat \<Rightarrow> ('k, 'v) lru_op \<Rightarrow> ('k, 'v) recency \<Rightarrow> ('k, 'v) recency" where
  "spec_step n (LGet k) xs = snd (spec_get k xs)"
| "spec_step n (LPut k v) xs = spec_put n k v xs"
| "spec_step n (LErase k) xs = del_key k xs"
| "spec_step n LClear xs = []"

text \<open>The pairs of a list of insertions, newest first, each key once with its latest value.\<close>

fun latest :: "('k \<times> 'v) list \<Rightarrow> ('k, 'v) recency" where
  "latest [] = []"
| "latest (p # ps) = p # del_key (fst p) (latest ps)"

section \<open>Invariant and abstraction\<close>

definition lru_abs :: "('k, 'v) lru \<Rightarrow> ('k, 'v) recency" where
  [muses_abs]: "lru_abs c = map snd (lru_entries c)"

definition key_node :: "nat \<times> 'k \<times> 'v \<Rightarrow> 'k \<times> nat" where
  "key_node n = (fst (snd n), fst n)"

definition lru_inv :: "('k, 'v) lru \<Rightarrow> bool" where
  [muses_inv]: "lru_inv c \<longleftrightarrow>
     distinct (map fst (lru_entries c)) \<and>
     distinct (map fst (lru_abs c)) \<and>
     lru_index c = map_of (map key_node (lru_entries c)) \<and>
     length (lru_entries c) \<le> lru_max_entries c \<and>
     (\<forall>n \<in> set (lru_entries c). fst n < lru_next_node c)"

definition lru_peek :: "('k, 'v) lru \<Rightarrow> 'k \<Rightarrow> 'v option" where
  "lru_peek c k = map_of (lru_abs c) k"


section \<open>Operations keep the invariant and implement the specification\<close>

lemma lru_abs_new [simp]: "lru_abs (lru_new n) = []"
  by (simp add: lru_abs_def lru_new_def)

lemma lru_inv_new [simp]: "lru_inv (lru_new n)"
  by (simp add: lru_inv_def lru_abs_def lru_new_def)

lemma lru_max_new [simp]: "lru_max_entries (lru_new n) = n"
  by (simp add: lru_new_def)

lemma map_fst_key_node: "map fst (map key_node xs) = map fst (map snd xs)"
  by (simp add: key_node_def comp_def)

lemma entry_unique:
  assumes "distinct (map fst xs)" "distinct (map fst (map snd xs))"
    and "n \<in> set xs" "m \<in> set xs"
  shows "fst n = fst m \<longleftrightarrow> fst (snd n) = fst (snd m)"
proof -
  have "inj_on fst (set xs)" "inj_on (fst \<circ> snd) (set xs)"
    using assms(1,2) by (simp_all add: distinct_map)
  then show ?thesis using assms(3,4) unfolding inj_on_def comp_def by metis
qed

lemma index_SomeD:
  assumes "lru_inv c" "lru_index c k = Some it"
  obtains v where "(it, k, v) \<in> set (lru_entries c)"
  using assms by (force simp: lru_inv_def key_node_def dest!: map_of_SomeD)

lemma index_NoneD: "lru_inv c \<Longrightarrow> lru_index c k = None \<longleftrightarrow> k \<notin> fst ` set (lru_abs c)"
  by (force simp: lru_inv_def lru_abs_def key_node_def map_of_eq_None_iff image_iff)

text \<open>Removing a node by address removes exactly the entry of its key.\<close>

lemma del_node_abs:
  assumes "distinct (map fst xs)" "distinct (map fst (map snd xs))" "(it, k, v) \<in> set xs"
  shows "map snd (del_key it xs) = del_key k (map snd xs)"
proof -
  have "fst n = it \<longleftrightarrow> fst (snd n) = k" if "n \<in> set xs" for n
    using entry_unique [OF assms(1,2) that assms(3)] by simp
  then show ?thesis
    by (simp add: del_key_def filter_map comp_def cong: filter_cong)
qed

lemma del_node_index:
  assumes "distinct (map fst xs)" "distinct (map fst (map snd xs))" "(it, k, v) \<in> set xs"
  shows "map_of (map key_node (del_key it xs)) = (map_of (map key_node xs))(k := None)"
proof -
  have "fst n = it \<longleftrightarrow> fst (snd n) = k" if "n \<in> set xs" for n
    using entry_unique [OF assms(1,2) that assms(3)] by simp
  then have "map key_node (del_key it xs) = del_key k (map key_node xs)"
    by (simp add: del_key_def filter_map comp_def key_node_def cong: filter_cong)
  then show ?thesis by simp
qed

lemma map_of_node:
  assumes "lru_inv c" "(it, k, v) \<in> set (lru_entries c)"
  shows "map_of (lru_entries c) it = Some (k, v)"
  using assms by (simp add: lru_inv_def map_of_is_SomeI)

lemma abs_lookup:
  assumes "lru_inv c" "(it, k, v) \<in> set (lru_entries c)"
  shows "map_of (lru_abs c) k = Some v"
  using assms by (force simp: lru_inv_def lru_abs_def intro!: map_of_is_SomeI)

lemma promote_ok:
  assumes inv: "lru_inv c" and mem: "(it, k, v) \<in> set (lru_entries c)"
  shows "\<exists>c'. promote it c = Some c' \<and> lru_inv c' \<and> lru_abs c' = (k, v) # del_key k (lru_abs c)
    \<and> lru_max_entries c' = lru_max_entries c \<and> map_of (lru_entries c') it = Some (k, v)"
proof -
  let ?es = "lru_entries c"
  let ?c' = "c\<lparr>lru_entries := (it, k, v) # del_key it ?es\<rparr>"
  from inv have d: "distinct (map fst ?es)" "distinct (map fst (map snd ?es))"
    by (simp_all add: lru_inv_def lru_abs_def)
  have P: "promote it c = Some ?c'"
    using map_of_node [OF inv mem] by (simp add: promote_def)
  have A: "lru_abs ?c' = (k, v) # del_key k (lru_abs c)"
    using del_node_abs [OF d mem] by (simp add: lru_abs_def)
  have L: "Suc (length (del_key it ?es)) = length ?es"
    using d mem by (force intro: length_del_key_present)
  have I: "lru_index c k = Some it"
    using inv mem d by (force simp: lru_inv_def key_node_def comp_def intro!: map_of_is_SomeI)
  have X: "lru_index ?c' = map_of (map key_node (lru_entries ?c'))"
    using inv del_node_index [OF d mem] I
    by (auto simp: lru_inv_def fun_eq_iff key_node_def)
  have N: "\<forall>n \<in> set (lru_entries ?c'). fst n < lru_next_node ?c'"
    using inv mem by (auto simp: lru_inv_def)
  have D1: "distinct (map fst (lru_entries ?c'))"
    using d by (simp add: distinct_removeAll)
  have D2: "distinct (map fst (lru_abs ?c'))"
    unfolding A using inv by (simp add: lru_inv_def distinct_removeAll)
  have "length (lru_entries ?c') \<le> lru_max_entries ?c'"
    using L inv by (simp add: lru_inv_def)
  with D1 D2 X N have "lru_inv ?c'" by (simp add: lru_inv_def)
  with P A show ?thesis by simp
qed

lemma del_key_write:
  assumes "\<And>n. n \<in> set xs \<Longrightarrow> fst n = it \<longleftrightarrow> fst (snd n) = k"
  shows "del_key k (map snd (map (\<lambda>n. if fst n = it then (it, fst (snd n), v) else n) xs)) =
    del_key k (map snd xs)"
  using assms by (induction xs) auto

lemma lru_inv_relabel:
  assumes "lru_inv c" "map fst es = map fst (lru_entries c)"
    "map key_node es = map key_node (lru_entries c)"
    "map fst (map snd es) = map fst (map snd (lru_entries c))"
  shows "lru_inv (c\<lparr>lru_entries := es\<rparr>)"
proof -
  have "fst ` set es = fst ` set (lru_entries c)"
    using arg_cong [OF assms(2), of set] by simp
  then have "\<forall>n \<in> set es. fst n < lru_next_node c"
    using assms(1) by (metis (no_types, lifting) imageE imageI lru_inv_def)
  moreover have "length es = length (lru_entries c)"
    using arg_cong [OF assms(2), of length] by simp
  ultimately show ?thesis
    using assms unfolding lru_inv_def lru_abs_def by (simp del: map_map)
qed

lemma write_value_ok:
  assumes inv: "lru_inv c" and mem: "(it, k, v0) \<in> set (lru_entries c)"
  shows "\<exists>c'. write_value it v c = Some c' \<and> lru_inv c' \<and> (it, k, v) \<in> set (lru_entries c')
    \<and> del_key k (lru_abs c') = del_key k (lru_abs c) \<and> lru_max_entries c' = lru_max_entries c"
proof -
  let ?f = "\<lambda>n. if fst n = it then (it, fst (snd n), v) else n"
  let ?es = "lru_entries c"
  let ?c' = "c\<lparr>lru_entries := map ?f ?es\<rparr>"
  have "it \<in> fst ` set ?es" using mem by (metis fst_conv imageI)
  then have W: "write_value it v c = Some ?c'" by (simp add: write_value_def)
  have "?f (it, k, v0) \<in> ?f ` set ?es" using mem by (rule imageI)
  then have M: "(it, k, v) \<in> set (lru_entries ?c')" by simp
  have fsts: "map fst (map ?f ?es) = map fst ?es" "map key_node (map ?f ?es) = map key_node ?es"
    by (simp_all add: key_node_def)
  have keys: "map fst (map snd (map ?f ?es)) = map fst (map snd ?es)" by simp
  have inv': "lru_inv ?c'"
    using inv fsts keys by (rule lru_inv_relabel)
  from inv have d: "distinct (map fst ?es)" "distinct (map fst (map snd ?es))"
    by (simp_all add: lru_inv_def lru_abs_def)
  have uniq: "fst n = it \<longleftrightarrow> fst (snd n) = k" if "n \<in> set ?es" for n
    using entry_unique [OF d that mem] by simp
  have D: "del_key k (map snd (map ?f ?es)) = del_key k (map snd ?es)"
    using uniq by (rule del_key_write)
  have "del_key k (lru_abs ?c') = del_key k (lru_abs c)"
    using D by (simp add: lru_abs_def del: map_map)
  with W M inv' show ?thesis by (intro exI [of _ ?c'] conjI) (rule refl | assumption | simp)+
qed


lemma lru_get_ok:
  assumes inv: "lru_inv c"
  shows "\<exists>c'. lru_get k c = Some (fst (spec_get k (lru_abs c)), c') \<and> lru_inv c'
    \<and> lru_abs c' = snd (spec_get k (lru_abs c)) \<and> lru_max_entries c' = lru_max_entries c"
proof (cases "lru_index c k")
  case None
  with inv have "map_of (lru_abs c) k = None"
    by (simp add: index_NoneD map_of_eq_None_iff)
  with None inv show ?thesis by (simp add: lru_get_def spec_get_def)
next
  case (Some it)
  from index_SomeD [OF inv Some] obtain v where mem: "(it, k, v) \<in> set (lru_entries c)" .
  from promote_ok [OF inv mem] obtain c' where
    "promote it c = Some c'" "lru_inv c'" "lru_abs c' = (k, v) # del_key k (lru_abs c)"
    "lru_max_entries c' = lru_max_entries c" "map_of (lru_entries c') it = Some (k, v)"
    by blast
  then show ?thesis
    using Some abs_lookup [OF inv mem] by (simp add: lru_get_def spec_get_def)
qed

lemma evict_ok:
  assumes inv: "lru_inv c"
  shows "lru_inv (evict_lru_locked c)" "lru_abs (evict_lru_locked c) = butlast (lru_abs c)"
    "lru_max_entries (evict_lru_locked c) = lru_max_entries c"
    "length (lru_entries (evict_lru_locked c)) = length (lru_entries c) - 1"
proof -
  show A: "lru_abs (evict_lru_locked c) = butlast (lru_abs c)"
    by (simp add: evict_lru_locked_def lru_abs_def map_butlast)
  show "lru_max_entries (evict_lru_locked c) = lru_max_entries c"
    "length (lru_entries (evict_lru_locked c)) = length (lru_entries c) - 1"
    by (simp_all add: evict_lru_locked_def)
  show "lru_inv (evict_lru_locked c)"
  proof (cases "lru_entries c" rule: rev_cases)
    case Nil
    with inv show ?thesis by (simp add: evict_lru_locked_def)
  next
    case (snoc es n)
    let ?k = "fst (snd n)"
    from inv snoc have "?k \<notin> fst ` set (map key_node es)"
      by (force simp: lru_inv_def lru_abs_def key_node_def)
    then have "map_of (map key_node es) ?k = None"
      by (simp add: map_of_eq_None_iff)
    then have "map_of (map key_node es) = (map_of (map key_node (es @ [n])))(?k := None)"
      by (auto simp: fun_eq_iff map_add_def key_node_def split: option.splits)
    then show ?thesis
      using inv snoc by (auto simp: evict_lru_locked_def lru_inv_def lru_abs_def)
  qed
qed

lemma insert_front_ok:
  assumes inv: "lru_inv c" and k: "k \<notin> fst ` set (lru_abs c)"
    and room: "length (lru_entries c) < lru_max_entries c"
  shows "lru_inv (c\<lparr>lru_entries := (lru_next_node c, k, v) # lru_entries c,
     lru_index := (lru_index c)(k \<mapsto> lru_next_node c), lru_next_node := Suc (lru_next_node c)\<rparr>)"
  using assms by (fastforce simp: lru_inv_def lru_abs_def key_node_def less_Suc_eq image_iff)

lemma spec_put_new:
  assumes "0 < n" "k \<notin> fst ` set xs" "length xs \<le> n"
  shows "spec_put n k v xs = (k, v) # (if length xs \<ge> n then butlast xs else xs)"
proof (cases n)
  case (Suc m)
  have "length xs - 1 = m" if "length xs = Suc m" using that by simp
  then show ?thesis using assms Suc
    by (auto simp: spec_put_def butlast_conv_take le_Suc_eq)
qed (use assms in simp)

lemma put_locked_ok:
  assumes inv: "lru_inv c"
  shows "\<exists>c'. put_locked k v c = Some c' \<and> lru_inv c'
    \<and> lru_abs c' = spec_put (lru_max_entries c) k v (lru_abs c) \<and> lru_max_entries c' = lru_max_entries c"
proof (cases "lru_max_entries c = 0")
  case True
  with inv show ?thesis by (simp add: put_locked_def spec_put_def lru_inv_def lru_abs_def)
next
  case pos: False
  show ?thesis
  proof (cases "lru_index c k")
    case None
    let ?c1 = "if length (lru_entries c) \<ge> lru_max_entries c then evict_lru_locked c else c"
    have k: "k \<notin> fst ` set (lru_abs c)" using inv None by (simp add: index_NoneD)
    have c1: "lru_inv ?c1" "length (lru_entries ?c1) < lru_max_entries ?c1"
      "lru_max_entries ?c1 = lru_max_entries c"
      "lru_abs ?c1 = (if length (lru_abs c) \<ge> lru_max_entries c then butlast (lru_abs c) else lru_abs c)"
      using inv pos evict_ok [OF inv] by (auto simp: lru_inv_def lru_abs_def)
    have k1: "k \<notin> fst ` set (lru_abs ?c1)"
      unfolding c1(4) using k by (auto dest!: in_set_butlastD)
    have "length (lru_abs c) \<le> lru_max_entries c"
      using inv by (simp add: lru_inv_def lru_abs_def)
    then have S: "spec_put (lru_max_entries c) k v (lru_abs c) = (k, v) # lru_abs ?c1"
      unfolding c1(4) using k pos by (intro spec_put_new) auto
    have "put_locked k v c = Some (?c1\<lparr>lru_entries := (lru_next_node ?c1, k, v) # lru_entries ?c1,
      lru_index := (lru_index ?c1)(k \<mapsto> lru_next_node ?c1), lru_next_node := Suc (lru_next_node ?c1)\<rparr>)"
      using pos None by (simp add: put_locked_def Let_def)
    then show ?thesis
      using insert_front_ok [OF c1(1) k1 c1(2)] S c1(3) by (simp add: lru_abs_def)
  next
    case (Some it)
    from index_SomeD [OF inv Some] obtain v0 where mem: "(it, k, v0) \<in> set (lru_entries c)" .
    from write_value_ok [OF inv mem, of v] obtain c1 where c1: "write_value it v c = Some c1"
      "lru_inv c1" "(it, k, v) \<in> set (lru_entries c1)" "del_key k (lru_abs c1) = del_key k (lru_abs c)"
      "lru_max_entries c1 = lru_max_entries c"
      by blast
    from promote_ok [OF c1(2,3)] obtain c2 where c2: "promote it c1 = Some c2" "lru_inv c2"
      "lru_abs c2 = (k, v) # del_key k (lru_abs c)" "lru_max_entries c2 = lru_max_entries c"
      unfolding c1(4,5) by blast
    have "length (lru_abs c2) \<le> lru_max_entries c"
      using c2(2,4) by (simp add: lru_inv_def lru_abs_def)
    then have "lru_abs c2 = spec_put (lru_max_entries c) k v (lru_abs c)"
      using c2(3) by (simp add: spec_put_def take_all)
    then show ?thesis using pos Some c1 c2 by (simp add: put_locked_def)
  qed
qed

lemma lru_erase_ok:
  assumes inv: "lru_inv c"
  shows "\<exists>c'. lru_erase k c = Some (k \<in> fst ` set (lru_abs c), c') \<and> lru_inv c'
    \<and> lru_abs c' = del_key k (lru_abs c) \<and> lru_max_entries c' = lru_max_entries c"
proof (cases "lru_index c k")
  case None
  then have "k \<notin> fst ` set (lru_abs c)" using inv by (simp add: index_NoneD)
  with None inv show ?thesis by (simp add: lru_erase_def)
next
  case (Some it)
  from index_SomeD [OF inv Some] obtain v where mem: "(it, k, v) \<in> set (lru_entries c)" .
  let ?c' = "c\<lparr>lru_entries := del_key it (lru_entries c), lru_index := (lru_index c)(k := None)\<rparr>"
  from inv have d: "distinct (map fst (lru_entries c))" "distinct (map fst (map snd (lru_entries c)))"
    by (simp_all add: lru_inv_def lru_abs_def)
  have A: "lru_abs ?c' = del_key k (lru_abs c)"
    using del_node_abs [OF d mem] by (simp add: lru_abs_def)
  have "lru_inv ?c'"
    using inv del_node_index [OF d mem] A length_del_key_le [of it "lru_entries c"]
    by (auto simp: lru_inv_def distinct_removeAll)
  moreover have "k \<in> fst ` set (lru_abs c)" using mem by (force simp: lru_abs_def)
  moreover have "it \<in> fst ` set (lru_entries c)" using mem by force
  ultimately show ?thesis using Some A by (simp add: lru_erase_def)
qed

lemma lru_clear_ok:
  "lru_inv c \<Longrightarrow> lru_inv (lru_clear c)" "lru_abs (lru_clear c) = []"
  "lru_max_entries (lru_clear c) = lru_max_entries c"
  by (simp_all add: lru_clear_def lru_inv_def lru_abs_def)

lemma lru_step_ok:
  assumes inv: "lru_inv c"
  shows "\<exists>c'. lru_step x c = Some c' \<and> lru_inv c'
    \<and> lru_abs c' = spec_step (lru_max_entries c) x (lru_abs c) \<and> lru_max_entries c' = lru_max_entries c"
proof (cases x)
  case (LGet k) then show ?thesis using lru_get_ok [OF inv, of k] by auto
next
  case (LPut k v) then show ?thesis using put_locked_ok [OF inv, of k v] by (simp add: lru_put_def)
next
  case (LErase k) then show ?thesis using lru_erase_ok [OF inv, of k] by auto
next
  case LClear then show ?thesis using lru_clear_ok inv by auto
qed

lemma lru_run_ok:
  assumes "lru_inv c"
  shows "\<exists>c'. lru_run xs c = Some c' \<and> lru_inv c'
    \<and> lru_abs c' = fold (spec_step (lru_max_entries c)) xs (lru_abs c) \<and> lru_max_entries c' = lru_max_entries c"
  using assms
proof (induction xs arbitrary: c)
  case Nil
  then show ?case by simp
next
  case (Cons x xs)
  from lru_step_ok [OF Cons.prems, of x] obtain c1 where c1: "lru_step x c = Some c1" "lru_inv c1"
    "lru_abs c1 = spec_step (lru_max_entries c) x (lru_abs c)" "lru_max_entries c1 = lru_max_entries c"
    by blast
  from Cons.IH [OF c1(2)] show ?case using c1 by simp
qed

section \<open>Eviction order\<close>

lemma keys_latest: "fst ` set (latest ps) = fst ` set ps"
proof (induction ps)
  case (Cons p ps)
  have "fst ` set (latest (p # ps)) = insert (fst p) (fst ` set (latest ps) - {fst p})"
    by (auto simp: image_iff)
  with Cons.IH show ?case by auto
qed simp

lemma distinct_latest: "distinct (map fst (latest ps))"
  by (induction ps) (auto simp: distinct_removeAll)

lemma take_del_key_take:
  "distinct (map fst xs) \<Longrightarrow> take m (del_key k (take (Suc m) xs)) = take m (del_key k xs)"
proof (induction xs arbitrary: m)
  case (Cons p xs)
  show ?case
  proof (cases "fst p = k")
    case True
    with Cons.prems have "k \<notin> fst ` set xs" by auto
    moreover have "k \<notin> fst ` set (take m xs)"
      using calculation by (auto dest: in_set_takeD)
    ultimately show ?thesis using True by simp
  next
    case False
    with Cons show ?thesis by (cases m) auto
  qed
qed simp

lemma spec_put_take_latest: "spec_put n k v (take n (latest ps)) = take n (latest ((k, v) # ps))"
  by (cases n) (simp_all add: spec_put_def take_del_key_take distinct_latest)

lemma fold_spec_put:
  "fold (spec_step n) (map (\<lambda>p. LPut (fst p) (snd p)) kvs) [] = take n (latest (rev kvs))"
  by (induction kvs rule: rev_induct) (simp_all add: spec_put_take_latest)

section \<open>The interface other components rely on\<close>

text \<open>
  What a client of a cache may rely on: \<open>get\<close> and \<open>put\<close> never fail, \<open>get\<close> returns what the cache
  holds and changes no binding, and after \<open>put k v\<close> the cache holds nothing but bindings it held
  before and \<open>k\<close> bound to \<open>v\<close>.  (A cache may forget any binding on \<open>put\<close>.)
\<close>

locale cache =
  fixes get :: "'k \<Rightarrow> 'c \<Rightarrow> ('v option \<times> 'c) option"
    and put :: "'k \<Rightarrow> 'v \<Rightarrow> 'c \<Rightarrow> 'c option"
    and peek :: "'c \<Rightarrow> 'k \<Rightarrow> 'v option"
    and inv :: "'c \<Rightarrow> bool"
  assumes get_law: "inv c \<Longrightarrow> \<exists>c'. get k c = Some (peek c k, c') \<and> inv c' \<and> peek c' = peek c"
    and put_law: "inv c \<Longrightarrow> \<exists>c'. put k v c = Some c' \<and> inv c' \<and>
      (\<forall>k' v'. peek c' k' = Some v' \<longrightarrow> (if k' = k then v' = v else peek c k' = Some v'))"
begin

definition coherent :: "('k \<Rightarrow> 'v option) \<Rightarrow> 'c \<Rightarrow> bool" where
  "coherent f c \<longleftrightarrow> (\<forall>k v. peek c k = Some v \<longrightarrow> f k = Some v)"

lemma get_coherent:
  assumes "inv c" "coherent f c"
  obtains c' where "get k c = Some (peek c k, c')" "inv c'" "coherent f c'"
  using assms get_law [of c k] by (auto simp: coherent_def)

lemma put_coherent:
  assumes "inv c" "coherent f c" "f k = Some v"
  obtains c' where "put k v c = Some c'" "inv c'" "coherent f c'"
proof -
  from put_law [OF assms(1), of k v] obtain c' where c': "put k v c = Some c'" "inv c'"
    "\<forall>k' v'. peek c' k' = Some v' \<longrightarrow> (if k' = k then v' = v else peek c k' = Some v')"
    by blast
  have "coherent f c'"
    unfolding coherent_def
  proof (intro allI impI)
    fix k' v' assume "peek c' k' = Some v'"
    then show "f k' = Some v'"
      using c'(3) assms(2,3) by (cases "k' = k") (auto simp: coherent_def)
  qed
  with c'(1,2) show ?thesis by (rule that)
qed

end

lemma spec_put_lookup:
  assumes "distinct (map fst xs)" "map_of (spec_put n k v xs) k' = Some v'"
  shows "if k' = k then v' = v else map_of xs k' = Some v'"
proof -
  let ?ys = "(k, v) # del_key k xs"
  have "(k', v') \<in> set ?ys"
    using assms(2) by (auto simp: spec_put_def dest!: map_of_SomeD in_set_takeD)
  then show ?thesis using assms(1) by (auto simp: map_of_is_SomeI)
qed

lemma spec_get_lookup:
  "distinct (map fst xs) \<Longrightarrow> map_of (snd (spec_get k xs)) = map_of xs"
  "fst (spec_get k xs) = map_of xs k"
  by (auto simp: spec_get_def fun_eq_iff split: option.splits)

interpretation lru: cache lru_get lru_put lru_peek lru_inv
proof
  fix c :: "('a, 'b) lru" and k v
  assume inv: "lru_inv c"
  then have d: "distinct (map fst (lru_abs c))" by (simp add: lru_inv_def)
  show "\<exists>c'. lru_get k c = Some (lru_peek c k, c') \<and> lru_inv c' \<and> lru_peek c' = lru_peek c"
    using lru_get_ok [OF inv, of k] spec_get_lookup(1) [OF d, of k] spec_get_lookup(2) [of k "lru_abs c"]
    by (auto simp: lru_peek_def fun_eq_iff)
  show "\<exists>c'. lru_put k v c = Some c' \<and> lru_inv c' \<and>
    (\<forall>k' v'. lru_peek c' k' = Some v' \<longrightarrow> (if k' = k then v' = v else lru_peek c k' = Some v'))"
    using put_locked_ok [OF inv, of k v] spec_put_lookup [OF d]
    unfolding lru_put_def lru_peek_def by metis
qed

section \<open>Properties\<close>

text \<open>
  C1. Any sequence of \<open>get\<close>, \<open>put\<close>, \<open>erase\<close> and \<open>clear\<close> on a fresh cache runs without ever
  touching a dangling list iterator, keeps the list and the index in agreement, and leaves the
  cache holding exactly the recency list that the specification computes, never longer than
  \<open>max_entries\<close>.
\<close>

theorem lru_refines_recency_list:
  "\<exists>c. lru_run xs (lru_new n) = Some c \<and> lru_inv c \<and> lru_abs c = fold (spec_step n) xs []
     \<and> lru_size c \<le> lru_capacity c \<and> lru_capacity c = n"
proof -
  from lru_run_ok [of "lru_new n" xs] obtain c where
    "lru_run xs (lru_new n) = Some c" "lru_inv c" "lru_abs c = fold (spec_step n) xs []"
    "lru_max_entries c = n"
    by auto
  moreover from this have "lru_size c \<le> lru_capacity c"
    by (simp add: lru_size_def lru_capacity_def lru_inv_def)
  ultimately show ?thesis by (auto simp: lru_capacity_def)
qed

text \<open>
  C2. Eviction is least-recently-used: after inserting any sequence of pairs into a cache of
  capacity \<open>n\<close>, the cache holds exactly the \<open>n\<close> keys inserted most recently, most recent
  first, each with the value of its last insertion.
\<close>

theorem lru_keeps_most_recent:
  "map_option lru_abs (lru_run (map (\<lambda>p. LPut (fst p) (snd p)) kvs) (lru_new n))
     = Some (take n (latest (rev kvs)))"
proof -
  from lru_run_ok [of "lru_new n" "map (\<lambda>p. LPut (fst p) (snd p)) kvs"] obtain c where
    "lru_run (map (\<lambda>p. LPut (fst p) (snd p)) kvs) (lru_new n) = Some c"
    "lru_abs c = take n (latest (rev kvs))"
    by (auto simp: fold_spec_put)
  then show ?thesis by simp
qed

end
