(* ===== verification/Bloom_Filter.thy ===== *)
theory Bloom_Filter
  imports Muses_Prelude Complex_Main
begin

unbundle bit_operations_syntax

text \<open>
  The counting Bloom filter of \<open>src/muses/bloom_filter.hpp\<close>: 4-bit counters packed two to a
  byte, \<open>k\<close> probes per item by double hashing on 64-bit words, saturating increments, removal and
  decay.

  \<open>std::hash\<close> is the parameter \<open>hash\<close>.  The two floating-point formulas of the constructor are
  the parameters \<open>ceil_m\<close> (\<open>ceil(-n ln p / ln2^2)\<close> cast to \<open>std::size_t\<close>) and \<open>round_k\<close>
  (\<open>round(m / n ln2)\<close>); everything the constructor does around them is modelled, and the theorems
  hold for every value they can take.  Every public method holds one mutex, so the operations are
  atomic.
\<close>

section \<open>State and operations\<close>

record bloom =
  bf_bytes :: "u8 list"
  bf_num_slots :: u64
  bf_num_hashes :: u64
  bf_expected_items :: u64

definition clamp_fp_rate :: "real \<Rightarrow> real" where
  "clamp_fp_rate p = (let p1 = (if p \<le> 0 then 1 / 10 ^ 9 else p)
                      in if p1 \<ge> 1 then 9999 / 10000 else p1)"

definition bloom_new :: "(u64 \<Rightarrow> real \<Rightarrow> u64) \<Rightarrow> (u64 \<Rightarrow> u64 \<Rightarrow> int) \<Rightarrow> u64 \<Rightarrow> real \<Rightarrow> bloom" where
  "bloom_new ceil_m round_k expected_items fp_rate =
     (let n = (if expected_items = 0 then 1 else expected_items);
          m0 = ceil_m n (clamp_fp_rate fp_rate);
          m1 = (if m0 < 2 then 2 else m0);
          m = (if m1 mod 2 \<noteq> 0 then m1 + 1 else m1);
          k_d = round_k m n
      in \<lparr>bf_bytes = replicate (unat (m div 2)) 0, bf_num_slots = m,
          bf_num_hashes = (if k_d < 1 then 1 else of_int k_d), bf_expected_items = n\<rparr>)"

definition hashes :: "('a \<Rightarrow> u64) \<Rightarrow> 'a \<Rightarrow> u64 \<times> u64" where
  "hashes hash item =
     (let h1 = hash item;
          h2 = (h1 * 0x9E3779B97F4A7C15) XOR drop_bit 32 h1
      in (h1, if h2 = 0 then 0x517cc1b727220a95 else h2))"

definition slot_of :: "u64 \<Rightarrow> u64 \<Rightarrow> u64 \<Rightarrow> nat \<Rightarrow> nat" where
  "slot_of num_slots h1 h2 i = unat ((h1 + of_nat i * h2) mod num_slots)"

definition get_counter :: "bloom \<Rightarrow> nat \<Rightarrow> u8" where
  "get_counter b slot =
     (let byte = slot div 2
      in if slot mod 2 = 0 then bf_bytes b ! byte AND 0x0F
         else drop_bit 4 (bf_bytes b ! byte) AND 0x0F)"

definition set_counter :: "nat \<Rightarrow> u8 \<Rightarrow> bloom \<Rightarrow> bloom" where
  "set_counter slot val b =
     (let byte = slot div 2; old = bf_bytes b ! byte
      in if slot mod 2 = 0
         then b\<lparr>bf_bytes := (bf_bytes b)[byte := (old AND 0xF0) OR (val AND 0x0F)]\<rparr>
         else b\<lparr>bf_bytes := (bf_bytes b)[byte := (old AND 0x0F) OR push_bit 4 (val AND 0x0F)]\<rparr>)"

definition saturate_inc :: "u8 \<Rightarrow> u8" where
  "saturate_inc c = (if c \<ge> 15 then 15 else c + 1)"

definition add_probe :: "u64 \<Rightarrow> u64 \<Rightarrow> nat \<Rightarrow> bloom \<Rightarrow> bloom" where
  "add_probe h1 h2 i b =
     (let idx = slot_of (bf_num_slots b) h1 h2 i
      in set_counter idx (saturate_inc (get_counter b idx)) b)"

definition bloom_add :: "('a \<Rightarrow> u64) \<Rightarrow> 'a \<Rightarrow> bloom \<Rightarrow> bloom" where
  "bloom_add hash item b =
     (let (h1, h2) = hashes hash item
      in fold (add_probe h1 h2) [0..<unat (bf_num_hashes b)] b)"

definition bloom_contains :: "('a \<Rightarrow> u64) \<Rightarrow> 'a \<Rightarrow> bloom \<Rightarrow> bool" where
  "bloom_contains hash item b =
     (let (h1, h2) = hashes hash item
      in list_all (\<lambda>i. get_counter b (slot_of (bf_num_slots b) h1 h2 i) \<noteq> 0)
                  [0..<unat (bf_num_hashes b)])"

definition remove_probe :: "u64 \<Rightarrow> u64 \<Rightarrow> nat \<Rightarrow> bool \<times> bloom \<Rightarrow> bool \<times> bloom" where
  "remove_probe h1 h2 i p =
     (let (changed, b) = p; idx = slot_of (bf_num_slots b) h1 h2 i; c = get_counter b idx
      in if c > 0 then (True, set_counter idx (c - 1) b) else (changed, b))"

definition bloom_remove :: "('a \<Rightarrow> u64) \<Rightarrow> 'a \<Rightarrow> bloom \<Rightarrow> bool \<times> bloom" where
  "bloom_remove hash item b =
     (let (h1, h2) = hashes hash item
      in fold (remove_probe h1 h2) [0..<unat (bf_num_hashes b)] (False, b))"

definition decay_byte :: "nat \<Rightarrow> u8 \<Rightarrow> u8" where
  "decay_byte shift packed =
     (let hi = drop_bit 4 packed AND 0x0F; lo = packed AND 0x0F
      in push_bit 4 (drop_bit shift hi) OR drop_bit shift lo)"

definition bloom_decay :: "nat \<Rightarrow> bloom \<Rightarrow> bloom" where
  "bloom_decay shift b =
     (if shift = 0 then b
      else if shift \<ge> 4 then b\<lparr>bf_bytes := map (\<lambda>_. 0) (bf_bytes b)\<rparr>
      else b\<lparr>bf_bytes := map (decay_byte shift) (bf_bytes b)\<rparr>)"

definition bloom_clear :: "bloom \<Rightarrow> bloom" where
  "bloom_clear b = b\<lparr>bf_bytes := map (\<lambda>_. 0) (bf_bytes b)\<rparr>"

definition bloom_capacity :: "bloom \<Rightarrow> u64" where
  "bloom_capacity b = bf_num_slots b"

definition bloom_hash_count :: "bloom \<Rightarrow> u64" where
  "bloom_hash_count b = bf_num_hashes b"

definition zero_counters :: "bloom \<Rightarrow> nat" where
  "zero_counters b =
     sum_list (map (\<lambda>packed. (if drop_bit 4 packed AND 0x0F = 0 then 1 else 0) +
                             (if packed AND 0x0F = 0 then 1 else 0)) (bf_bytes b))"

text \<open>\<open>std::log(0)\<close> is minus infinity, so the estimate is plus infinity when no counter is zero:
  that is the value \<open>None\<close>.\<close>

definition approximate_count :: "(real \<Rightarrow> real) \<Rightarrow> bloom \<Rightarrow> real option" where
  "approximate_count log_fn b =
     (let zeros = zero_counters b; m = real (unat (bf_num_slots b))
      in if zeros = unat (bf_num_slots b) then Some 0
         else if zeros = 0 then None
         else Some (- (m / real (unat (bf_num_hashes b))) * log_fn (real zeros / m)))"

datatype 'a bloom_op = BAdd 'a | BRemove 'a

fun bloom_step :: "('a \<Rightarrow> u64) \<Rightarrow> 'a bloom_op \<Rightarrow> bloom \<Rightarrow> bloom" where
  "bloom_step hash (BAdd x) b = bloom_add hash x b"
| "bloom_step hash (BRemove x) b = snd (bloom_remove hash x b)"

section \<open>Invariant, probes and the multiset specification\<close>

definition bloom_inv :: "bloom \<Rightarrow> bool" where
  [muses_inv]: "bloom_inv b \<longleftrightarrow>
     2 * length (bf_bytes b) = unat (bf_num_slots b) \<and> 2 \<le> unat (bf_num_slots b) \<and>
     1 \<le> unat (bf_num_hashes b)"

definition counter :: "bloom \<Rightarrow> nat \<Rightarrow> nat" where
  [muses_abs]: "counter b s = unat (get_counter b s)"

definition put_counter :: "nat \<Rightarrow> nat \<Rightarrow> bloom \<Rightarrow> bloom" where
  "put_counter s v b = set_counter s (of_nat v) b"

definition slots :: "bloom \<Rightarrow> nat" where
  "slots b = 2 * length (bf_bytes b)"

text \<open>The slots an item is mapped to, in probe order.\<close>

definition probes :: "('a \<Rightarrow> u64) \<Rightarrow> u64 \<Rightarrow> u64 \<Rightarrow> 'a \<Rightarrow> nat list" where
  "probes hash num_slots num_hashes item =
     map (\<lambda>i. slot_of num_slots (fst (hashes hash item)) (snd (hashes hash item)) i)
         [0..<unat num_hashes]"

abbreviation probes_in :: "('a \<Rightarrow> u64) \<Rightarrow> bloom \<Rightarrow> 'a \<Rightarrow> nat list" where
  "probes_in hash b \<equiv> probes hash (bf_num_slots b) (bf_num_hashes b)"

text \<open>How often the items of a multiset probe a slot.\<close>

definition load :: "('a \<Rightarrow> nat list) \<Rightarrow> 'a multiset \<Rightarrow> nat \<Rightarrow> nat" where
  "load pr M s = (\<Sum>x\<in>#M. count_list (pr x) s)"

text \<open>The multiset of items present after a history, and the histories a client may produce:
  only present items are removed, and no counter is driven past its 4 bits.\<close>

fun present_after :: "'a bloom_op list \<Rightarrow> 'a multiset \<Rightarrow> 'a multiset" where
  "present_after [] M = M"
| "present_after (BAdd x # ops) M = present_after ops (add_mset x M)"
| "present_after (BRemove x # ops) M = present_after ops (M - {#x#})"

fun legal :: "('a \<Rightarrow> nat list) \<Rightarrow> 'a bloom_op list \<Rightarrow> 'a multiset \<Rightarrow> bool" where
  "legal pr [] M \<longleftrightarrow> True"
| "legal pr (BAdd x # ops) M \<longleftrightarrow>
     list_all (\<lambda>s. load pr (add_mset x M) s \<le> 15) (pr x) \<and> legal pr ops (add_mset x M)"
| "legal pr (BRemove x # ops) M \<longleftrightarrow> x \<in># M \<and> legal pr ops (M - {#x#})"

section \<open>Nibbles\<close>

lemma mask_15: "(15::u8) = mask 4"
  by (simp add: mask_eq_exp_minus_1)

lemma mask_240: "(240::u8) = NOT (mask 4)"
  by (simp add: mask_eq_exp_minus_1)

lemma unat_and_15: "unat (a AND 15 :: u8) = unat a mod 16"
  by (simp add: mask_15 take_bit_eq_mask [symmetric] take_bit_eq_mod unat_mod_distrib)

lemma unat_hi_and_15: "unat (drop_bit 4 a AND 15 :: u8) = unat a div 16"
proof -
  have "unat a < 256" using unsigned_less [of a, where 'a = nat] by simp
  then show ?thesis
    by (simp add: unat_and_15 drop_bit_eq_div unat_div_distrib)
qed

lemma set_lo: "((a AND 240) OR (v AND 15)) AND 15 = v AND (15::u8)"
  by (simp add: mask_15 mask_240 bit_eq_iff bit_simps) auto

lemma set_lo_keeps_hi: "drop_bit 4 ((a AND 240) OR (v AND 15)) AND 15 = drop_bit 4 a AND (15::u8)"
  by (simp add: mask_15 mask_240 bit_eq_iff bit_simps)

lemma set_hi: "drop_bit 4 ((a AND 15) OR push_bit 4 (v AND 15)) AND 15 = v AND (15::u8)"
  by (simp add: mask_15 mask_240 bit_eq_iff bit_simps) auto

lemma set_hi_keeps_lo: "((a AND 15) OR push_bit 4 (v AND 15)) AND 15 = a AND (15::u8)"
  by (simp add: mask_15 mask_240 bit_eq_iff bit_simps) auto

lemma byte_eq_nibbles: "a = b \<longleftrightarrow> a AND 15 = b AND 15 \<and> drop_bit 4 a AND 15 = drop_bit 4 b AND (15::u8)"
proof
  assume "a AND 15 = b AND 15 \<and> drop_bit 4 a AND 15 = drop_bit 4 b AND 15"
  then have "unat a mod 16 = unat b mod 16" "unat a div 16 = unat b div 16"
    by (metis unat_and_15, metis unat_hi_and_15)
  then show "a = b" by (metis div_mult_mod_eq unsigned_word_eqI)
qed simp

lemma decay_lo: "shift < 4 \<Longrightarrow> decay_byte shift a AND 15 = drop_bit shift (a AND 15)"
  by (simp add: decay_byte_def mask_15 bit_eq_iff bit_simps Let_def) auto

lemma decay_hi: "shift < 4 \<Longrightarrow> drop_bit 4 (decay_byte shift a) AND 15 = drop_bit shift (drop_bit 4 a AND 15)"
  by (simp add: decay_byte_def mask_15 bit_eq_iff bit_simps Let_def) auto


section \<open>The counter array as an interface\<close>

text \<open>
  An array of 4-bit counters: what the filter's operations rely on, independent of the packing.
\<close>

locale counter_array =
  fixes get :: "'s \<Rightarrow> nat \<Rightarrow> nat"
    and put :: "nat \<Rightarrow> nat \<Rightarrow> 's \<Rightarrow> 's"
    and len :: "'s \<Rightarrow> nat"
  assumes get_bound: "get s i \<le> 15"
    and get_put: "i < len s \<Longrightarrow> j < len s \<Longrightarrow> v \<le> 15 \<Longrightarrow> get (put i v s) j = (if i = j then v else get s j)"
    and len_put: "len (put i v s) = len s"
begin

definition bump :: "nat \<Rightarrow> 's \<Rightarrow> 's" where
  "bump i s = put i (min 15 (Suc (get s i))) s"

definition drop_one :: "nat \<Rightarrow> 's \<Rightarrow> 's" where
  "drop_one i s = (if get s i > 0 then put i (get s i - 1) s else s)"

lemma len_bump [simp]: "len (bump i s) = len s"
  by (simp add: bump_def len_put)

lemma len_drop_one [simp]: "len (drop_one i s) = len s"
  by (simp add: drop_one_def len_put)

lemma len_fold_bump [simp]: "len (fold bump is s) = len s"
  by (induction "is" arbitrary: s) simp_all

lemma len_fold_drop [simp]: "len (fold drop_one is s) = len s"
  by (induction "is" arbitrary: s) simp_all

lemma get_fold_bump:
  assumes "\<forall>i \<in> set is. i < len s" "j < len s"
  shows "get (fold bump is s) j = min 15 (get s j + count_list is j)"
  using assms
proof (induction "is" arbitrary: s)
  case Nil
  then show ?case using get_bound [of s j] by simp
next
  case (Cons i "is")
  then have "get (fold bump is (bump i s)) j = min 15 (get (bump i s) j + count_list is j)"
    by simp
  moreover have "get (bump i s) j = (if i = j then min 15 (Suc (get s j)) else get s j)"
    using Cons.prems by (simp add: bump_def get_put)
  ultimately show ?case by (simp add: min_def)
qed

lemma get_fold_drop:
  assumes "\<forall>i \<in> set is. i < len s" "j < len s"
  shows "get (fold drop_one is s) j = get s j - count_list is j"
  using assms
proof (induction "is" arbitrary: s)
  case Nil
  then show ?case by simp
next
  case (Cons i "is")
  then have "get (fold drop_one is (drop_one i s)) j = get (drop_one i s) j - count_list is j"
    by simp
  moreover have "get (drop_one i s) j = (if i = j then get s j - 1 else get s j)"
    using Cons.prems get_bound [of s i] by (auto simp: drop_one_def get_put)
  ultimately show ?case by simp
qed

end

lemma counter_le_15: "counter b s \<le> 15"
proof -
  have "unat (a AND 15 :: u8) \<le> 15" for a
    using mod_less_divisor [of 16 "unat a"] unfolding unat_and_15 by linarith
  then show ?thesis by (simp add: counter_def get_counter_def Let_def)
qed

lemma unat_of_nat_15: "v \<le> 15 \<Longrightarrow> unat ((of_nat v :: u8) AND 15) = v"
  by (simp add: unat_and_15 unat_of_nat)

lemma counter_set_counter:
  assumes "i < slots b" "j < slots b"
  shows "counter (set_counter i v b) j = (if i = j then unat (v AND 15) else counter b j)"
proof -
  have r: "i div 2 < length (bf_bytes b)" "j div 2 < length (bf_bytes b)"
    using assms by (simp_all add: slots_def)
  have "i = j \<longleftrightarrow> i div 2 = j div 2 \<and> i mod 2 = j mod 2"
    by (metis div_mult_mod_eq)
  then show ?thesis
    using r by (auto simp: counter_def get_counter_def set_counter_def Let_def nth_list_update
      set_lo set_hi set_lo_keeps_hi set_hi_keeps_lo
      simp del: push_bit_and drop_bit_and drop_bit_or)
qed

lemma slots_set_counter [simp]: "slots (set_counter i v b) = slots b"
  by (simp add: slots_def set_counter_def Let_def)

interpretation nibbles: counter_array counter put_counter slots
proof
  show "counter b s \<le> 15" for b s by (rule counter_le_15)
  show "counter (put_counter i v b) j = (if i = j then v else counter b j)"
    if "i < slots b" "j < slots b" "v \<le> 15" for i j v b
    using that by (simp add: put_counter_def counter_set_counter unat_of_nat_15)
  show "slots (put_counter i v b) = slots b" for i v b
    by (simp add: put_counter_def)
qed

section \<open>The operations through the interface\<close>

lemma bloom_geometry [simp]:
  "bf_num_slots (set_counter i v b) = bf_num_slots b"
  "bf_num_hashes (set_counter i v b) = bf_num_hashes b"
  "length (bf_bytes (set_counter i v b)) = length (bf_bytes b)"
  by (simp_all add: set_counter_def Let_def)

lemma bump_geometry [simp]:
  "bf_num_slots (nibbles.bump i b) = bf_num_slots b" "bf_num_hashes (nibbles.bump i b) = bf_num_hashes b"
  "bf_num_slots (nibbles.drop_one i b) = bf_num_slots b"
  "bf_num_hashes (nibbles.drop_one i b) = bf_num_hashes b"
  by (simp_all add: nibbles.bump_def nibbles.drop_one_def put_counter_def)

lemma fold_geometry [simp]:
  "bf_num_slots (fold nibbles.bump is b) = bf_num_slots b"
  "bf_num_hashes (fold nibbles.bump is b) = bf_num_hashes b"
  "bf_num_slots (fold nibbles.drop_one is b) = bf_num_slots b"
  "bf_num_hashes (fold nibbles.drop_one is b) = bf_num_hashes b"
  by (induction "is" arbitrary: b) simp_all

lemma saturate_inc_counter:
  "set_counter i (saturate_inc (get_counter b i)) b = nibbles.bump i b"
proof -
  have "saturate_inc (get_counter b i) = of_nat (min 15 (Suc (counter b i)))"
  proof (cases "counter b i = 15")
    case True
    then show ?thesis by (simp add: saturate_inc_def counter_def word_le_nat_alt)
  next
    case False
    with counter_le_15 [of b i] have "counter b i < 15" by simp
    then show ?thesis by (simp add: saturate_inc_def counter_def word_le_nat_alt)
  qed
  then show ?thesis by (simp add: nibbles.bump_def put_counter_def)
qed

lemma dec_counter:
  "(if get_counter b i > 0 then set_counter i (get_counter b i - 1) b else b) = nibbles.drop_one i b"
proof -
  have "get_counter b i - 1 = of_nat (counter b i - 1)" if "get_counter b i > 0"
    using that by (simp add: counter_def unat_gt_0 of_nat_diff word_gt_0 Suc_leI)
  then show ?thesis
    by (auto simp: nibbles.drop_one_def put_counter_def counter_def word_gt_0 unat_gt_0)
qed


lemma bloom_add_eq: "bloom_add hash x b = fold nibbles.bump (probes_in hash b x) b"
proof -
  obtain h1 h2 where h: "hashes hash x = (h1, h2)" by fastforce
  have "fold (add_probe h1 h2) is b =
    fold nibbles.bump (map (slot_of (bf_num_slots b) h1 h2) is) b" for "is" b
    by (induction "is" arbitrary: b) (simp_all add: add_probe_def saturate_inc_counter Let_def)
  then show ?thesis by (simp add: bloom_add_def probes_def h)
qed

lemma snd_remove_probe:
  "snd (remove_probe h1 h2 i p) = nibbles.drop_one (slot_of (bf_num_slots (snd p)) h1 h2 i) (snd p)"
  by (cases p) (simp add: remove_probe_def Let_def dec_counter [symmetric])

lemma bloom_remove_eq: "snd (bloom_remove hash x b) = fold nibbles.drop_one (probes_in hash b x) b"
proof -
  obtain h1 h2 where h: "hashes hash x = (h1, h2)" by fastforce
  have "snd (fold (remove_probe h1 h2) is p) =
    fold nibbles.drop_one (map (slot_of (bf_num_slots (snd p)) h1 h2) is) (snd p)" for "is" p
    by (induction "is" arbitrary: p) (simp_all add: snd_remove_probe)
  then show ?thesis by (simp add: bloom_remove_def probes_def h)
qed

lemma bloom_add_geometry [simp]:
  "bf_num_slots (bloom_add hash x b) = bf_num_slots b"
  "bf_num_hashes (bloom_add hash x b) = bf_num_hashes b"
  by (simp_all add: bloom_add_eq)

lemma bloom_remove_geometry [simp]:
  "bf_num_slots (snd (bloom_remove hash x b)) = bf_num_slots b"
  "bf_num_hashes (snd (bloom_remove hash x b)) = bf_num_hashes b"
  by (simp_all add: bloom_remove_eq)

lemma bloom_contains_iff:
  "bloom_contains hash x b \<longleftrightarrow> (\<forall>s \<in> set (probes_in hash b x). 0 < counter b s)"
  by (auto simp: bloom_contains_def probes_def counter_def list_all_iff unat_gt_0 split: prod.splits)

lemma probes_in_range:
  assumes "bloom_inv b" "s \<in> set (probes_in hash b x)"
  shows "s < slots b"
proof -
  obtain w where s: "s = unat (w mod bf_num_slots b)"
    using assms(2) by (auto simp: probes_def slot_of_def)
  have "0 < unat (bf_num_slots b)" using assms(1) by (simp add: bloom_inv_def)
  then have "unat w mod unat (bf_num_slots b) < unat (bf_num_slots b)" by simp
  then show ?thesis using assms(1) s by (simp add: unat_mod_distrib bloom_inv_def slots_def)
qed

lemma probes_nonempty: "bloom_inv b \<Longrightarrow> probes_in hash b x \<noteq> []"
  by (simp add: probes_def bloom_inv_def)

lemma bloom_inv_add [simp]: "bloom_inv b \<Longrightarrow> bloom_inv (bloom_add hash x b)"
  using nibbles.len_fold_bump [of "probes_in hash b x" b]
  by (simp add: bloom_inv_def bloom_add_eq slots_def)

lemma bloom_inv_remove [simp]: "bloom_inv b \<Longrightarrow> bloom_inv (snd (bloom_remove hash x b))"
  using nibbles.len_fold_drop [of "probes_in hash b x" b]
  by (simp add: bloom_inv_def bloom_remove_eq slots_def)

lemma bloom_op_geometry [simp]:
  "bf_num_slots (bloom_step hash x b) = bf_num_slots b"
  "bf_num_hashes (bloom_step hash x b) = bf_num_hashes b"
  by (cases x; simp)+

lemma slots_op [simp]: "slots (bloom_step hash x b) = slots b"
  by (cases x) (simp_all add: bloom_add_eq bloom_remove_eq)

lemma slots_add_remove [simp]:
  "slots (bloom_add hash x b) = slots b" "slots (snd (bloom_remove hash x b)) = slots b"
  by (simp_all add: bloom_add_eq bloom_remove_eq)

lemma bloom_inv_step [simp]: "bloom_inv b \<Longrightarrow> bloom_inv (bloom_step hash x b)"
  by (cases x) simp_all

lemma counter_add:
  assumes "bloom_inv b" "s < slots b"
  shows "counter (bloom_add hash x b) s = min 15 (counter b s + count_list (probes_in hash b x) s)"
  unfolding bloom_add_eq
  by (intro nibbles.get_fold_bump ballI probes_in_range [OF assms(1)] assms(2))

lemma counter_remove:
  assumes "bloom_inv b" "s < slots b"
  shows "counter (snd (bloom_remove hash x b)) s = counter b s - count_list (probes_in hash b x) s"
  unfolding bloom_remove_eq
  by (intro nibbles.get_fold_drop ballI probes_in_range [OF assms(1)] assms(2))

lemma bloom_eqI:
  assumes "\<And>s. s < slots b \<Longrightarrow> counter b s = counter b' s" "length (bf_bytes b) = length (bf_bytes b')"
    "bf_num_slots b = bf_num_slots b'" "bf_num_hashes b = bf_num_hashes b'"
    "bf_expected_items b = bf_expected_items (b' :: bloom)"
  shows "b = b'"
proof -
  have "bf_bytes b ! i = bf_bytes b' ! i" if "i < length (bf_bytes b)" for i
  proof -
    have "counter b (2 * i) = counter b' (2 * i)" "counter b (Suc (2 * i)) = counter b' (Suc (2 * i))"
      using that assms(1) by (simp_all add: slots_def)
    then show ?thesis
      by (subst byte_eq_nibbles) (simp add: counter_def get_counter_def Let_def word_unat_eq_iff)
  qed
  then have "bf_bytes b = bf_bytes b'" using assms(2) by (simp add: list_eq_iff_nth_eq)
  with assms(3-5) show ?thesis by simp
qed

lemma load_simps [simp]:
  "load pr {#} s = 0" "load pr (add_mset x M) s = count_list (pr x) s + load pr M s"
  by (simp_all add: load_def)

lemma load_remove: "x \<in># M \<Longrightarrow> load pr (M - {#x#}) s = load pr M s - count_list (pr x) s"
  by (metis add_diff_cancel_left' insert_DiffM load_simps(2))

lemma load_pos: "x \<in># M \<Longrightarrow> s \<in> set (pr x) \<Longrightarrow> 0 < load pr M s"
  by (metis add_gr_0 count_list_0_iff gr0I insert_DiffM load_simps(2))


lemma bf_expected_fold [simp]:
  "bf_expected_items (fold nibbles.bump is b) = bf_expected_items b"
  "bf_expected_items (fold nibbles.drop_one is b) = bf_expected_items b"
  by (induction "is" arbitrary: b)
    (simp_all add: nibbles.bump_def nibbles.drop_one_def put_counter_def set_counter_def Let_def)

lemma bloom_expected [simp]:
  "bf_expected_items (bloom_add hash x b) = bf_expected_items b"
  "bf_expected_items (snd (bloom_remove hash x b)) = bf_expected_items b"
  by (simp_all add: bloom_add_eq bloom_remove_eq)

lemma length_bytes_op [simp]:
  "length (bf_bytes (bloom_add hash x b)) = length (bf_bytes b)"
  "length (bf_bytes (snd (bloom_remove hash x b))) = length (bf_bytes b)"
  using slots_op [of hash "BAdd x" b] slots_op [of hash "BRemove x" b] by (simp_all add: slots_def)

text \<open>A legal history keeps every counter equal to the load of the items present.\<close>

definition tracks :: "('a \<Rightarrow> nat list) \<Rightarrow> 'a multiset \<Rightarrow> bloom \<Rightarrow> bool" where
  "tracks pr M b \<longleftrightarrow> (\<forall>s < slots b. counter b s = load pr M s)"

lemma tracks_step:
  assumes inv: "bloom_inv b" and tr: "tracks (probes_in hash b) M b"
    and legal: "legal (probes_in hash b) (op # ops) M"
  shows "tracks (probes_in hash b) (present_after [op] M) (bloom_step hash op b)"
proof (cases op)
  case (BAdd x)
  have "min 15 (counter b s + count_list (probes_in hash b x) s) = load (probes_in hash b) (add_mset x M) s"
    if "s < slots b" for s
  proof (cases "s \<in> set (probes_in hash b x)")
    case True
    then have "load (probes_in hash b) (add_mset x M) s \<le> 15"
      using legal BAdd by (simp add: list_all_iff)
    then show ?thesis using tr that by (simp add: tracks_def)
  next
    case False
    then have "count_list (probes_in hash b x) s = 0" by (simp add: count_list_0_iff)
    then show ?thesis using tr that counter_le_15 [of b s] by (simp add: tracks_def)
  qed
  then show ?thesis
    using BAdd inv by (simp add: tracks_def counter_add)
next
  case (BRemove x)
  then show ?thesis
    using inv tr legal by (simp add: tracks_def counter_remove load_remove)
qed

lemma tracks_run:
  assumes "bloom_inv b" "tracks (probes_in hash b) M b" "legal (probes_in hash b) ops M"
  shows "tracks (probes_in hash b) (present_after ops M) (fold (bloom_step hash) ops b)
    \<and> bloom_inv (fold (bloom_step hash) ops b)"
  using assms
proof (induction ops arbitrary: b M)
  case (Cons op ops)
  let ?b = "bloom_step hash op b" and ?M = "present_after [op] M"
  have "legal (probes_in hash b) ops ?M" using Cons.prems(3) by (cases op) auto
  moreover have "present_after ops ?M = present_after (op # ops) M" by (cases op) simp_all
  ultimately show ?case
    using Cons.IH [of ?b ?M] Cons.prems(1) tracks_step [OF Cons.prems] by simp
qed simp

lemma bloom_run_geometry [simp]:
  "bf_num_slots (fold (bloom_step hash) ops b) = bf_num_slots b"
  "bf_num_hashes (fold (bloom_step hash) ops b) = bf_num_hashes b"
  "slots (fold (bloom_step hash) ops b) = slots b"
  by (induction ops arbitrary: b) simp_all

lemma counter_clear [simp]: "s < slots b \<Longrightarrow> counter (bloom_clear b) s = 0"
  by (simp add: counter_def get_counter_def bloom_clear_def slots_def Let_def)

lemma bloom_clear_geometry [simp]:
  "bf_num_slots (bloom_clear b) = bf_num_slots b" "bf_num_hashes (bloom_clear b) = bf_num_hashes b"
  "slots (bloom_clear b) = slots b" "bloom_inv (bloom_clear b) = bloom_inv b"
  by (simp_all add: bloom_clear_def slots_def bloom_inv_def)

lemma bloom_new_inv:
  assumes m: "ceil_m (if n = 0 then 1 else n) (clamp_fp_rate p) \<noteq> - 1"
    and k: "round_k (bf_num_slots (bloom_new ceil_m round_k n p)) (if n = 0 then 1 else n) < 2 ^ 64"
  shows "bloom_inv (bloom_new ceil_m round_k n p)"
proof -
  define m0 where "m0 = ceil_m (if n = 0 then 1 else n) (clamp_fp_rate p)"
  define m1 where "m1 = (if m0 < 2 then 2 else m0)"
  define m2 where "m2 = (if m1 mod 2 \<noteq> 0 then m1 + 1 else m1)"
  have N: "bf_num_slots (bloom_new ceil_m round_k n p) = m2"
    "length (bf_bytes (bloom_new ceil_m round_k n p)) = unat (m2 div 2)"
    by (simp_all add: bloom_new_def m0_def m1_def m2_def Let_def)
  have m1: "2 \<le> unat m1" "m1 \<noteq> - 1"
    using m by (auto simp: m1_def m0_def word_less_nat_alt)
  have par: "m1 mod 2 \<noteq> 0 \<longleftrightarrow> odd (unat m1)"
    by (simp add: word_unat_eq_iff unat_mod_distrib odd_iff_mod_2_eq_one)
  have "unat (m1 + 1) = unat m1 + 1" using m1(2)
    by (metis add.commute add_eq_0_iff plus_1_eq_Suc unatSuc)
  then have m2: "even (unat m2)" "2 \<le> unat m2"
    using m1 par by (auto simp: m2_def)
  define kd where "kd = round_k m2 (if n = 0 then 1 else n)"
  have K: "bf_num_hashes (bloom_new ceil_m round_k n p) = (if kd < 1 then 1 else of_int kd)"
    by (simp add: bloom_new_def m0_def m1_def m2_def kd_def Let_def)
  have "1 \<le> unat (of_int kd :: u64)" if "1 \<le> kd"
    using that k unfolding N(1) kd_def [symmetric]
    by (simp add: unat_eq_nat_uint uint_word_of_int take_bit_eq_mod)
  then have "1 \<le> unat (bf_num_hashes (bloom_new ceil_m round_k n p))"
    unfolding K by simp
  with N m2 show ?thesis
    by (simp add: bloom_inv_def unat_div_distrib)
qed

lemma fst_remove_probe: "fst p \<Longrightarrow> fst (remove_probe h1 h2 i p)"
  by (cases p) (simp add: remove_probe_def Let_def)

lemma bloom_remove_changed:
  "fst (bloom_remove hash x b) \<longleftrightarrow> (\<exists>s \<in> set (probes_in hash b x). 0 < counter b s)"
proof -
  obtain h1 h2 where h: "hashes hash x = (h1, h2)" by fastforce
  have sticky: "fst (fold (remove_probe h1 h2) is p)" if "fst p" for "is" p
    using that by (induction "is" arbitrary: p) (simp_all add: fst_remove_probe)
  have "fst (fold (remove_probe h1 h2) is (False, c)) \<longleftrightarrow>
    (\<exists>i \<in> set is. 0 < get_counter c (slot_of (bf_num_slots c) h1 h2 i))" for "is" c
  proof (induction "is")
    case (Cons i "is")
    show ?case
      by (cases "0 < get_counter c (slot_of (bf_num_slots c) h1 h2 i)")
        (simp_all add: remove_probe_def [of h1 h2 i] sticky Cons.IH Let_def)
  qed simp
  then show ?thesis
    by (simp add: bloom_remove_def probes_def h counter_def unat_gt_0 word_gt_0)
qed

lemma counter_decay:
  assumes "s < slots b"
  shows "counter (bloom_decay shift b) s = counter b s div 2 ^ shift"
proof -
  have r: "s div 2 < length (bf_bytes b)" using assms by (simp add: slots_def)
  consider "shift = 0" | "0 < shift" "shift < 4" | "4 \<le> shift" by linarith
  then show ?thesis
  proof cases
    case 2
    with r show ?thesis
      by (auto simp: counter_def get_counter_def bloom_decay_def Let_def decay_lo decay_hi
        unat_drop_bit_eq drop_bit_eq_div [where 'a = nat]
        simp del: drop_bit_and drop_bit_drop_bit)
  next
    case 3
    have "counter b s < 2 ^ 4" using counter_le_15 [of b s] by simp
    also have "\<dots> \<le> 2 ^ shift" using 3 by (intro power_increasing) simp_all
    finally show ?thesis
      using 3 r by (simp add: counter_def get_counter_def bloom_decay_def Let_def)
  qed (simp add: bloom_decay_def)
qed


lemma bloom_decay_geometry [simp]:
  "bf_num_slots (bloom_decay shift b) = bf_num_slots b"
  "bf_num_hashes (bloom_decay shift b) = bf_num_hashes b"
  "slots (bloom_decay shift b) = slots b" "bloom_inv (bloom_decay shift b) = bloom_inv b"
  by (simp_all add: bloom_decay_def slots_def bloom_inv_def)

lemma decay_iter:
  "bf_num_slots ((bloom_decay shift ^^ n) b) = bf_num_slots b \<and>
   bf_num_hashes ((bloom_decay shift ^^ n) b) = bf_num_hashes b \<and>
   slots ((bloom_decay shift ^^ n) b) = slots b \<and>
   (s < slots b \<longrightarrow> counter ((bloom_decay shift ^^ n) b) s = counter b s div 2 ^ (n * shift))"
  by (induction n) (simp_all add: counter_decay div_mult2_eq [symmetric] power_add mult.commute)

lemma counter_fold_add_mono:
  assumes "bloom_inv b" "s < slots b"
  shows "counter b s \<le> counter (fold (bloom_add hash) xs b) s"
  using assms
proof (induction xs arbitrary: b)
  case (Cons x xs)
  have "counter b s \<le> counter (bloom_add hash x b) s"
    using Cons.prems counter_le_15 [of b s] by (simp add: counter_add)
  also have "\<dots> \<le> counter (fold (bloom_add hash) xs (bloom_add hash x b)) s"
    using Cons.prems by (intro Cons.IH) simp_all
  finally show ?case by simp
qed simp

lemma fold_add_geometry [simp]:
  "bf_num_slots (fold (bloom_add hash) xs b) = bf_num_slots b"
  "bf_num_hashes (fold (bloom_add hash) xs b) = bf_num_hashes b"
  "bloom_inv b \<Longrightarrow> bloom_inv (fold (bloom_add hash) xs b)"
  "slots (fold (bloom_add hash) xs b) = slots b"
  by (induction xs arbitrary: b) simp_all

section \<open>A small filter for the witnesses\<close>

definition demo_hash :: "nat \<Rightarrow> u64" where
  "demo_hash n = of_nat n"

definition demo_filter :: bloom where
  "demo_filter = bloom_new (\<lambda>_ _. 7) (\<lambda>_ _. 2) 2 (1 / 100)"

lemma demo_filter_inv: "bloom_inv demo_filter"
  unfolding demo_filter_def by (rule bloom_new_inv) simp_all

section \<open>Properties\<close>

text \<open>
  C3. No false negatives: whatever was added to a well-formed filter, in any order and however
  often (also when counters saturate), \<open>contains\<close> answers true for it afterwards.
\<close>

theorem bloom_no_false_negatives:
  assumes inv: "bloom_inv b" and x: "x \<in> set xs"
  shows "bloom_contains hash x (fold (bloom_add hash) xs b)"
proof -
  from x obtain ys zs where xs: "xs = ys @ x # zs" by (meson split_list)
  let ?b = "fold (bloom_add hash) ys b"
  have inv': "bloom_inv ?b" "bloom_inv (bloom_add hash x ?b)" using inv by simp_all
  have "0 < counter (fold (bloom_add hash) xs b) s" if "s \<in> set (probes_in hash b x)" for s
  proof -
    have r: "s < slots ?b" using probes_in_range [OF inv that] by simp
    have "0 < count_list (probes_in hash ?b x) s"
      using that by (simp add: count_list_0_iff flip: neq0_conv)
    then have "0 < counter (bloom_add hash x ?b) s"
      using r by (simp add: counter_add [OF inv'(1)])
    also have "\<dots> \<le> counter (fold (bloom_add hash) xs b) s"
      using counter_fold_add_mono [OF inv'(2), of s hash zs] r by (simp add: xs)
    finally show ?thesis .
  qed
  then show ?thesis by (simp add: bloom_contains_iff)
qed

theorem bloom_no_false_negatives_witness:
  "bloom_inv demo_filter \<and> 3 \<in> set [5, 3, 5 :: nat] \<and>
   bloom_contains demo_hash 3 (fold (bloom_add demo_hash) [5, 3, 5] demo_filter)"
  using bloom_no_false_negatives [OF demo_filter_inv, of 3 "[5, 3, 5]" demo_hash] demo_filter_inv
  by simp

text \<open>
  C4. Exact counting under removal: in a history on a cleared filter that removes only items that
  are present and never drives a counter past 15, every counter equals the number of probes of
  the items present; so every present item is reported, and when none is left the filter is the
  cleared filter again.
\<close>

theorem bloom_counts_exactly:
  assumes inv: "bloom_inv b" and legal: "legal (probes_in hash b) ops {#}"
  shows "(\<forall>s < slots b. counter (fold (bloom_step hash) ops (bloom_clear b)) s =
             load (probes_in hash b) (present_after ops {#}) s) \<and>
         (\<forall>x. x \<in># present_after ops {#} \<longrightarrow>
             bloom_contains hash x (fold (bloom_step hash) ops (bloom_clear b))) \<and>
         (present_after ops {#} = {#} \<longrightarrow>
             (\<forall>y. \<not> bloom_contains hash y (fold (bloom_step hash) ops (bloom_clear b))))"
proof -
  let ?b = "fold (bloom_step hash) ops (bloom_clear b)" and ?M = "present_after ops {#}"
  have C: "\<forall>s < slots b. counter ?b s = load (probes_in hash b) ?M s"
    using tracks_run [of "bloom_clear b" hash "{#}" ops] inv legal by (simp add: tracks_def)
  have "bloom_contains hash x ?b" if "x \<in># ?M" for x
  proof -
    have "0 < counter ?b s" if s: "s \<in> set (probes_in hash b x)" for s
      using C probes_in_range [OF inv s] load_pos [of x ?M s "probes_in hash b"] s \<open>x \<in># ?M\<close> by simp
    then show ?thesis by (simp add: bloom_contains_iff)
  qed
  moreover have "\<not> bloom_contains hash y ?b" if "?M = {#}" for y
  proof -
    from probes_nonempty [OF inv] obtain s where s: "s \<in> set (probes_in hash b y)"
      by (meson list.set_sel(1))
    with C that probes_in_range [OF inv s] have "counter ?b s = 0" by simp
    with s show ?thesis by (auto simp: bloom_contains_iff)
  qed
  ultimately show ?thesis using C by blast
qed

theorem bloom_counts_exactly_witness:
  "legal (probes_in demo_hash demo_filter) [BAdd 3, BAdd 5, BRemove 3] {#} \<and>
   bloom_contains demo_hash 5 (fold (bloom_step demo_hash) [BAdd 3, BAdd 5, BRemove 3] (bloom_clear demo_filter))"
proof -
  have l: "legal (probes_in demo_hash demo_filter) [BAdd 3, BAdd 5, BRemove 3] {#}" by code_simp
  show ?thesis using l bloom_counts_exactly [OF demo_filter_inv l] by simp
qed

text \<open>
  C5. Removing an item right after adding it restores the filter bit for bit, and reports a
  change, provided no counter of the item saturates.
\<close>

theorem bloom_remove_undoes_add:
  assumes inv: "bloom_inv b"
    and room: "list_all (\<lambda>s. counter b s + count_list (probes_in hash b x) s \<le> 15) (probes_in hash b x)"
  shows "bloom_remove hash x (bloom_add hash x b) = (True, b)"
proof -
  let ?a = "bloom_add hash x b"
  have a: "probes_in hash ?a x = probes_in hash b x" by simp
  have add: "counter ?a s = counter b s + count_list (probes_in hash b x) s" if "s < slots b" for s
  proof (cases "s \<in> set (probes_in hash b x)")
    case True
    with room have "counter b s + count_list (probes_in hash b x) s \<le> 15" by (simp add: list_all_iff)
    with that inv show ?thesis by (simp add: counter_add)
  next
    case False
    then have "count_list (probes_in hash b x) s = 0" by (simp add: count_list_0_iff)
    with that inv counter_le_15 [of b s] show ?thesis by (simp add: counter_add)
  qed
  have "snd (bloom_remove hash x ?a) = b"
  proof (rule bloom_eqI)
    fix s assume "s < slots (snd (bloom_remove hash x ?a))"
    then have s: "s < slots b" by simp
    show "counter (snd (bloom_remove hash x ?a)) s = counter b s"
      using s inv add [OF s] by (simp add: counter_remove)
  qed simp_all
  moreover have "fst (bloom_remove hash x ?a)"
  proof -
    from probes_nonempty [OF inv] obtain s where s: "s \<in> set (probes_in hash b x)"
      by (meson list.set_sel(1))
    then have "0 < count_list (probes_in hash b x) s"
      by (simp add: count_list_0_iff flip: neq0_conv)
    then have "0 < counter ?a s" using add [OF probes_in_range [OF inv s]] by simp
    then show ?thesis using s inv by (auto simp: bloom_remove_changed)
  qed
  ultimately show ?thesis by (simp add: prod_eq_iff)
qed

theorem bloom_remove_undoes_add_witness:
  "list_all (\<lambda>s. counter demo_filter s + count_list (probes_in demo_hash demo_filter 3) s \<le> 15)
     (probes_in demo_hash demo_filter 3) \<and>
   bloom_remove demo_hash 3 (bloom_add demo_hash 3 demo_filter) = (True, demo_filter)"
proof -
  have r: "list_all (\<lambda>s. counter demo_filter s + count_list (probes_in demo_hash demo_filter 3) s \<le> 15)
    (probes_in demo_hash demo_filter 3)" by code_simp
  show ?thesis using r bloom_remove_undoes_add [OF demo_filter_inv r] by simp
qed

text \<open>
  C6. Decay divides every counter by a power of two, and expires everything: after \<open>n\<close> rounds of
  \<open>decay(shift)\<close> with \<open>n * shift \<ge> 4\<close> no item is reported any more.
\<close>

theorem bloom_decay_expires:
  assumes inv: "bloom_inv b"
  shows "(\<forall>s < slots b. counter ((bloom_decay shift ^^ n) b) s = counter b s div 2 ^ (n * shift)) \<and>
    (4 \<le> n * shift \<longrightarrow> \<not> bloom_contains hash x ((bloom_decay shift ^^ n) b))"
proof -
  let ?b = "(bloom_decay shift ^^ n) b"
  have C: "counter ?b s = counter b s div 2 ^ (n * shift)" if "s < slots b" for s
    using that decay_iter by blast
  have "\<not> bloom_contains hash x ?b" if n: "4 \<le> n * shift"
  proof -
    from probes_nonempty [OF inv] obtain s where s: "s \<in> set (probes_in hash b x)"
      by (meson list.set_sel(1))
    have "counter b s < 2 ^ 4" using counter_le_15 [of b s] by simp
    also have "\<dots> \<le> 2 ^ (n * shift)" using n by (intro power_increasing) simp_all
    finally have "counter ?b s = 0" using C [OF probes_in_range [OF inv s]] by simp
    then show ?thesis using s decay_iter [where shift = shift and n = n and b = b] by (auto simp: bloom_contains_iff)
  qed
  with C show ?thesis by blast
qed


theorem bloom_decay_expires_witness:
  "bloom_inv (bloom_add demo_hash 3 demo_filter) \<and>
   \<not> bloom_contains demo_hash 3 ((bloom_decay 2 ^^ 2) (bloom_add demo_hash 3 demo_filter))"
proof -
  have i: "bloom_inv (bloom_add demo_hash 3 demo_filter)" by (simp add: demo_filter_inv)
  show ?thesis using i bloom_decay_expires [OF i, of 2 2 demo_hash 3] by simp
qed

end
