(* ===== verification/Ring_Queue.thy ===== *)
theory Ring_Queue
  imports Muses_Prelude "HOL-Library.Sublist"
begin

unbundle bit_operations_syntax

text \<open>
  The lock-free ring of \<open>src/muses/bounded_queue.hpp\<close> (\<open>Cell\<close>, \<open>RingImpl\<close>), one thread at a time.

  Cursors and sequence numbers are 64-bit words and wrap; the signed difference of two of them is
  undefined when it does not fit 64 bits, as the C++ subtraction of two \<open>ptrdiff_t\<close> is.  A retry
  loop takes the number of iterations it may run.  \<open>sem_\<close> is its number of permits, and releasing
  it past \<open>INT_MAX\<close> is undefined, as the precondition of \<open>std::counting_semaphore::release\<close> says.
  With one thread a compare-exchange finds the value it just loaded; interleaved threads are the
  subject of the theory \<open>Ring_Concurrent\<close>.
\<close>

section \<open>State\<close>

datatype overflow_policy = DropNew | DropOldest | Block

record 'a cell =
  cell_sequence :: u64
  cell_data :: "'a option"

record 'a ring =
  ring_policy :: overflow_policy
  ring_cells :: "'a cell list"
  ring_mask :: u64
  ring_enqueue_pos :: u64
  ring_dequeue_pos :: u64
  ring_dropped :: u64
  ring_stopped :: bool
  ring_sem :: nat

definition INT_MAX :: nat where
  "INT_MAX = 2147483647"

section \<open>Operations\<close>

fun pow2_loop :: "nat \<Rightarrow> u64 \<Rightarrow> u64 \<Rightarrow> u64 outcome" where
  "pow2_loop 0 p cap = Spinning"
| "pow2_loop (Suc fuel) p cap = (if p < cap then pow2_loop fuel (push_bit 1 p) cap else Ret p)"

definition ring_new :: "nat \<Rightarrow> u64 \<Rightarrow> overflow_policy \<Rightarrow> 'a ring outcome" where
  "ring_new fuel cap policy =
     bind_outcome (pow2_loop fuel 1 cap) (\<lambda>p. Ret
       \<lparr>ring_policy = policy,
        ring_cells = map (\<lambda>i. \<lparr>cell_sequence = of_nat i, cell_data = None\<rparr>) [0..<unat p],
        ring_mask = p - 1, ring_enqueue_pos = 0, ring_dequeue_pos = 0,
        ring_dropped = 0, ring_stopped = False, ring_sem = 0\<rparr>)"

definition ring_capacity :: "'a ring \<Rightarrow> u64" where
  "ring_capacity r = ring_mask r + 1"

definition ptrdiff :: "u64 \<Rightarrow> u64 \<Rightarrow> int outcome" where
  "ptrdiff a b =
     (let d = sint a - sint b
      in if - (2 ^ 63) \<le> d \<and> d < 2 ^ 63 then Ret d else Undefined)"

definition cell_index :: "'a ring \<Rightarrow> u64 \<Rightarrow> nat" where
  "cell_index r pos = unat (pos AND ring_mask r)"

definition sem_release :: "nat \<Rightarrow> 'a ring \<Rightarrow> 'a ring outcome" where
  "sem_release n r =
     (if ring_sem r + n \<le> INT_MAX then Ret (r\<lparr>ring_sem := ring_sem r + n\<rparr>) else Undefined)"

fun evict_one :: "nat \<Rightarrow> 'a ring \<Rightarrow> (bool \<times> 'a ring) outcome" where
  "evict_one 0 r = Spinning"
| "evict_one (Suc fuel) r =
     (let pos = ring_dequeue_pos r; i = cell_index r pos; c = ring_cells r ! i
      in bind_outcome (ptrdiff (cell_sequence c) (pos + 1)) (\<lambda>diff.
        if diff = 0 then
          Ret (True, r\<lparr>ring_dequeue_pos := pos + 1,
                       ring_cells := (ring_cells r)[i := \<lparr>cell_sequence = pos + ring_capacity r, cell_data = None\<rparr>],
                       ring_dropped := ring_dropped r + 1\<rparr>)
        else if diff < 0 then Ret (False, r)
        else evict_one fuel r))"

fun push_loop :: "nat \<Rightarrow> 'a \<Rightarrow> 'a ring \<Rightarrow> (bool \<times> 'a ring) outcome" where
  "push_loop 0 item r = Spinning"
| "push_loop (Suc fuel) item r =
     (let pos = ring_enqueue_pos r; i = cell_index r pos; c = ring_cells r ! i
      in bind_outcome (ptrdiff (cell_sequence c) pos) (\<lambda>diff.
        if diff = 0 then
          bind_outcome
            (sem_release 1 (r\<lparr>ring_enqueue_pos := pos + 1,
               ring_cells := (ring_cells r)[i := \<lparr>cell_sequence = pos + 1, cell_data = Some item\<rparr>]\<rparr>))
            (\<lambda>r'. Ret (True, r'))
        else if diff < 0 then
          (if ring_policy r = DropNew then Ret (False, r\<lparr>ring_dropped := ring_dropped r + 1\<rparr>)
           else bind_outcome (evict_one fuel r) (\<lambda>(evicted, r'). push_loop fuel item r'))
        else push_loop fuel item r))"

definition ring_push :: "nat \<Rightarrow> 'a \<Rightarrow> 'a ring \<Rightarrow> (bool \<times> 'a ring) outcome" where
  "ring_push fuel item r = (if ring_stopped r then Ret (False, r) else push_loop fuel item r)"

fun ring_try_pop :: "nat \<Rightarrow> 'a ring \<Rightarrow> ('a option \<times> 'a ring) outcome" where
  "ring_try_pop 0 r = Spinning"
| "ring_try_pop (Suc fuel) r =
     (let pos = ring_dequeue_pos r; i = cell_index r pos; c = ring_cells r ! i
      in bind_outcome (ptrdiff (cell_sequence c) (pos + 1)) (\<lambda>diff.
        if diff = 0 then
          (case cell_data c of
             None \<Rightarrow> Undefined
           | Some x \<Rightarrow>
               Ret (Some x, r\<lparr>ring_dequeue_pos := pos + 1,
                 ring_cells := (ring_cells r)[i := \<lparr>cell_sequence = pos + ring_capacity r, cell_data = None\<rparr>]\<rparr>))
        else if diff < 0 then Ret (None, r)
        else ring_try_pop fuel r))"

text \<open>
  The waiting loop of \<open>wait_pop(out, timeout)\<close>.  A thread that finds no permit times out
  (\<open>timed = True\<close>) or, in the overload without a timeout, blocks.
\<close>

fun wait_loop :: "nat \<Rightarrow> bool \<Rightarrow> 'a ring \<Rightarrow> ('a option \<times> 'a ring) outcome" where
  "wait_loop 0 timed r = Spinning"
| "wait_loop (Suc fuel) timed r =
     (if ring_stopped r then ring_try_pop fuel r
      else if ring_sem r = 0 then (if timed then ring_try_pop fuel r else Blocked)
      else bind_outcome (ring_try_pop fuel (r\<lparr>ring_sem := ring_sem r - 1\<rparr>)) (\<lambda>(got, r').
        if got \<noteq> None then Ret (got, r') else wait_loop fuel timed r'))"

definition ring_wait_pop :: "nat \<Rightarrow> bool \<Rightarrow> 'a ring \<Rightarrow> ('a option \<times> 'a ring) outcome" where
  "ring_wait_pop fuel timed r =
     bind_outcome (ring_try_pop fuel r) (\<lambda>(got, r').
       if got \<noteq> None then Ret (got, r') else wait_loop fuel timed r')"

definition ring_stop :: "'a ring \<Rightarrow> 'a ring outcome" where
  "ring_stop r = sem_release (INT_MAX div 4) (r\<lparr>ring_stopped := True\<rparr>)"

definition ring_size :: "'a ring \<Rightarrow> u64" where
  "ring_size r =
     (let enq = ring_enqueue_pos r; deq = ring_dequeue_pos r
      in if enq \<ge> deq then enq - deq else 0)"

datatype 'a ring_op = RPush 'a | RPop

fun ring_step :: "nat \<Rightarrow> 'a ring_op \<Rightarrow> 'a ring \<Rightarrow> ('a option \<times> 'a ring) outcome" where
  "ring_step fuel (RPush x) r = bind_outcome (ring_push fuel x r) (\<lambda>(ok, r'). Ret (None, r'))"
| "ring_step fuel RPop r = ring_try_pop fuel r"

text \<open>Runs a sequence of operations and collects the popped items.\<close>

fun ring_run :: "nat \<Rightarrow> 'a ring_op list \<Rightarrow> 'a ring \<Rightarrow> ('a list \<times> 'a ring) outcome" where
  "ring_run fuel [] r = Ret ([], r)"
| "ring_run fuel (x # xs) r =
     bind_outcome (ring_step fuel x r) (\<lambda>(got, r').
       bind_outcome (ring_run fuel xs r') (\<lambda>(outs, r''). Ret (case got of None \<Rightarrow> outs | Some y \<Rightarrow> y # outs, r'')))"

section \<open>Specification: a bounded list with an overflow policy\<close>

record 'a bq =
  bq_items :: "'a list"
  bq_dropped :: nat

definition spec_bq_push :: "overflow_policy \<Rightarrow> nat \<Rightarrow> 'a \<Rightarrow> 'a bq \<Rightarrow> bool \<times> 'a bq" where
  "spec_bq_push policy cap x q =
     (if length (bq_items q) < cap then (True, q\<lparr>bq_items := bq_items q @ [x]\<rparr>)
      else if policy = DropNew then (False, q\<lparr>bq_dropped := Suc (bq_dropped q)\<rparr>)
      else (True, q\<lparr>bq_items := tl (bq_items q) @ [x], bq_dropped := Suc (bq_dropped q)\<rparr>))"

definition spec_bq_pop :: "'a bq \<Rightarrow> 'a option \<times> 'a bq" where
  "spec_bq_pop q = (case bq_items q of [] \<Rightarrow> (None, q) | x # xs \<Rightarrow> (Some x, q\<lparr>bq_items := xs\<rparr>))"

fun spec_bq_run :: "overflow_policy \<Rightarrow> nat \<Rightarrow> 'a ring_op list \<Rightarrow> 'a bq \<Rightarrow> 'a list \<times> 'a bq" where
  "spec_bq_run policy cap [] q = ([], q)"
| "spec_bq_run policy cap (RPush x # ops) q = spec_bq_run policy cap ops (snd (spec_bq_push policy cap x q))"
| "spec_bq_run policy cap (RPop # ops) q =
     (case spec_bq_pop q of (got, q') \<Rightarrow>
        (case spec_bq_run policy cap ops q' of (outs, q'') \<Rightarrow>
           (case got of None \<Rightarrow> outs | Some y \<Rightarrow> y # outs, q'')))"

section \<open>Invariant and abstraction\<close>

abbreviation deq_n :: "'a ring \<Rightarrow> nat" where
  "deq_n r \<equiv> unat (ring_dequeue_pos r)"

abbreviation enq_n :: "'a ring \<Rightarrow> nat" where
  "enq_n r \<equiv> unat (ring_enqueue_pos r)"

abbreviation ncells :: "'a ring \<Rightarrow> nat" where
  "ncells r \<equiv> length (ring_cells r)"

definition cell_at :: "'a ring \<Rightarrow> nat \<Rightarrow> 'a cell" where
  "cell_at r p = ring_cells r ! (p mod ncells r)"

definition ring_geometry :: "'a ring \<Rightarrow> bool" where
  "ring_geometry r \<longleftrightarrow>
     (\<exists>n. 1 \<le> n \<and> n < 63 \<and> ncells r = 2 ^ n \<and> ring_mask r = mask n)"

definition ring_inv :: "'a ring \<Rightarrow> bool" where
  [muses_inv]: "ring_inv r \<longleftrightarrow>
     ring_geometry r \<and> deq_n r \<le> enq_n r \<and> enq_n r \<le> deq_n r + ncells r \<and>
     enq_n r + ncells r < 2 ^ 63 \<and>
     (\<forall>p. deq_n r \<le> p \<and> p < enq_n r \<longrightarrow>
        cell_sequence (cell_at r p) = of_nat (Suc p) \<and> cell_data (cell_at r p) \<noteq> None) \<and>
     (\<forall>p. enq_n r \<le> p \<and> p < deq_n r + ncells r \<longrightarrow>
        cell_sequence (cell_at r p) = of_nat p \<and> cell_data (cell_at r p) = None)"

definition ring_items :: "'a ring \<Rightarrow> 'a list" where
  [muses_abs]: "ring_items r = map (\<lambda>p. the (cell_data (cell_at r p))) [deq_n r..<enq_n r]"

definition ring_abs :: "'a ring \<Rightarrow> 'a bq" where
  [muses_abs]: "ring_abs r = \<lparr>bq_items = ring_items r, bq_dropped = unat (ring_dropped r)\<rparr>"

section \<open>Arithmetic of positions\<close>

text \<open>Two positions of a window no wider than the ring use different cells.\<close>

lemma window_mod_inj:
  fixes p q d n :: nat
  assumes "d \<le> p" "p < d + n" "d \<le> q" "q < d + n" "p mod n = q mod n"
  shows "p = q"
proof -
  have "\<lbrakk>d \<le> a; a < d + n; d \<le> b; b < d + n; a mod n = b mod n; a \<le> b\<rbrakk> \<Longrightarrow> a = b" for a b
  proof -
    assume ab: "d \<le> a" "a < d + n" "d \<le> b" "b < d + n" "a mod n = b mod n" "a \<le> b"
    then have "n dvd b - a" by (metis mod_eq_dvd_iff_nat)
    moreover have "b - a < n" using ab by linarith
    ultimately have "b - a = 0" by (meson nat_dvd_not_less neq0_conv)
    with ab show "a = b" by simp
  qed
  then show ?thesis using assms by (metis nat_le_linear)
qed

lemma unat_of_nat_pos: "n < 2 ^ 63 \<Longrightarrow> unat (of_nat n :: u64) = n"
  by (simp add: unat_of_nat)

lemma sint_of_nat_pos:
  assumes "n < 2 ^ 63"
  shows "sint (of_nat n :: u64) = int n"
proof -
  have "sint (of_nat n :: u64) = sint (word_of_int (int n) :: u64)" by simp
  also have "\<dots> = signed_take_bit 63 (int n)" by (simp only: sint_sbintrunc') simp
  also have "\<dots> = int n" using assms by (intro signed_take_bit_int_eq_self) simp_all
  finally show ?thesis .
qed

lemma ptrdiff_of_nat:
  assumes "a < 2 ^ 63" "b < 2 ^ 63"
  shows "ptrdiff (of_nat a) (of_nat b) = Ret (int a - int b)"
  using assms by (simp add: ptrdiff_def sint_of_nat_pos Let_def)

lemma cell_index_mod:
  assumes "ring_geometry r" "p < 2 ^ 63"
  shows "cell_index r (of_nat p) = p mod ncells r"
proof -
  from assms(1) obtain n where n: "ncells r = 2 ^ n" "ring_mask r = mask n"
    by (auto simp: ring_geometry_def)
  have "cell_index r (of_nat p) = unat (take_bit n (of_nat p :: u64))"
    by (simp add: cell_index_def n take_bit_eq_mask)
  also have "\<dots> = take_bit n p"
    using assms(2) by (simp add: unsigned_take_bit_eq unat_of_nat_pos)
  finally show ?thesis by (simp add: take_bit_eq_mod n)
qed

lemma ring_capacity_eq:
  assumes "ring_geometry r"
  shows "ring_capacity r = of_nat (ncells r)"
  using assms by (auto simp: ring_geometry_def ring_capacity_def mask_eq_exp_minus_1)


section \<open>The cells at the two cursors\<close>

lemma ring_invD:
  assumes "ring_inv r"
  shows "ring_geometry r" "2 \<le> ncells r" "deq_n r \<le> enq_n r" "enq_n r \<le> deq_n r + ncells r"
    "enq_n r + ncells r < 2 ^ 63" "ring_cells r \<noteq> []"
proof -
  from assms show "ring_geometry r" "deq_n r \<le> enq_n r" "enq_n r \<le> deq_n r + ncells r"
    "enq_n r + ncells r < 2 ^ 63"
    by (simp_all add: ring_inv_def)
  then obtain n where "1 \<le> n" "ncells r = 2 ^ n" by (auto simp: ring_geometry_def)
  then show "2 \<le> ncells r" using power_increasing [of 1 n "2::nat"] by simp
  then show "ring_cells r \<noteq> []" by auto
qed

lemma ring_inv_full_cell:
  "ring_inv r \<Longrightarrow> deq_n r \<le> p \<Longrightarrow> p < enq_n r \<Longrightarrow>
     cell_sequence (cell_at r p) = of_nat (Suc p) \<and> cell_data (cell_at r p) \<noteq> None"
  by (simp add: ring_inv_def)

lemma ring_inv_free_cell:
  "ring_inv r \<Longrightarrow> enq_n r \<le> p \<Longrightarrow> p < deq_n r + ncells r \<Longrightarrow>
     cell_sequence (cell_at r p) = of_nat p \<and> cell_data (cell_at r p) = None"
  by (simp add: ring_inv_def)

lemma enq_cell:
  assumes "ring_inv r"
  shows "ring_cells r ! (enq_n r mod ncells r) = cell_at r (enq_n r)"
    "cell_index r (ring_enqueue_pos r) = enq_n r mod ncells r"
  using cell_index_mod [OF ring_invD(1) [OF assms], of "enq_n r"] ring_invD(5) [OF assms]
  by (simp_all add: cell_at_def)

lemma deq_cell:
  assumes "ring_inv r"
  shows "ring_cells r ! (deq_n r mod ncells r) = cell_at r (deq_n r)"
    "cell_index r (ring_dequeue_pos r) = deq_n r mod ncells r"
  using cell_index_mod [OF ring_invD(1) [OF assms], of "deq_n r"] ring_invD(3,5) [OF assms]
  by (simp_all add: cell_at_def)

lemma diff_at_enq:
  assumes inv: "ring_inv r"
  shows "ptrdiff (cell_sequence (cell_at r (enq_n r))) (ring_enqueue_pos r) =
    Ret (if enq_n r < deq_n r + ncells r then 0 else 1 - int (ncells r))"
proof -
  have E: "ring_enqueue_pos r = of_nat (enq_n r)" by simp
  note b = ring_invD [OF inv]
  show ?thesis
  proof (cases "enq_n r < deq_n r + ncells r")
    case True
    then have "cell_sequence (cell_at r (enq_n r)) = of_nat (enq_n r)"
      using ring_inv_free_cell [OF inv] by simp
    moreover have "ptrdiff (of_nat (enq_n r)) (of_nat (enq_n r)) = Ret 0"
      using b(5) by (subst ptrdiff_of_nat) simp_all
    ultimately show ?thesis using True by simp
  next
    case False
    with b have e: "enq_n r = deq_n r + ncells r" by simp
    then have "cell_at r (enq_n r) = cell_at r (deq_n r)" by (simp add: cell_at_def)
    moreover have "cell_sequence (cell_at r (deq_n r)) = of_nat (Suc (deq_n r))"
      using ring_inv_full_cell [OF inv, of "deq_n r"] e b(6) by simp
    moreover have "ptrdiff (of_nat (Suc (deq_n r))) (of_nat (enq_n r)) = Ret (1 - int (ncells r))"
      using b e by (subst ptrdiff_of_nat) simp_all
    ultimately show ?thesis using False by simp
  qed
qed

lemma diff_at_deq:
  assumes inv: "ring_inv r"
  shows "ptrdiff (cell_sequence (cell_at r (deq_n r))) (ring_dequeue_pos r + 1) =
    Ret (if deq_n r < enq_n r then 0 else - 1)"
proof -
  have D: "ring_dequeue_pos r + 1 = of_nat (Suc (deq_n r))" by simp
  note b = ring_invD [OF inv]
  show ?thesis
  proof (cases "deq_n r < enq_n r")
    case True
    then have "cell_sequence (cell_at r (deq_n r)) = of_nat (Suc (deq_n r))"
      using ring_inv_full_cell [OF inv] by blast
    moreover have "ptrdiff (of_nat (Suc (deq_n r))) (of_nat (Suc (deq_n r))) = Ret 0"
      using b True by (subst ptrdiff_of_nat) simp_all
    ultimately show ?thesis unfolding D using True by (simp del: of_nat_Suc)
  next
    case False
    then have "cell_sequence (cell_at r (deq_n r)) = of_nat (deq_n r)"
      using ring_inv_free_cell [OF inv, of "deq_n r"] b by simp
    moreover have "ptrdiff (of_nat (deq_n r)) (of_nat (Suc (deq_n r))) = Ret (- 1)"
      using b False by (subst ptrdiff_of_nat) simp_all
    ultimately show ?thesis unfolding D using False by (simp del: of_nat_Suc)
  qed
qed

section \<open>Effect of writing a cell and moving a cursor\<close>

lemma cell_at_write:
  assumes "ring_cells r' = (ring_cells r)[q mod ncells r := c]" "ring_cells r \<noteq> []"
  shows "cell_at r' p = (if p mod ncells r = q mod ncells r then c else cell_at r p)"
  using assms by (simp add: cell_at_def nth_list_update)

lemma ring_after_push:
  assumes inv: "ring_inv r" and room: "enq_n r < deq_n r + ncells r"
    and bound: "Suc (enq_n r) + ncells r < 2 ^ 63"
    and cells: "ring_cells r' = (ring_cells r)[enq_n r mod ncells r :=
      \<lparr>cell_sequence = of_nat (Suc (enq_n r)), cell_data = Some x\<rparr>]"
    and cur: "ring_enqueue_pos r' = of_nat (Suc (enq_n r))" "ring_dequeue_pos r' = ring_dequeue_pos r"
    and msk: "ring_mask r' = ring_mask r"
  shows "ring_inv r' \<and> ring_items r' = ring_items r @ [x]"
proof -
  note b = ring_invD [OF inv]
  have E': "enq_n r' = Suc (enq_n r)" unfolding cur(1) using bound by (intro unat_of_nat_pos) simp
  have D': "deq_n r' = deq_n r" by (simp add: cur)
  have N': "ncells r' = ncells r" by (simp add: cells)
  have at: "cell_at r' p = (if p = enq_n r then
      \<lparr>cell_sequence = of_nat (Suc (enq_n r)), cell_data = Some x\<rparr> else cell_at r p)"
    if "deq_n r \<le> p" "p < deq_n r + ncells r" for p
    using cell_at_write [OF cells b(6)] b that room window_mod_inj [of "deq_n r" p "ncells r" "enq_n r"] by auto
  have "ring_geometry r'" using b(1) by (simp add: ring_geometry_def N' msk)
  moreover have "cell_sequence (cell_at r' p) = of_nat (Suc p) \<and> cell_data (cell_at r' p) \<noteq> None"
    if "deq_n r \<le> p" "p < Suc (enq_n r)" for p
    using that room ring_inv_full_cell [OF inv, of p] by (cases "p = enq_n r") (simp_all add: at)
  moreover have "cell_sequence (cell_at r' p) = of_nat p \<and> cell_data (cell_at r' p) = None"
    if "Suc (enq_n r) \<le> p" "p < deq_n r + ncells r" for p
    using that b ring_inv_free_cell [OF inv, of p] by (simp add: at)
  ultimately have I: "ring_inv r'"
    using b room bound by (simp add: ring_inv_def E' D' N')
  have "map (\<lambda>p. the (cell_data (cell_at r' p))) [deq_n r..<enq_n r] = ring_items r"
    unfolding ring_items_def using b room by (intro map_cong) (auto simp: at)
  then have "ring_items r' = ring_items r @ [x]"
    using b(3) room by (simp add: ring_items_def [of r'] E' D' at)
  with I show ?thesis by blast
qed

lemma ring_after_pop:
  assumes inv: "ring_inv r" and ne: "deq_n r < enq_n r"
    and cells: "ring_cells r' = (ring_cells r)[deq_n r mod ncells r :=
      \<lparr>cell_sequence = of_nat (deq_n r + ncells r), cell_data = None\<rparr>]"
    and cur: "ring_dequeue_pos r' = of_nat (Suc (deq_n r))" "ring_enqueue_pos r' = ring_enqueue_pos r"
    and msk: "ring_mask r' = ring_mask r"
  shows "ring_inv r' \<and> ring_items r' = tl (ring_items r)"
proof -
  note b = ring_invD [OF inv]
  have D': "deq_n r' = Suc (deq_n r)" unfolding cur(1) using b ne by (intro unat_of_nat_pos) simp
  have E': "enq_n r' = enq_n r" by (simp add: cur)
  have N': "ncells r' = ncells r" by (simp add: cells)
  have at: "cell_at r' p = cell_at r p" if "deq_n r < p" "p < deq_n r + ncells r" for p
    using cell_at_write [OF cells b(6)] b that window_mod_inj [of "deq_n r" p "ncells r" "deq_n r"] by auto
  have atD: "cell_at r' (deq_n r + ncells r) =
      \<lparr>cell_sequence = of_nat (deq_n r + ncells r), cell_data = None\<rparr>"
    using cell_at_write [OF cells b(6)] b by auto
  have "ring_geometry r'" using b(1) by (simp add: ring_geometry_def N' msk)
  moreover have "cell_sequence (cell_at r' p) = of_nat (Suc p) \<and> cell_data (cell_at r' p) \<noteq> None"
    if "Suc (deq_n r) \<le> p" "p < enq_n r" for p
    using that b ring_inv_full_cell [OF inv, of p] by (simp add: at)
  moreover have "cell_sequence (cell_at r' p) = of_nat p \<and> cell_data (cell_at r' p) = None"
    if "enq_n r \<le> p" "p < Suc (deq_n r) + ncells r" for p
    using that b ne ring_inv_free_cell [OF inv, of p]
    by (cases "p = deq_n r + ncells r") (simp_all add: at atD)
  ultimately have I: "ring_inv r'"
    using b ne by (simp add: ring_inv_def E' D' N')
  have "map (\<lambda>p. the (cell_data (cell_at r' p))) [Suc (deq_n r)..<enq_n r] =
    map (\<lambda>p. the (cell_data (cell_at r p))) [Suc (deq_n r)..<enq_n r]"
    using b by (intro map_cong) (auto simp: at)
  moreover have "ring_items r = the (cell_data (cell_at r (deq_n r))) #
    map (\<lambda>p. the (cell_data (cell_at r p))) [Suc (deq_n r)..<enq_n r]"
    using ne by (simp add: ring_items_def upt_conv_Cons)
  ultimately have "ring_items r' = tl (ring_items r)" by (simp add: ring_items_def [of r'] E' D')
  with I show ?thesis by blast
qed


section \<open>The operations implement the specification\<close>

definition same_shape :: "'a ring \<Rightarrow> 'a ring \<Rightarrow> bool" where
  "same_shape r r' \<longleftrightarrow> ring_policy r' = ring_policy r \<and> ncells r' = ncells r \<and>
     ring_stopped r' = ring_stopped r"

lemma same_shape_trans [trans]: "same_shape r r' \<Longrightarrow> same_shape r' r'' \<Longrightarrow> same_shape r r''"
  by (simp add: same_shape_def)

lemma length_ring_items: "length (ring_items r) = enq_n r - deq_n r"
  by (simp add: ring_items_def)

lemma ring_items_Cons:
  assumes "ring_inv r" "deq_n r < enq_n r"
  obtains x where "cell_data (cell_at r (deq_n r)) = Some x" "ring_items r = x # tl (ring_items r)"
proof -
  from ring_inv_full_cell [OF assms(1), of "deq_n r"] assms(2) obtain x
    where x: "cell_data (cell_at r (deq_n r)) = Some x" by auto
  with assms(2) have "ring_items r = x # tl (ring_items r)"
    by (simp add: ring_items_def upt_conv_Cons)
  with x that show ?thesis by blast
qed

lemma ring_items_empty: "ring_inv r \<Longrightarrow> \<not> deq_n r < enq_n r \<Longrightarrow> ring_items r = []"
  using ring_invD(3) [of r] by (simp add: ring_items_def)

lemma free_cell_seq:
  assumes "ring_inv r"
  shows "ring_dequeue_pos r + ring_capacity r = of_nat (deq_n r + ncells r)"
  using ring_capacity_eq [OF ring_invD(1) [OF assms]] by simp

lemma ring_try_pop_ok:
  assumes inv: "ring_inv r"
  shows "\<exists>r'. ring_try_pop (Suc fuel) r = Ret (fst (spec_bq_pop (ring_abs r)), r') \<and> ring_inv r'
    \<and> ring_abs r' = snd (spec_bq_pop (ring_abs r)) \<and> same_shape r r'
    \<and> ring_sem r' = ring_sem r \<and> enq_n r' = enq_n r"
proof (cases "deq_n r < enq_n r")
  case True
  from ring_items_Cons [OF inv True] obtain x where x: "cell_data (cell_at r (deq_n r)) = Some x"
    "ring_items r = x # tl (ring_items r)" .
  let ?r = "r\<lparr>ring_dequeue_pos := ring_dequeue_pos r + 1,
    ring_cells := (ring_cells r)[deq_n r mod ncells r :=
      \<lparr>cell_sequence = ring_dequeue_pos r + ring_capacity r, cell_data = None\<rparr>]\<rparr>"
  have "ring_inv ?r \<and> ring_items ?r = tl (ring_items r)"
    using inv True by (rule ring_after_pop) (simp_all add: free_cell_seq [OF inv])
  moreover have "ring_try_pop (Suc fuel) r = Ret (Some x, ?r)"
    using True by (simp add: deq_cell [OF inv] diff_at_deq [OF inv] x Let_def)
  moreover have "spec_bq_pop (ring_abs r) = (Some x, \<lparr>bq_items = tl (ring_items r), bq_dropped = unat (ring_dropped r)\<rparr>)"
    unfolding spec_bq_pop_def ring_abs_def bq.select_convs by (subst x(2)) simp
  ultimately show ?thesis by (auto simp: ring_abs_def same_shape_def)
next
  case False
  then have "ring_try_pop (Suc fuel) r = Ret (None, r)"
    by (simp add: deq_cell [OF inv] diff_at_deq [OF inv] Let_def)
  moreover have "spec_bq_pop (ring_abs r) = (None, ring_abs r)"
    using ring_items_empty [OF inv False] by (simp add: spec_bq_pop_def ring_abs_def)
  ultimately show ?thesis using inv by (simp add: same_shape_def)
qed

lemma evict_one_ok:
  assumes inv: "ring_inv r" and ne: "deq_n r < enq_n r"
  shows "\<exists>r'. evict_one (Suc fuel) r = Ret (True, r') \<and> ring_inv r' \<and> ring_items r' = tl (ring_items r)
    \<and> same_shape r r' \<and> ring_sem r' = ring_sem r \<and> ring_enqueue_pos r' = ring_enqueue_pos r
    \<and> ring_dropped r' = ring_dropped r + 1 \<and> deq_n r' = Suc (deq_n r)"
proof -
  let ?r = "r\<lparr>ring_dequeue_pos := ring_dequeue_pos r + 1,
    ring_cells := (ring_cells r)[deq_n r mod ncells r :=
      \<lparr>cell_sequence = ring_dequeue_pos r + ring_capacity r, cell_data = None\<rparr>],
    ring_dropped := ring_dropped r + 1\<rparr>"
  have "ring_inv ?r \<and> ring_items ?r = tl (ring_items r)"
    using inv ne by (rule ring_after_pop) (simp_all add: free_cell_seq [OF inv])
  moreover have "evict_one (Suc fuel) r = Ret (True, ?r)"
    using ne by (simp add: deq_cell [OF inv] diff_at_deq [OF inv] Let_def)
  moreover have "deq_n ?r = Suc (deq_n r)"
    using ring_invD [OF inv] ne unat_of_nat_pos [of "Suc (deq_n r)"] by (simp add: add.commute)
  ultimately show ?thesis by (auto simp: same_shape_def)
qed

lemma push_room_ok:
  assumes inv: "ring_inv r" and room: "enq_n r < deq_n r + ncells r"
    and bound: "Suc (enq_n r) + ncells r < 2 ^ 63" and sem: "ring_sem r < INT_MAX"
  shows "\<exists>r'. push_loop (Suc fuel) x r = Ret (True, r') \<and> ring_inv r' \<and> ring_items r' = ring_items r @ [x]
    \<and> same_shape r r' \<and> ring_sem r' = Suc (ring_sem r) \<and> enq_n r' = Suc (enq_n r)
    \<and> ring_dropped r' = ring_dropped r"
proof -
  let ?r = "r\<lparr>ring_enqueue_pos := ring_enqueue_pos r + 1,
    ring_cells := (ring_cells r)[enq_n r mod ncells r :=
      \<lparr>cell_sequence = ring_enqueue_pos r + 1, cell_data = Some x\<rparr>],
    ring_sem := Suc (ring_sem r)\<rparr>"
  have "ring_inv ?r \<and> ring_items ?r = ring_items r @ [x]"
    using inv room bound by (rule ring_after_push) (simp_all add: add.commute)
  moreover have "push_loop (Suc fuel) x r = Ret (True, ?r)"
    using room sem by (simp add: enq_cell [OF inv] diff_at_enq [OF inv] Let_def sem_release_def)
  moreover have "enq_n ?r = Suc (enq_n r)"
    using bound unat_of_nat_pos [of "Suc (enq_n r)"] by (simp add: add.commute)
  ultimately show ?thesis by (auto simp: same_shape_def)
qed

definition ring_budget :: "nat \<Rightarrow> 'a ring \<Rightarrow> bool" where
  "ring_budget k r \<longleftrightarrow> enq_n r + k + ncells r < 2 ^ 63 \<and> ring_sem r + k \<le> INT_MAX \<and>
     unat (ring_dropped r) + k < 2 ^ 63"

lemma unat_dropped_Suc: "unat (ring_dropped r) + 1 < 2 ^ 63 \<Longrightarrow>
    unat (ring_dropped r + 1) = Suc (unat (ring_dropped r))"
  using unat_of_nat_pos [of "Suc (unat (ring_dropped r))"] by (simp add: add.commute)

lemma ring_push_ok:
  assumes inv: "ring_inv r" and pol: "ring_policy r \<noteq> Block" and run: "\<not> ring_stopped r"
    and bud: "ring_budget (Suc k) r"
  shows "\<exists>r'. ring_push (Suc (Suc fuel)) x r =
      Ret (fst (spec_bq_push (ring_policy r) (ncells r) x (ring_abs r)), r') \<and> ring_inv r'
    \<and> ring_abs r' = snd (spec_bq_push (ring_policy r) (ncells r) x (ring_abs r)) \<and> same_shape r r'
    \<and> ring_sem r' = ring_sem r + (if fst (spec_bq_push (ring_policy r) (ncells r) x (ring_abs r)) then 1 else 0)
    \<and> ring_budget k r'"
proof (cases "enq_n r < deq_n r + ncells r")
  case True
  have b: "Suc (enq_n r) + ncells r < 2 ^ 63" "ring_sem r < INT_MAX" using bud by (simp_all add: ring_budget_def)
  from push_room_ok [OF inv True b, of "Suc fuel" x] obtain r' where r': "push_loop (Suc (Suc fuel)) x r = Ret (True, r')"
    "ring_inv r'" "ring_items r' = ring_items r @ [x]" "same_shape r r'" "ring_sem r' = Suc (ring_sem r)"
    "enq_n r' = Suc (enq_n r)" "ring_dropped r' = ring_dropped r" by blast
  have "length (ring_items r) < ncells r"
    using True ring_invD(3) [OF inv] by (simp add: length_ring_items)
  then have "spec_bq_push (ring_policy r) (ncells r) x (ring_abs r) = (True, ring_abs r')"
    by (simp add: spec_bq_push_def ring_abs_def r')
  then show ?thesis using r' run bud by (simp add: ring_push_def ring_budget_def same_shape_def)
next
  case full: False
  have n: "\<not> length (ring_items r) < ncells r" "1 - int (ncells r) < 0"
    using full ring_invD [OF inv] by (simp_all add: length_ring_items)
  have d: "unat (ring_dropped r + 1) = Suc (unat (ring_dropped r))"
    using bud by (intro unat_dropped_Suc) (simp add: ring_budget_def)
  show ?thesis
  proof (cases "ring_policy r = DropNew")
    case True
    let ?r = "r\<lparr>ring_dropped := ring_dropped r + 1\<rparr>"
    have "push_loop (Suc (Suc fuel)) x r = Ret (False, ?r)"
      using full True n by (simp add: enq_cell [OF inv] diff_at_enq [OF inv] Let_def)
    moreover have "spec_bq_push (ring_policy r) (ncells r) x (ring_abs r) = (False, ring_abs ?r)"
      using True n d by (simp add: spec_bq_push_def ring_abs_def ring_items_def cell_at_def)
    moreover have "ring_inv ?r" using inv by (simp add: ring_inv_def ring_geometry_def cell_at_def)
    ultimately show ?thesis
      using run bud d by (simp add: ring_push_def ring_budget_def same_shape_def)
  next
    case False
    have ne: "deq_n r < enq_n r" using full ring_invD [OF inv] by linarith
    from evict_one_ok [OF inv ne, of fuel] obtain r1 where r1: "evict_one (Suc fuel) r = Ret (True, r1)"
      "ring_inv r1" "ring_items r1 = tl (ring_items r)" "same_shape r r1" "ring_sem r1 = ring_sem r"
      "ring_enqueue_pos r1 = ring_enqueue_pos r" "ring_dropped r1 = ring_dropped r + 1"
      "deq_n r1 = Suc (deq_n r)" by blast
    have room: "enq_n r1 < deq_n r1 + ncells r1" "Suc (enq_n r1) + ncells r1 < 2 ^ 63" "ring_sem r1 < INT_MAX"
      using r1 full bud ring_invD(4) [OF inv] by (simp_all add: same_shape_def ring_budget_def)
    from push_room_ok [OF r1(2) room, of fuel x] obtain r2 where r2: "push_loop (Suc fuel) x r1 = Ret (True, r2)"
      "ring_inv r2" "ring_items r2 = tl (ring_items r) @ [x]" "same_shape r1 r2" "ring_sem r2 = Suc (ring_sem r)"
      "enq_n r2 = Suc (enq_n r)" "ring_dropped r2 = ring_dropped r + 1"
      unfolding r1 by blast
    have "push_loop (Suc (Suc fuel)) x r = Ret (True, r2)"
      using full False n r1(1) r2(1) by (simp add: enq_cell [OF inv] diff_at_enq [OF inv] Let_def del: evict_one.simps)
    moreover have "spec_bq_push (ring_policy r) (ncells r) x (ring_abs r) = (True, ring_abs r2)"
      using False n d r2 by (simp add: spec_bq_push_def ring_abs_def)
    moreover have "same_shape r r2" using r1(4) r2(4) by (rule same_shape_trans)
    ultimately show ?thesis
      using run bud d r2 by (simp add: ring_push_def ring_budget_def same_shape_def)
  qed
qed


lemma ring_run_ok:
  assumes "ring_inv r" "ring_policy r \<noteq> Block" "\<not> ring_stopped r" "ring_budget (length ops) r"
  shows "\<exists>r'. ring_run (Suc (Suc fuel)) ops r =
      Ret (fst (spec_bq_run (ring_policy r) (ncells r) ops (ring_abs r)), r') \<and> ring_inv r'
    \<and> ring_abs r' = snd (spec_bq_run (ring_policy r) (ncells r) ops (ring_abs r)) \<and> same_shape r r'"
  using assms
proof (induction ops arbitrary: r)
  case Nil
  then show ?case by (simp add: same_shape_def)
next
  case (Cons op ops)
  show ?case
  proof (cases op)
    case (RPush x)
    from ring_push_ok [OF Cons.prems(1-3), of "length ops" fuel x] Cons.prems(4) obtain ok r1 where r1:
      "ring_push (Suc (Suc fuel)) x r = Ret (ok, r1)" "ring_inv r1" "same_shape r r1" "ring_budget (length ops) r1"
      "ring_abs r1 = snd (spec_bq_push (ring_policy r) (ncells r) x (ring_abs r))"
      by auto
    from Cons.IH [OF r1(2)] r1 Cons.prems obtain r2 where r2:
      "ring_run (Suc (Suc fuel)) ops r1 = Ret (fst (spec_bq_run (ring_policy r) (ncells r) ops (ring_abs r1)), r2)"
      "ring_inv r2" "ring_abs r2 = snd (spec_bq_run (ring_policy r) (ncells r) ops (ring_abs r1))" "same_shape r1 r2"
      by (auto simp: same_shape_def)
    from r1(3) r2(4) have "same_shape r r2" by (rule same_shape_trans)
    then show ?thesis using RPush r1 r2 by simp
  next
    case RPop
    from ring_try_pop_ok [OF Cons.prems(1), of "Suc fuel"] obtain r1 where r1:
      "ring_try_pop (Suc (Suc fuel)) r = Ret (fst (spec_bq_pop (ring_abs r)), r1)" "ring_inv r1"
      "ring_abs r1 = snd (spec_bq_pop (ring_abs r))" "same_shape r r1" "ring_sem r1 = ring_sem r" "enq_n r1 = enq_n r"
      by blast
    have d: "unat (ring_dropped r1) = unat (ring_dropped r)"
      using arg_cong [OF r1(3), of bq_dropped] by (simp add: spec_bq_pop_def ring_abs_def split: list.splits)
    have "ring_budget (length ops) r1"
      using Cons.prems(4) r1 d by (simp add: ring_budget_def same_shape_def)
    with Cons.IH [OF r1(2)] r1 Cons.prems obtain r2 where r2:
      "ring_run (Suc (Suc fuel)) ops r1 = Ret (fst (spec_bq_run (ring_policy r) (ncells r) ops (ring_abs r1)), r2)"
      "ring_inv r2" "ring_abs r2 = snd (spec_bq_run (ring_policy r) (ncells r) ops (ring_abs r1))" "same_shape r1 r2"
      by (auto simp: same_shape_def)
    from r1(4) r2(4) have "same_shape r r2" by (rule same_shape_trans)
    moreover obtain got q' where "spec_bq_pop (ring_abs r) = (got, q')" by fastforce
    moreover obtain outs q'' where "spec_bq_run (ring_policy r) (ncells r) ops q' = (outs, q'')" by fastforce
    ultimately show ?thesis
      using RPop r1 r2 by (simp del: ring_try_pop.simps)
  qed
qed

section \<open>Construction: the capacity is rounded up to a power of two\<close>

lemma unat_pow2:
  assumes "n < 64"
  shows "unat (2 ^ n :: u64) = 2 ^ n"
proof -
  have "(2::nat) ^ n < 2 ^ LENGTH(64)" using assms by (intro power_strict_increasing) simp_all
  then have "unat (of_nat (2 ^ n) :: u64) = 2 ^ n" by (simp only: unat_of_nat mod_less)
  then show ?thesis by simp
qed

lemma pow2_loop_ok:
  assumes "i \<le> 63" "unat cap \<le> 2 ^ 63" "63 - i < fuel"
  shows "\<exists>n. i \<le> n \<and> n \<le> 63 \<and> pow2_loop fuel (2 ^ i) cap = Ret (2 ^ n) \<and> unat cap \<le> 2 ^ n
    \<and> (n = i \<or> 2 ^ n < 2 * unat cap)"
  using assms
proof (induction fuel arbitrary: i)
  case (Suc fuel)
  have u: "unat (2 ^ i :: u64) = 2 ^ i" using Suc.prems by (intro unat_pow2) simp
  show ?case
  proof (cases "(2 ^ i :: u64) < cap")
    case True
    then have lt: "2 ^ i < unat cap" by (simp add: word_less_nat_alt u)
    then have "(2::nat) ^ i < 2 ^ 63" using Suc.prems by linarith
    then have i: "Suc i \<le> 63" using power_less_imp_less_exp [of "2::nat" i 63] by simp
    have "push_bit 1 (2 ^ i :: u64) = 2 ^ Suc i" by (simp add: push_bit_eq_mult)
    moreover from Suc.IH [of "Suc i"] i Suc.prems obtain n where
      "Suc i \<le> n" "n \<le> 63" "pow2_loop fuel (2 ^ Suc i) cap = Ret (2 ^ n)" "unat cap \<le> 2 ^ n"
      "n = Suc i \<or> 2 ^ n < 2 * unat cap"
      by (metis Suc_diff_le Suc_less_eq diff_Suc_Suc)
    ultimately show ?thesis using True lt by (intro exI [of _ n]) (auto simp: mult.commute)
  next
    case False
    then have "unat cap \<le> 2 ^ i" by (simp add: word_less_nat_alt u)
    then show ?thesis using False Suc.prems by auto
  qed
qed simp

lemma pow2_half:
  assumes "(2::nat) ^ n < 2 * c" "c \<le> 2 ^ 62"
  shows "(2::nat) ^ n \<le> 2 ^ 62"
proof -
  have "(2::nat) ^ n < 2 ^ Suc 62" using assms by simp
  then have "n < Suc 62" by (rule power_less_imp_less_exp [of "2::nat", rotated]) simp
  then show ?thesis by (intro power_increasing) simp_all
qed

lemma ring_new_ok:
  assumes cap: "2 \<le> unat cap" "unat cap \<le> 2 ^ 62"
  shows "\<exists>r n. ring_new 64 cap policy = Ret r \<and> ring_inv r \<and> ring_abs r = \<lparr>bq_items = [], bq_dropped = 0\<rparr>
    \<and> ring_policy r = policy \<and> \<not> ring_stopped r \<and> ring_sem r = 0 \<and> enq_n r = 0
    \<and> ncells r = 2 ^ n \<and> unat cap \<le> 2 ^ n \<and> (2::nat) ^ n < 2 * unat cap"
proof -
  from pow2_loop_ok [of 0 cap 64] cap obtain n where n: "n \<le> 63" "pow2_loop 64 1 cap = Ret (2 ^ n)"
    "unat cap \<le> 2 ^ n" "n = 0 \<or> 2 ^ n < 2 * unat cap"
    by auto
  have n0: "1 \<le> n" using n(3) cap by (cases n) auto
  with n(4) have up: "2 ^ n < 2 * unat cap" by auto
  with cap have n2: "(2::nat) ^ n < 2 ^ 63" by simp
  then have n63: "n < 63" using power_less_imp_less_exp [of "2::nat" n 63] by simp
  have u: "unat (2 ^ n :: u64) = 2 ^ n" using n63 by (intro unat_pow2) simp
  define r :: "'a ring" where "r = \<lparr>ring_policy = policy,
    ring_cells = map (\<lambda>i. \<lparr>cell_sequence = of_nat i, cell_data = None\<rparr>) [0..<unat (2 ^ n :: u64)],
    ring_mask = 2 ^ n - 1, ring_enqueue_pos = 0, ring_dequeue_pos = 0,
    ring_dropped = 0, ring_stopped = False, ring_sem = 0\<rparr>"
  have R: "ring_new 64 cap policy = Ret r" by (simp add: ring_new_def n(2) r_def)
  have N: "ncells r = 2 ^ n" by (simp add: r_def u)
  have at: "cell_at r p = \<lparr>cell_sequence = of_nat p, cell_data = None\<rparr>" if "p < 2 ^ n" for p
    using that by (simp add: cell_at_def N) (simp add: r_def u)
  have "ring_geometry r"
    unfolding ring_geometry_def using n0 n63 N by (intro exI [of _ n]) (simp add: r_def mask_eq_exp_minus_1)
  moreover have "deq_n r = 0" "enq_n r = 0" by (simp_all add: r_def)
  ultimately have "ring_inv r"
    using n2 by (auto simp: ring_inv_def N at)
  moreover have "ring_abs r = \<lparr>bq_items = [], bq_dropped = 0\<rparr>"
    by (simp add: ring_abs_def ring_items_def r_def)
  moreover have "ring_policy r = policy \<and> \<not> ring_stopped r \<and> ring_sem r = 0 \<and> enq_n r = 0"
    by (simp add: r_def)
  ultimately show ?thesis using R N n(3) up by blast
qed


section \<open>Order and accounting\<close>

fun pushed :: "'a ring_op list \<Rightarrow> 'a list" where
  "pushed [] = []"
| "pushed (RPush x # ops) = x # pushed ops"
| "pushed (RPop # ops) = pushed ops"

lemma subseq_skip: "subseq (xs @ ys) (xs @ x # ys)"
  by (simp add: subseq_append' list_emb_Cons)

lemma spec_conservation:
  assumes "0 < cap"
  shows "subseq (fst (spec_bq_run policy cap ops q) @ bq_items (snd (spec_bq_run policy cap ops q)))
      (bq_items q @ pushed ops)
    \<and> length (fst (spec_bq_run policy cap ops q)) + length (bq_items (snd (spec_bq_run policy cap ops q)))
      + bq_dropped (snd (spec_bq_run policy cap ops q)) = length (bq_items q) + bq_dropped q + length (pushed ops)"
proof (induction ops arbitrary: q)
  case Nil
  then show ?case by simp
next
  case (Cons op ops)
  show ?case
  proof (cases op)
    case (RPush x)
    let ?q = "snd (spec_bq_push policy cap x q)"
    have "subseq (bq_items ?q @ pushed ops) (bq_items q @ x # pushed ops)"
      "length (bq_items ?q) + bq_dropped ?q = Suc (length (bq_items q) + bq_dropped q)"
      using assms by (cases "bq_items q"; auto simp: spec_bq_push_def subseq_skip)+
    with Cons.IH [of ?q] RPush show ?thesis by (auto intro: subseq_order.trans)
  next
    case RPop
    obtain got q' where p: "spec_bq_pop q = (got, q')" by fastforce
    obtain outs q'' where "spec_bq_run policy cap ops q' = (outs, q'')" by fastforce
    with Cons.IH [of q'] p RPop show ?thesis
      by (auto simp: spec_bq_pop_def split: list.splits)
  qed
qed

section \<open>Rounds of push and pop\<close>

definition rounds :: "nat \<Rightarrow> 'a \<Rightarrow> 'a ring_op list" where
  "rounds n x = concat (replicate n [RPush x, RPop])"

lemma rounds_Suc: "rounds (Suc n) x = rounds n x @ [RPush x, RPop]"
  by (simp add: rounds_def replicate_append_same [symmetric])

lemma ring_run_append:
  "ring_run fuel (xs @ ys) r = bind_outcome (ring_run fuel xs r) (\<lambda>(o1, r1).
     bind_outcome (ring_run fuel ys r1) (\<lambda>(o2, r2). Ret (o1 @ o2, r2)))"
proof (induction xs arbitrary: r)
  case Nil
  then show ?case by (cases "ring_run fuel ys r") auto
next
  case (Cons x xs)
  show ?case
  proof (cases "ring_step fuel x r")
    case (Ret p)
    obtain got r1 where p: "p = (got, r1)" by fastforce
    show ?thesis
    proof (cases "ring_run fuel xs r1")
      case (Ret q)
      obtain o1 r2 where q: "q = (o1, r2)" by fastforce
      show ?thesis
        using Ret q p \<open>ring_step fuel x r = Ret p\<close> Cons.IH [of r1]
        by (cases "ring_run fuel ys r2") (auto split: option.splits)
    qed (use p Cons.IH [of r1] \<open>ring_step fuel x r = Ret p\<close> in simp_all)
  qed simp_all
qed

lemma round_ok:
  assumes inv: "ring_inv r" and emp: "ring_items r = []" and run: "\<not> ring_stopped r"
    and bound: "Suc (enq_n r) + ncells r < 2 ^ 63" and sem: "ring_sem r < INT_MAX"
  shows "\<exists>r'. ring_run 2 [RPush x, RPop] r = Ret ([x], r') \<and> ring_inv r' \<and> ring_items r' = []
    \<and> same_shape r r' \<and> ring_sem r' = Suc (ring_sem r) \<and> enq_n r' = Suc (enq_n r)"
proof -
  have room: "enq_n r < deq_n r + ncells r"
    using emp ring_invD [OF inv] length_ring_items [of r] by simp
  from push_room_ok [OF inv room bound sem, of 1 x] obtain r1 where r1: "push_loop 2 x r = Ret (True, r1)"
    "ring_inv r1" "ring_items r1 = [x]" "same_shape r r1" "ring_sem r1 = Suc (ring_sem r)" "enq_n r1 = Suc (enq_n r)"
    using emp by (auto simp: numeral_2_eq_2)
  from ring_try_pop_ok [OF r1(2), of 1] obtain r2 where r2:
    "ring_try_pop 2 r1 = Ret (fst (spec_bq_pop (ring_abs r1)), r2)" "ring_inv r2"
    "ring_abs r2 = snd (spec_bq_pop (ring_abs r1))" "same_shape r1 r2" "ring_sem r2 = ring_sem r1" "enq_n r2 = enq_n r1"
    by (auto simp: numeral_2_eq_2)
  have "fst (spec_bq_pop (ring_abs r1)) = Some x" "ring_items r2 = []"
    using r1(3) arg_cong [OF r2(3), of bq_items] by (simp_all add: ring_abs_def spec_bq_pop_def)
  moreover from r1(4) r2(4) have "same_shape r r2" by (rule same_shape_trans)
  ultimately show ?thesis using r1 r2 run by (simp add: ring_push_def)
qed

lemma rounds_ok:
  assumes "ring_inv r" "ring_items r = []" "\<not> ring_stopped r" "enq_n r = 0" "ring_sem r = 0"
    "n \<le> INT_MAX" "ncells r \<le> 2 ^ 62"
  shows "\<exists>r'. ring_run 2 (rounds n x) r = Ret (replicate n x, r') \<and> ring_inv r' \<and> ring_items r' = []
    \<and> same_shape r r' \<and> ring_sem r' = n \<and> enq_n r' = n"
  using assms
proof (induction n)
  case 0
  then show ?case by (simp add: rounds_def same_shape_def)
next
  case (Suc n)
  then obtain r1 where r1: "ring_run 2 (rounds n x) r = Ret (replicate n x, r1)" "ring_inv r1" "ring_items r1 = []"
    "same_shape r r1" "ring_sem r1 = n" "enq_n r1 = n" by auto
  have "\<not> ring_stopped r1" "Suc (enq_n r1) + ncells r1 < 2 ^ 63" "ring_sem r1 < INT_MAX"
    using r1 Suc.prems by (simp_all add: same_shape_def INT_MAX_def)
  from round_ok [OF r1(2,3) this, of x] obtain r2 where r2: "ring_run 2 [RPush x, RPop] r1 = Ret ([x], r2)"
    "ring_inv r2" "ring_items r2 = []" "same_shape r1 r2" "ring_sem r2 = Suc n" "enq_n r2 = Suc n"
    using r1 by auto
  from r1(4) r2(4) have "same_shape r r2" by (rule same_shape_trans)
  then show ?case
    using r1(1) r2 by (simp add: rounds_Suc ring_run_append replicate_append_same del: ring_run.simps)
qed

lemma push_without_permit:
  assumes inv: "ring_inv r" and emp: "ring_items r = []" and run: "\<not> ring_stopped r"
    and sem: "ring_sem r = INT_MAX"
  shows "ring_push (Suc fuel) x r = Undefined"
proof -
  have "enq_n r < deq_n r + ncells r"
    using emp ring_invD [OF inv] length_ring_items [of r] by simp
  then show ?thesis
    using run sem by (simp add: ring_push_def enq_cell [OF inv] diff_at_enq [OF inv] Let_def sem_release_def)
qed

section \<open>Waiting with stale permits\<close>

lemma wait_loop_ok:
  assumes "ring_inv r" "ring_items r = []" "ring_sem r < fuel"
  shows "\<exists>r'. wait_loop (Suc fuel) True r = Ret (None, r') \<and> ring_inv r' \<and> ring_items r' = []"
  using assms
proof (induction fuel arbitrary: r)
  case (Suc fuel)
  have pop: "\<exists>r'. ring_try_pop (Suc fuel) r1 = Ret (None, r') \<and> ring_inv r' \<and> ring_items r' = [] \<and> ring_sem r' = ring_sem r1"
    if "ring_inv r1" "ring_items r1 = []" for r1 :: "'a ring"
    using ring_try_pop_ok [OF that(1), of fuel] that(2) by (auto simp: spec_bq_pop_def ring_abs_def)
  show ?case
  proof (cases "ring_stopped r \<or> ring_sem r = 0")
    case True
    with pop [OF Suc.prems(1,2)] show ?thesis by (auto simp del: ring_try_pop.simps)
  next
    case False
    let ?r = "r\<lparr>ring_sem := ring_sem r - 1\<rparr>"
    have "ring_inv ?r" "ring_items ?r = []"
      using Suc.prems by (simp_all add: ring_inv_def ring_geometry_def cell_at_def ring_items_def)
    from pop [OF this] obtain r1 where r1: "ring_try_pop (Suc fuel) ?r = Ret (None, r1)" "ring_inv r1"
      "ring_items r1 = []" "ring_sem r1 = ring_sem r - 1" by auto
    have "wait_loop (Suc (Suc fuel)) True r = wait_loop (Suc fuel) True r1"
      using False r1(1) by (subst wait_loop.simps(2)) (simp del: wait_loop.simps ring_try_pop.simps)
    moreover have "ring_sem r1 < fuel" using Suc.prems(3) False r1(4) by auto
    ultimately show ?thesis using Suc.IH [OF r1(2,3)] by (simp only: simp_thms)
  qed
qed simp

section \<open>The contract of a DropNew queue\<close>

text \<open>
  What a producer and a polling consumer rely on: \<open>push\<close> appends, or leaves the items alone when the queue is full or
  stopped, \<open>try_pop\<close> takes the front, and while permits are left neither is undefined.
\<close>

locale drop_new_queue =
  fixes inv :: "'q \<Rightarrow> bool" and items :: "'q \<Rightarrow> 'a list" and slots :: "'q \<Rightarrow> nat" and stopped spent :: "'q \<Rightarrow> bool"
    and push :: "'a \<Rightarrow> 'q \<Rightarrow> (bool \<times> 'q) outcome" and try_pop :: "'q \<Rightarrow> ('a option \<times> 'q) outcome"
  assumes push_law: "inv q \<Longrightarrow> push x q = Ret (ok, q') \<Longrightarrow>
      inv q' \<and> slots q' = slots q \<and> items q' = (if ok then items q @ [x] else items q)"
    and push_defined: "inv q \<Longrightarrow> \<not> spent q \<Longrightarrow> \<exists>ok q'. push x q = Ret (ok, q')"
    and push_room: "inv q \<Longrightarrow> \<not> spent q \<Longrightarrow> \<not> stopped q \<Longrightarrow> length (items q) < slots q \<Longrightarrow> \<exists>q'. push x q = Ret (True, q')"
    and pop_law: "inv q \<Longrightarrow> \<exists>q'. try_pop q = Ret (case items q of [] \<Rightarrow> None | x # xs \<Rightarrow> Some x, q') \<and>
      inv q' \<and> slots q' = slots q \<and> items q' = tl (items q)"
    and bound_law: "inv q \<Longrightarrow> length (items q) \<le> slots q"
begin

lemma pop_empty: "inv q \<Longrightarrow> items q = [] \<Longrightarrow> \<exists>q'. try_pop q = Ret (None, q') \<and> inv q' \<and> slots q' = slots q \<and> items q' = []"
  using pop_law [of q] by simp

lemma pop_front:
  "inv q \<Longrightarrow> items q = x # xs \<Longrightarrow> \<exists>q'. try_pop q = Ret (Some x, q') \<and> inv q' \<and> slots q' = slots q \<and> items q' = xs"
  using pop_law [of q] by simp

end

definition drop_ring_inv :: "'a ring \<Rightarrow> bool" where
  [muses_inv]: "drop_ring_inv r \<longleftrightarrow> ring_inv r \<and> ring_policy r = DropNew \<and> enq_n r \<le> ring_sem r \<and> ring_sem r \<le> INT_MAX \<and>
     ncells r \<le> 2 ^ 62"

definition permits_spent :: "'a ring \<Rightarrow> bool" where
  "permits_spent r \<longleftrightarrow> ring_sem r = INT_MAX"

lemma ring_push_drop:
  assumes "drop_ring_inv r"
  shows "case ring_push (Suc fuel) x r of
      Ret (ok, r') \<Rightarrow> drop_ring_inv r' \<and> ncells r' = ncells r \<and> ring_items r' = (if ok then ring_items r @ [x] else ring_items r)
    | Undefined \<Rightarrow> permits_spent r
    | _ \<Rightarrow> False"
proof (cases "ring_stopped r")
  case False
  have inv: "ring_inv r" and r: "ring_policy r = DropNew" "enq_n r \<le> ring_sem r" "ring_sem r \<le> INT_MAX" "ncells r \<le> 2 ^ 62"
    using assms by (simp_all add: drop_ring_inv_def)
  show ?thesis
  proof (cases "enq_n r < deq_n r + ncells r")
    case True
    show ?thesis
    proof (cases "ring_sem r = INT_MAX")
      case spent: True
      then have "push_loop (Suc fuel) x r = Undefined"
        using True by (simp add: enq_cell [OF inv] diff_at_enq [OF inv] Let_def sem_release_def)
      then show ?thesis using False spent by (simp add: ring_push_def permits_spent_def)
    next
      case False
      then have "Suc (enq_n r) + ncells r < 2 ^ 63" "ring_sem r < INT_MAX" using r by (simp_all add: INT_MAX_def)
      from push_room_ok [OF inv True this, of fuel x] \<open>\<not> ring_stopped r\<close> r False show ?thesis
        by (auto simp: ring_push_def drop_ring_inv_def same_shape_def simp del: push_loop.simps)
    qed
  next
    case full: False
    have "1 - int (ncells r) < 0" using full ring_invD [OF inv] by simp
    then have "push_loop (Suc fuel) x r = Ret (False, r\<lparr>ring_dropped := ring_dropped r + 1\<rparr>)"
      using full r(1) by (simp add: enq_cell [OF inv] diff_at_enq [OF inv] Let_def)
    then show ?thesis using False assms
      by (simp add: ring_push_def drop_ring_inv_def ring_inv_def ring_geometry_def cell_at_def ring_items_def)
  qed
qed (use assms in \<open>simp add: ring_push_def\<close>)

lemma ring_push_room:
  assumes "drop_ring_inv r" "\<not> permits_spent r" "\<not> ring_stopped r" "length (ring_items r) < ncells r"
  shows "\<exists>r'. ring_push (Suc fuel) x r = Ret (True, r')"
proof -
  have inv: "ring_inv r" using assms(1) by (simp add: drop_ring_inv_def)
  have "enq_n r < deq_n r + ncells r" using assms(4) ring_invD [OF inv] by (simp add: length_ring_items)
  moreover have "Suc (enq_n r) + ncells r < 2 ^ 63" "ring_sem r < INT_MAX"
    using assms(1,2) by (auto simp: drop_ring_inv_def permits_spent_def INT_MAX_def)
  ultimately show ?thesis using push_room_ok [OF inv, of fuel x] assms(3) by (auto simp: ring_push_def simp del: push_loop.simps)
qed

interpretation dr: drop_new_queue drop_ring_inv ring_items ncells ring_stopped permits_spent "ring_push 2" "ring_try_pop 2"
proof
  fix q q' :: "'a ring" and x ok
  assume inv: "drop_ring_inv q"
  note push = ring_push_drop [OF inv, where fuel = 1 and x = x]
  show "drop_ring_inv q' \<and> ncells q' = ncells q \<and> ring_items q' = (if ok then ring_items q @ [x] else ring_items q)"
    if "ring_push 2 x q = Ret (ok, q')" using push that by (simp add: numeral_2_eq_2)
  show "\<exists>ok q'. ring_push 2 x q = Ret (ok, q')" if "\<not> permits_spent q"
    using push that by (cases "ring_push 2 x q") (auto simp: numeral_2_eq_2)
  have "ring_inv q" using inv by (simp add: drop_ring_inv_def)
  show "\<exists>q'. ring_push 2 x q = Ret (True, q')" if "\<not> permits_spent q" "\<not> ring_stopped q" "length (ring_items q) < ncells q"
    using ring_push_room [OF inv that, of 1] by (simp add: numeral_2_eq_2)
  from ring_try_pop_ok [OF \<open>ring_inv q\<close>, of 1] obtain r where r: "ring_try_pop 2 q = Ret (fst (spec_bq_pop (ring_abs q)), r)" "ring_inv r"
    "ring_abs r = snd (spec_bq_pop (ring_abs q))" "same_shape q r" "ring_sem r = ring_sem q" "enq_n r = enq_n q"
    by (auto simp: numeral_2_eq_2)
  have "ring_items r = tl (ring_items q)"
    using arg_cong [OF r(3), of bq_items] by (auto simp: ring_abs_def spec_bq_pop_def split: list.splits)
  moreover have "fst (spec_bq_pop (ring_abs q)) = (case ring_items q of [] \<Rightarrow> None | x # xs \<Rightarrow> Some x)"
    by (simp add: ring_abs_def spec_bq_pop_def split: list.split)
  ultimately show "\<exists>q'. ring_try_pop 2 q = Ret (case ring_items q of [] \<Rightarrow> None | x # xs \<Rightarrow> Some x, q') \<and>
      drop_ring_inv q' \<and> ncells q' = ncells q \<and> ring_items q' = tl (ring_items q)"
    using r inv by (auto simp: drop_ring_inv_def same_shape_def)
  show "length (ring_items q) \<le> ncells q" using ring_invD [OF \<open>ring_inv q\<close>] by (simp add: length_ring_items)
qed

lemma drop_ring_new:
  assumes "2 \<le> unat cap" "unat cap \<le> 2 ^ 62"
  obtains r :: "'a ring" and n where "ring_new 64 cap DropNew = Ret r" "drop_ring_inv r" "ring_items r = []" "\<not> ring_stopped r"
    "ring_sem r = 0" "ncells r = 2 ^ n" "unat cap \<le> 2 ^ n" "(2::nat) ^ n < 2 * unat cap"
proof -
  from ring_new_ok [OF assms, of DropNew] obtain r :: "'a ring" and n where r: "ring_new 64 cap DropNew = Ret r" "ring_inv r"
    "ring_abs r = \<lparr>bq_items = [], bq_dropped = 0\<rparr>" "ring_policy r = DropNew" "\<not> ring_stopped r" "ring_sem r = 0" "enq_n r = 0"
    "ncells r = 2 ^ n" "unat cap \<le> 2 ^ n" "(2::nat) ^ n < 2 * unat cap" by blast
  have "ring_items r = []" using arg_cong [OF r(3), of bq_items] by (simp add: ring_abs_def)
  moreover have "drop_ring_inv r" using r pow2_half [OF r(10) assms(2)] by (simp add: drop_ring_inv_def)
  ultimately show ?thesis using r that by blast
qed

section \<open>Properties\<close>

text \<open>
  C7. The ring implements a bounded FIFO queue with its overflow policy: for a requested capacity
  of at least 2, every sequence of up to \<open>INT_MAX\<close> pushes and pops on a new ring returns (the
  retry loops end within two iterations), is free of undefined behaviour, and pops exactly the
  items, keeps exactly the contents and counts exactly the drops of the list specification.  The
  capacity in force is the least power of two that is at least the requested one.
\<close>

theorem ring_refines_bounded_list:
  assumes "2 \<le> unat cap" "unat cap \<le> 2 ^ 62" "policy \<noteq> Block" "length ops \<le> INT_MAX"
  shows "\<exists>r0 r n. ring_new 64 cap policy = Ret r0 \<and> ncells r0 = 2 ^ n \<and> unat cap \<le> 2 ^ n
    \<and> (2::nat) ^ n < 2 * unat cap \<and>
    ring_run 2 ops r0 = Ret (fst (spec_bq_run policy (2 ^ n) ops \<lparr>bq_items = [], bq_dropped = 0\<rparr>), r) \<and>
    ring_abs r = snd (spec_bq_run policy (2 ^ n) ops \<lparr>bq_items = [], bq_dropped = 0\<rparr>)"
proof -
  from ring_new_ok [OF assms(1,2), of policy] obtain r0 :: "'a ring" and n where r0: "ring_new 64 cap policy = Ret r0"
    "ring_inv r0" "ring_abs r0 = \<lparr>bq_items = [], bq_dropped = 0\<rparr>" "ring_policy r0 = policy"
    "\<not> ring_stopped r0" "ring_sem r0 = 0" "enq_n r0 = 0" "ncells r0 = 2 ^ n" "unat cap \<le> 2 ^ n"
    "(2::nat) ^ n < 2 * unat cap"
    by blast
  have "unat (ring_dropped r0) = 0" using arg_cong [OF r0(3), of bq_dropped] by (simp add: ring_abs_def)
  then have "ring_budget (length ops) r0"
    using r0 assms(4) pow2_half [OF r0(10) assms(2)] by (simp add: ring_budget_def INT_MAX_def)
  from ring_run_ok [OF r0(2) _ r0(5) this, of 0] r0 assms(3) show ?thesis
    by (auto simp: numeral_2_eq_2)
qed


theorem ring_refines_bounded_list_witness:
  "\<exists>r0 r n. ring_new 64 3 DropOldest = Ret r0 \<and> ncells r0 = 2 ^ n \<and> 3 \<le> (2::nat) ^ n \<and>
     ring_run 2 [RPush (1::nat), RPop, RPop] r0 = Ret ([1], r)"
proof -
  have "2 \<le> unat (3 :: u64)" "unat (3 :: u64) \<le> 2 ^ 62" "DropOldest \<noteq> Block"
    "length [RPush (1::nat), RPop, RPop] \<le> INT_MAX"
    by (simp_all add: INT_MAX_def)
  from ring_refines_bounded_list [OF this] obtain r0 :: "nat ring" and r n where
    "ring_new 64 3 DropOldest = Ret r0" "ncells r0 = 2 ^ n" "unat (3 :: u64) \<le> 2 ^ n"
    "ring_run 2 [RPush (1::nat), RPop, RPop] r0 =
       Ret (fst (spec_bq_run DropOldest (2 ^ n) [RPush 1, RPop, RPop] \<lparr>bq_items = [], bq_dropped = 0\<rparr>), r)"
    by blast
  then show ?thesis by (auto simp: spec_bq_push_def spec_bq_pop_def)
qed

lemma ring_run_new:
  assumes "2 \<le> unat cap" "unat cap \<le> 2 ^ 62" "policy \<noteq> Block" "length ops \<le> INT_MAX"
  obtains r0 r :: "'a ring" and outs where "ring_new 64 cap policy = Ret r0" "ring_run 2 ops r0 = Ret (outs, r)" "ring_inv r"
proof -
  from ring_new_ok [OF assms(1,2), of policy] obtain r0 :: "'a ring" and n where r0: "ring_new 64 cap policy = Ret r0"
    "ring_inv r0" "ring_abs r0 = \<lparr>bq_items = [], bq_dropped = 0\<rparr>" "ring_policy r0 = policy"
    "\<not> ring_stopped r0" "ring_sem r0 = 0" "enq_n r0 = 0" "ncells r0 = 2 ^ n" "(2::nat) ^ n < 2 * unat cap"
    by blast
  have "unat (ring_dropped r0) = 0" using arg_cong [OF r0(3), of bq_dropped] by (simp add: ring_abs_def)
  then have "ring_budget (length ops) r0"
    using r0 assms(2,4) pow2_half [OF r0(9) assms(2)] by (simp add: ring_budget_def INT_MAX_def)
  from ring_run_ok [OF r0(2) _ r0(5) this, of 0] r0(1,4) assms(3) that show ?thesis
    by (auto simp: numeral_2_eq_2)
qed

text \<open>
  C8. Order and accounting: in any such run the popped items followed by the items still queued
  are a subsequence of the pushed items in push order (nothing is duplicated or reordered), and
  every pushed item is popped, still queued, or counted by \<open>dropped()\<close>.
\<close>

theorem ring_order_and_accounting:
  assumes "2 \<le> unat cap" "unat cap \<le> 2 ^ 62" "policy \<noteq> Block" "length ops \<le> INT_MAX"
  shows "\<exists>r0 r outs. ring_new 64 cap policy = Ret r0 \<and> ring_run 2 ops r0 = Ret (outs, r) \<and>
    subseq (outs @ ring_items r) (pushed ops) \<and>
    length outs + length (ring_items r) + unat (ring_dropped r) = length (pushed ops) \<and>
    length (ring_items r) \<le> ncells r"
proof -
  from ring_new_ok [OF assms(1,2), of policy] obtain r0 :: "'a ring" and n where r0: "ring_new 64 cap policy = Ret r0"
    "ring_inv r0" "ring_abs r0 = \<lparr>bq_items = [], bq_dropped = 0\<rparr>" "ring_policy r0 = policy"
    "\<not> ring_stopped r0" "ring_sem r0 = 0" "enq_n r0 = 0" "ncells r0 = 2 ^ n"
    "(2::nat) ^ n < 2 * unat cap"
    by blast
  have "unat (ring_dropped r0) = 0" using arg_cong [OF r0(3), of bq_dropped] by (simp add: ring_abs_def)
  then have "ring_budget (length ops) r0"
    using r0 assms(2,4) pow2_half [OF r0(9) assms(2)] by (simp add: ring_budget_def INT_MAX_def)
  from ring_run_ok [OF r0(2) _ r0(5) this, of 0] r0 assms(3) obtain r where r:
    "ring_run 2 ops r0 = Ret (fst (spec_bq_run policy (2 ^ n) ops \<lparr>bq_items = [], bq_dropped = 0\<rparr>), r)" "ring_inv r"
    "ring_abs r = snd (spec_bq_run policy (2 ^ n) ops \<lparr>bq_items = [], bq_dropped = 0\<rparr>)"
    by (auto simp: numeral_2_eq_2)
  have "bq_items (ring_abs r) = ring_items r" "bq_dropped (ring_abs r) = unat (ring_dropped r)"
    by (simp_all add: ring_abs_def)
  moreover have "length (ring_items r) \<le> ncells r"
    using ring_invD [OF r(2)] by (simp add: length_ring_items)
  ultimately show ?thesis
    using r0(1) r spec_conservation [of "2 ^ n" policy ops "\<lparr>bq_items = [], bq_dropped = 0\<rparr>"] by auto
qed

theorem ring_order_and_accounting_witness:
  "\<exists>r0 r outs. ring_new 64 2 DropNew = Ret r0 \<and>
     ring_run 2 [RPush (1::nat), RPush 2, RPush 3, RPop] r0 = Ret (outs, r) \<and>
     length outs + length (ring_items r) + unat (ring_dropped r) = 3"
proof -
  have "2 \<le> unat (2 :: u64)" "unat (2 :: u64) \<le> 2 ^ 62" "DropNew \<noteq> Block"
    "length [RPush (1::nat), RPush 2, RPush 3, RPop] \<le> INT_MAX"
    by (simp_all add: INT_MAX_def)
  from ring_order_and_accounting [OF this] show ?thesis by auto
qed

text \<open>
  C9. The wake-up semaphore is never drained by \<open>try_pop\<close>: \<open>INT_MAX\<close> rounds of push and
  \<open>try_pop\<close> leave the queue empty with \<open>INT_MAX\<close> permits, and the next push releases the
  semaphore past its maximum, which is undefined behaviour.
\<close>

theorem ring_semaphore_overflows:
  assumes "2 \<le> unat cap" "unat cap \<le> 2 ^ 62"
  shows "\<exists>r0 r. ring_new 64 cap policy = Ret r0 \<and>
    ring_run 2 (rounds INT_MAX x) r0 = Ret (replicate INT_MAX x, r) \<and>
    ring_items r = [] \<and> ring_sem r = INT_MAX \<and> ring_push 2 y r = Undefined"
proof -
  from ring_new_ok [OF assms, of policy] obtain r0 :: "'a ring" and n where r0: "ring_new 64 cap policy = Ret r0"
    "ring_inv r0" "ring_abs r0 = \<lparr>bq_items = [], bq_dropped = 0\<rparr>"
    "\<not> ring_stopped r0" "ring_sem r0 = 0" "enq_n r0 = 0" "ncells r0 = 2 ^ n"
    "(2::nat) ^ n < 2 * unat cap"
    by blast
  have "ring_items r0 = []" using arg_cong [OF r0(3), of bq_items] by (simp add: ring_abs_def)
  from rounds_ok [OF r0(2) this r0(4,6,5), of INT_MAX x] r0(7) pow2_half [OF r0(8) assms(2)] obtain r where r:
    "ring_run 2 (rounds INT_MAX x) r0 = Ret (replicate INT_MAX x, r)" "ring_inv r" "ring_items r = []"
    "same_shape r0 r" "ring_sem r = INT_MAX"
    by auto
  moreover have "ring_push 2 y r = Undefined"
    using push_without_permit [OF r(2,3) _ r(5), of 1 y] r(4) r0(4) by (simp add: same_shape_def numeral_2_eq_2)
  ultimately show ?thesis using r0(1) by blast
qed

theorem ring_semaphore_overflows_witness:
  "\<exists>r0 r. ring_new 64 1024 DropNew = Ret r0 \<and>
     ring_run 2 (rounds INT_MAX (7::nat)) r0 = Ret (replicate INT_MAX 7, r) \<and> ring_push 2 8 r = Undefined"
proof -
  have "2 \<le> unat (1024 :: u64)" "unat (1024 :: u64) \<le> 2 ^ 62" by simp_all
  from ring_semaphore_overflows [OF this, of DropNew "7::nat" 8] show ?thesis by blast
qed

text \<open>
  C10. A ring of capacity 1 is broken: with one cell the sequence number of a full cell equals the
  next enqueue position, so a second push overwrites the unread item and reports success, and
  \<open>try_pop\<close> then spins for ever, however many iterations it is given.
\<close>

theorem ring_capacity_one_broken:
  "\<exists>r0 r1 r2. ring_new 64 1 policy = Ret r0 \<and> ring_push (Suc n) a r0 = Ret (True, r1) \<and>
     ring_push (Suc n) b r1 = Ret (True, r2) \<and> map cell_data (ring_cells r2) = [Some b] \<and>
     ring_size r2 = 2 \<and> (\<forall>fuel. ring_try_pop fuel r2 = Spinning)"
proof -
  let ?r = "\<lambda>s d e p. \<lparr>ring_policy = policy, ring_cells = [\<lparr>cell_sequence = s, cell_data = d\<rparr>],
    ring_mask = 0, ring_enqueue_pos = e, ring_dequeue_pos = 0, ring_dropped = 0, ring_stopped = False, ring_sem = p\<rparr>"
  have "pow2_loop 64 1 1 = Ret 1" using pow2_loop.simps(2) [of 63 1 1] by simp
  then have "ring_new 64 1 policy = Ret (?r 0 None 0 0)" by (simp add: ring_new_def)
  moreover have "ring_push (Suc n) a (?r 0 None 0 0) = Ret (True, ?r 1 (Some a) 1 1)"
    by (simp add: ring_push_def cell_index_def ptrdiff_def sem_release_def INT_MAX_def)
  moreover have "ring_push (Suc n) b (?r 1 (Some a) 1 1) = Ret (True, ?r 2 (Some b) 2 2)"
    by (simp add: ring_push_def cell_index_def ptrdiff_def sem_release_def INT_MAX_def)
  moreover have "ring_try_pop fuel (?r 2 (Some b) 2 2) = Spinning" for fuel
    by (induction fuel) (simp_all add: cell_index_def ptrdiff_def)
  ultimately show ?thesis
    by (intro exI [of _ "?r 0 None 0 0"] exI [of _ "?r 1 (Some a) 1 1"] exI [of _ "?r 2 (Some b) 2 2"])
      (simp add: ring_size_def)
qed

lemma wait_pop_ok:
  assumes inv: "ring_inv r" and fuel: "ring_sem r + 1 < fuel"
  shows "\<exists>r'. ring_wait_pop fuel True r = Ret (fst (spec_bq_pop (ring_abs r)), r') \<and> ring_inv r' \<and>
    ring_items r' = tl (ring_items r)"
proof -
  obtain f where f: "fuel = Suc f" "ring_sem r < f" using fuel by (cases fuel) auto
  from ring_try_pop_ok [OF inv, of f] obtain r1 where r1:
    "ring_try_pop fuel r = Ret (fst (spec_bq_pop (ring_abs r)), r1)" "ring_inv r1"
    "ring_abs r1 = snd (spec_bq_pop (ring_abs r))" "ring_sem r1 = ring_sem r"
    unfolding f(1) by blast
  have items: "ring_items r1 = tl (ring_items r)"
    using arg_cong [OF r1(3), of bq_items] by (auto simp: ring_abs_def spec_bq_pop_def split: list.splits)
  show ?thesis
  proof (cases "ring_items r")
    case Nil
    then have n: "fst (spec_bq_pop (ring_abs r)) = None" by (simp add: ring_abs_def spec_bq_pop_def)
    have "ring_items r1 = []" using items Nil by simp
    from wait_loop_ok [OF r1(2) this, of f] f r1(4) show ?thesis
      using r1(1) n Nil by (auto simp: ring_wait_pop_def simp del: wait_loop.simps)
  next
    case (Cons x xs)
    then have "fst (spec_bq_pop (ring_abs r)) = Some x" by (simp add: ring_abs_def spec_bq_pop_def)
    then show ?thesis using r1 items by (simp add: ring_wait_pop_def)
  qed
qed

lemma stopped_wait_pop_ok:
  assumes inv: "ring_inv r" and stop: "ring_stop r = Ret r1" and fuel: "1 < fuel"
  shows "\<exists>r'. ring_wait_pop fuel timed r1 = Ret (fst (spec_bq_pop (ring_abs r)), r') \<and> ring_items r' = tl (ring_items r)"
proof -
  define f where "f = fuel - 2"
  with fuel have f: "fuel = Suc (Suc f)" by arith
  have r1: "ring_stopped r1" "ring_inv r1" "ring_abs r1 = ring_abs r" "ring_items r1 = ring_items r"
    using stop inv
    by (auto simp: ring_stop_def sem_release_def ring_inv_def ring_geometry_def cell_at_def ring_items_def ring_abs_def split: if_splits)
  have items: "ring_items r' = tl (ring_items q)" if "ring_abs r' = snd (spec_bq_pop (ring_abs q))" for r' q :: "'a ring"
    using arg_cong [OF that, of bq_items] by (auto simp: ring_abs_def spec_bq_pop_def split: list.splits)
  from ring_try_pop_ok [OF r1(2), of "Suc f"] obtain r2 where r2: "ring_try_pop fuel r1 = Ret (fst (spec_bq_pop (ring_abs r)), r2)"
    "ring_inv r2" "ring_abs r2 = snd (spec_bq_pop (ring_abs r))" "same_shape r1 r2"
    unfolding f r1(3) by blast
  show ?thesis
  proof (cases "fst (spec_bq_pop (ring_abs r))")
    case (Some x)
    then show ?thesis using r2 items [OF r2(3)] by (simp add: ring_wait_pop_def)
  next
    case None
    then have e: "ring_items r = []" by (cases "ring_items r") (simp_all add: ring_abs_def spec_bq_pop_def)
    then have "ring_items r2 = []" using items [OF r2(3)] by simp
    moreover from ring_try_pop_ok [OF r2(2), of f] obtain r3 where "ring_try_pop (Suc f) r2 = Ret (fst (spec_bq_pop (ring_abs r2)), r3)"
      "ring_abs r3 = snd (spec_bq_pop (ring_abs r2))" by blast
    moreover have "ring_stopped r2" using r2(4) r1(1) by (simp add: same_shape_def)
    ultimately show ?thesis
      using r2(1) None e items [of r3 r2] f by (simp add: ring_wait_pop_def spec_bq_pop_def ring_abs_def [of r2] del: ring_try_pop.simps)
  qed
qed

text \<open>
  C11. A timed \<open>wait_pop\<close> ends in spite of stale permits: after any sequence of up to \<open>INT_MAX\<close> pushes and pops on a new
  ring with a requested capacity of at least 2 it returns the front item, or, when the ring is empty, runs at most once
  through the leftover permits and times out.  After \<open>stop\<close> the overload without a timeout returns as well, and items
  that are left are still handed out.
\<close>

theorem ring_wait_pop_terminates:
  assumes "2 \<le> unat cap" "unat cap \<le> 2 ^ 62" "policy \<noteq> Block" "length ops \<le> INT_MAX"
  shows "\<exists>r0 r outs. ring_new 64 cap policy = Ret (r0 :: 'a ring) \<and> ring_run 2 ops r0 = Ret (outs, r) \<and>
    (\<forall>fuel > ring_sem r + 1. \<exists>r'. ring_wait_pop fuel True r = Ret (fst (spec_bq_pop (ring_abs r)), r') \<and>
       ring_items r' = tl (ring_items r)) \<and>
    (\<forall>r1 timed. \<forall>fuel > 1. ring_stop r = Ret r1 \<longrightarrow> (\<exists>r'. ring_wait_pop fuel timed r1 = Ret (fst (spec_bq_pop (ring_abs r)), r') \<and>
       ring_items r' = tl (ring_items r)))"
proof -
  obtain r0 r :: "'a ring" and outs where r: "ring_new 64 cap policy = Ret r0" "ring_run 2 ops r0 = Ret (outs, r)" "ring_inv r"
    by (rule ring_run_new [OF assms])
  then show ?thesis using wait_pop_ok [OF r(3)] stopped_wait_pop_ok [OF r(3)] by blast
qed

theorem ring_wait_pop_terminates_witness:
  "\<exists>r0 r outs r'. ring_new 64 2 DropNew = Ret (r0 :: nat ring) \<and> ring_run 2 [RPush 7, RPop] r0 = Ret (outs, r) \<and>
     ring_wait_pop (ring_sem r + 2) True r = Ret (fst (spec_bq_pop (ring_abs r)), r')"
proof -
  have "2 \<le> unat (2 :: u64)" "unat (2 :: u64) \<le> 2 ^ 62" "DropNew \<noteq> Block" "length [RPush (7 :: nat), RPop] \<le> INT_MAX"
    by (simp_all add: INT_MAX_def)
  from ring_wait_pop_terminates [OF this] show ?thesis by (metis add_less_cancel_left one_less_numeral_iff semiring_norm(76))
qed

end
