(* ===== verification/Ring_Concurrent.thy ===== *)
theory Ring_Concurrent
  imports Ring_Queue
begin

text \<open>
  The lock-free ring of \<open>src/muses/bounded_queue.hpp\<close> under interleaving: any number of threads run
  \<open>push\<close>, \<open>try_pop\<close>, both overloads of \<open>wait_pop\<close> and \<open>stop\<close>, and every atomic load, store,
  compare-exchange and every access to a cell's payload is a step of its own.  The scheduler, the
  spurious failures of \<open>compare_exchange_weak\<close> and the expiry of a timed wait are nondeterministic.

  Three idealisations bound what the theory shows.  Steps interleave in one total order: executions
  that are not sequentially consistent are not considered.  The protocol is written so that this
  does not matter: the payload of a cell is written before its sequence number is stored with release
  order and read after that number was loaded with acquire order, and the cursors only move by
  compare-exchange.  Positions are natural numbers: the cursors count operations and are taken to stay
  below $2^{63}$ (the theory \<open>Ring_Queue\<close> has them as words).  The semaphore is a natural number
  without an upper bound: that a release past \<open>INT_MAX\<close> is undefined is modelled in \<open>Ring_Queue\<close> only.  \<open>log\<close> and \<open>taken\<close> are history variables
  that no step reads: the items in the order in which producers claimed their positions, and the
  positions whose item was removed, with the item.
\<close>

section \<open>State and steps\<close>

datatype wait_mode = NoWait | TimedWait | UntimedWait

datatype 'a pc =
    Idle
  | PushCheck 'a           \<comment> \<open>about to load \<open>stopped_\<close>\<close>
  | PushPos 'a             \<comment> \<open>about to load \<open>enqueue_pos_\<close>\<close>
  | PushSeq 'a nat         \<comment> \<open>about to load the sequence of the cell\<close>
  | PushCas 'a nat         \<comment> \<open>about to compare-exchange \<open>enqueue_pos_\<close>\<close>
  | PushWrite 'a nat       \<comment> \<open>claimed the position, about to emplace the item\<close>
  | PushPublish 'a nat     \<comment> \<open>about to store the sequence\<close>
  | PushSignal             \<comment> \<open>about to release the semaphore\<close>
  | EvictPos 'a
  | EvictSeq 'a nat
  | EvictCas 'a nat
  | EvictReset 'a nat      \<comment> \<open>claimed the front, about to reset the payload\<close>
  | EvictPublish 'a nat
  | EvictCount 'a          \<comment> \<open>about to bump \<open>dropped_\<close>\<close>
  | PopPos wait_mode
  | PopSeq wait_mode nat
  | PopCas wait_mode nat
  | PopTake nat            \<comment> \<open>claimed the front, about to move the item out\<close>
  | PopReset nat 'a
  | PopPublish nat 'a
  | WaitCheck wait_mode    \<comment> \<open>about to load \<open>stopped_\<close> in \<open>wait_pop\<close>\<close>
  | WaitSem wait_mode      \<comment> \<open>about to acquire the semaphore\<close>
  | StopSignal             \<comment> \<open>\<open>stop\<close> about to release the semaphore\<close>
  | RetPush bool
  | RetPop "'a option"
  | BadAccess              \<comment> \<open>an empty payload was dereferenced: undefined behaviour\<close>

record 'a shared =
  sh_policy :: overflow_policy
  sh_cap :: nat
  sh_seq :: "nat \<Rightarrow> nat"
  sh_dat :: "nat \<Rightarrow> 'a option"
  sh_enq :: nat
  sh_deq :: nat
  sh_dropped :: nat
  sh_stopped :: bool
  sh_sem :: nat
  sh_log :: "'a list"
  sh_taken :: "(nat \<times> 'a) list"

abbreviation sq :: "'a shared \<Rightarrow> nat \<Rightarrow> nat" where
  "sq s p \<equiv> sh_seq s (p mod sh_cap s)"

abbreviation dt :: "'a shared \<Rightarrow> nat \<Rightarrow> 'a option" where
  "dt s p \<equiv> sh_dat s (p mod sh_cap s)"

definition put_seq :: "nat \<Rightarrow> nat \<Rightarrow> 'a shared \<Rightarrow> 'a shared" where
  "put_seq p v s = s\<lparr>sh_seq := (sh_seq s)(p mod sh_cap s := v)\<rparr>"

definition put_dat :: "nat \<Rightarrow> 'a option \<Rightarrow> 'a shared \<Rightarrow> 'a shared" where
  "put_dat p v s = s\<lparr>sh_dat := (sh_dat s)(p mod sh_cap s := v)\<rparr>"

inductive tstep :: "'a shared \<Rightarrow> 'a pc \<Rightarrow> 'a shared \<Rightarrow> 'a pc \<Rightarrow> bool" where
  call_push: "tstep s Idle s (PushCheck x)"
| call_try_pop: "tstep s Idle s (PopPos NoWait)"
| call_wait_pop: "w \<noteq> NoWait \<Longrightarrow> tstep s Idle s (PopPos w)"
| call_stop: "tstep s Idle (s\<lparr>sh_stopped := True\<rparr>) StopSignal"
| stop_signal: "tstep s StopSignal (s\<lparr>sh_sem := sh_sem s + INT_MAX div 4\<rparr>) Idle"
| push_stopped: "sh_stopped s \<Longrightarrow> tstep s (PushCheck x) s (RetPush False)"
| push_check: "\<not> sh_stopped s \<Longrightarrow> tstep s (PushCheck x) s (PushPos x)"
| push_pos: "tstep s (PushPos x) s (PushSeq x (sh_enq s))"
| push_seq_free: "sq s p = p \<Longrightarrow> tstep s (PushSeq x p) s (PushCas x p)"
| push_seq_full_new: "sq s p < p \<Longrightarrow> sh_policy s = DropNew \<Longrightarrow>
     tstep s (PushSeq x p) (s\<lparr>sh_dropped := Suc (sh_dropped s)\<rparr>) (RetPush False)"
| push_seq_full_old: "sq s p < p \<Longrightarrow> sh_policy s \<noteq> DropNew \<Longrightarrow> tstep s (PushSeq x p) s (EvictPos x)"
| push_seq_behind: "p < sq s p \<Longrightarrow> tstep s (PushSeq x p) s (PushPos x)"
| push_cas: "sh_enq s = p \<Longrightarrow>
     tstep s (PushCas x p) (s\<lparr>sh_enq := Suc p, sh_log := sh_log s @ [x]\<rparr>) (PushWrite x p)"
| push_cas_fail: "tstep s (PushCas x p) s (PushPos x)"
| push_write: "tstep s (PushWrite x p) (put_dat p (Some x) s) (PushPublish x p)"
| push_publish: "tstep s (PushPublish x p) (put_seq p (Suc p) s) PushSignal"
| push_signal: "tstep s PushSignal (s\<lparr>sh_sem := Suc (sh_sem s)\<rparr>) (RetPush True)"
| evict_pos: "tstep s (EvictPos x) s (EvictSeq x (sh_deq s))"
| evict_seq_full: "sq s q = Suc q \<Longrightarrow> tstep s (EvictSeq x q) s (EvictCas x q)"
| evict_seq_empty: "sq s q < Suc q \<Longrightarrow> tstep s (EvictSeq x q) s (PushPos x)"
| evict_seq_behind: "Suc q < sq s q \<Longrightarrow> tstep s (EvictSeq x q) s (EvictPos x)"
| evict_cas: "sh_deq s = q \<Longrightarrow> tstep s (EvictCas x q) (s\<lparr>sh_deq := Suc q\<rparr>) (EvictReset x q)"
| evict_cas_fail: "tstep s (EvictCas x q) s (EvictPos x)"
| evict_reset: "tstep s (EvictReset x q)
     ((put_dat q None s)\<lparr>sh_taken := sh_taken s @ (case dt s q of None \<Rightarrow> [] | Some y \<Rightarrow> [(q, y)])\<rparr>)
     (EvictPublish x q)"
| evict_publish: "tstep s (EvictPublish x q) (put_seq q (q + sh_cap s) s) (EvictCount x)"
| evict_count: "tstep s (EvictCount x) (s\<lparr>sh_dropped := Suc (sh_dropped s)\<rparr>) (PushPos x)"
| pop_pos: "tstep s (PopPos w) s (PopSeq w (sh_deq s))"
| pop_seq_full: "sq s q = Suc q \<Longrightarrow> tstep s (PopSeq w q) s (PopCas w q)"
| pop_seq_empty: "sq s q < Suc q \<Longrightarrow> tstep s (PopSeq NoWait q) s (RetPop None)"
| pop_seq_wait: "sq s q < Suc q \<Longrightarrow> w \<noteq> NoWait \<Longrightarrow> tstep s (PopSeq w q) s (WaitCheck w)"
| pop_seq_behind: "Suc q < sq s q \<Longrightarrow> tstep s (PopSeq w q) s (PopPos w)"
| pop_cas: "sh_deq s = q \<Longrightarrow> tstep s (PopCas w q) (s\<lparr>sh_deq := Suc q\<rparr>) (PopTake q)"
| pop_cas_fail: "tstep s (PopCas w q) s (PopPos w)"
| pop_take: "dt s q = Some y \<Longrightarrow> tstep s (PopTake q) (s\<lparr>sh_taken := sh_taken s @ [(q, y)]\<rparr>) (PopReset q y)"
| pop_take_empty: "dt s q = None \<Longrightarrow> tstep s (PopTake q) s BadAccess"
| pop_reset: "tstep s (PopReset q y) (put_dat q None s) (PopPublish q y)"
| pop_publish: "tstep s (PopPublish q y) (put_seq q (q + sh_cap s) s) (RetPop (Some y))"
| wait_stopped: "sh_stopped s \<Longrightarrow> tstep s (WaitCheck w) s (PopPos NoWait)"
| wait_running: "\<not> sh_stopped s \<Longrightarrow> tstep s (WaitCheck w) s (WaitSem w)"
| wait_acquire: "0 < sh_sem s \<Longrightarrow> tstep s (WaitSem w) (s\<lparr>sh_sem := sh_sem s - 1\<rparr>) (PopPos w)"
| wait_timeout: "tstep s (WaitSem TimedWait) s (PopPos NoWait)"
| return_push: "tstep s (RetPush b) s Idle"
| return_pop: "tstep s (RetPop r) s Idle"

type_synonym 'a ring_sys = "'a shared \<times> (nat \<Rightarrow> 'a pc)"

inductive sys_step :: "'a ring_sys \<Rightarrow> 'a ring_sys \<Rightarrow> bool" where
  thread: "tstep s (pcs t) s' pc' \<Longrightarrow> sys_step (s, pcs) (s', pcs(t := pc'))"

definition shared_new :: "nat \<Rightarrow> overflow_policy \<Rightarrow> 'a shared" where
  "shared_new cap policy =
     \<lparr>sh_policy = policy, sh_cap = cap, sh_seq = (\<lambda>i. i), sh_dat = (\<lambda>_. None), sh_enq = 0, sh_deq = 0,
      sh_dropped = 0, sh_stopped = False, sh_sem = 0, sh_log = [], sh_taken = []\<rparr>"

inductive ring_reach :: "nat \<Rightarrow> overflow_policy \<Rightarrow> 'a ring_sys \<Rightarrow> bool" for cap policy where
  start: "ring_reach cap policy (shared_new cap policy, \<lambda>_. Idle)"
| step: "ring_reach cap policy c \<Longrightarrow> sys_step c c' \<Longrightarrow> ring_reach cap policy c'"

section \<open>Invariant\<close>

text \<open>The position a thread has claimed as a producer or as a consumer and not yet handed over.\<close>

fun producing :: "'a pc \<Rightarrow> nat option" where
  "producing (PushWrite x p) = Some p"
| "producing (PushPublish x p) = Some p"
| "producing _ = None"

fun consuming :: "'a pc \<Rightarrow> nat option" where
  "consuming (EvictReset x q) = Some q"
| "consuming (EvictPublish x q) = Some q"
| "consuming (PopTake q) = Some q"
| "consuming (PopReset q y) = Some q"
| "consuming (PopPublish q y) = Some q"
| "consuming _ = None"

text \<open>The position whose item a thread has claimed but not yet taken out.\<close>

fun untaken :: "'a pc \<Rightarrow> nat option" where
  "untaken (EvictReset x q) = Some q"
| "untaken (PopTake q) = Some q"
| "untaken _ = None"

definition prod_ok :: "'a shared \<Rightarrow> nat \<Rightarrow> 'a \<Rightarrow> bool" where
  "prod_ok s p x \<longleftrightarrow> sh_deq s \<le> p \<and> p < sh_enq s \<and> sq s p = p \<and> sh_log s ! p = x"

definition cons_ok :: "'a shared \<Rightarrow> nat \<Rightarrow> bool" where
  "cons_ok s q \<longleftrightarrow> q < sh_deq s \<and> sh_enq s \<le> q + sh_cap s \<and> sq s q = Suc q"

fun local_ok :: "'a shared \<Rightarrow> 'a pc \<Rightarrow> bool" where
  "local_ok s (PushSeq x p) \<longleftrightarrow> p \<le> sh_enq s"
| "local_ok s (PushCas x p) \<longleftrightarrow> p \<le> sh_enq s \<and> (p = sh_enq s \<longrightarrow> sq s p = p)"
| "local_ok s (PushWrite x p) \<longleftrightarrow> prod_ok s p x"
| "local_ok s (PushPublish x p) \<longleftrightarrow> prod_ok s p x \<and> dt s p = Some x"
| "local_ok s (EvictSeq x q) \<longleftrightarrow> q \<le> sh_deq s"
| "local_ok s (EvictCas x q) \<longleftrightarrow> q \<le> sh_deq s \<and> (q = sh_deq s \<longrightarrow> sq s q = Suc q)"
| "local_ok s (EvictReset x q) \<longleftrightarrow> cons_ok s q \<and> dt s q = Some (sh_log s ! q)"
| "local_ok s (EvictPublish x q) \<longleftrightarrow> cons_ok s q \<and> dt s q = None"
| "local_ok s (PopSeq w q) \<longleftrightarrow> q \<le> sh_deq s"
| "local_ok s (PopCas w q) \<longleftrightarrow> q \<le> sh_deq s \<and> (q = sh_deq s \<longrightarrow> sq s q = Suc q)"
| "local_ok s (PopTake q) \<longleftrightarrow> cons_ok s q \<and> dt s q = Some (sh_log s ! q)"
| "local_ok s (PopReset q y) \<longleftrightarrow> cons_ok s q \<and> sh_log s ! q = y"
| "local_ok s (PopPublish q y) \<longleftrightarrow> cons_ok s q \<and> sh_log s ! q = y \<and> dt s q = None"
| "local_ok s BadAccess \<longleftrightarrow> False"
| "local_ok s _ \<longleftrightarrow> True"

definition shape_ok :: "'a shared \<Rightarrow> bool" where
  "shape_ok s \<longleftrightarrow> 2 \<le> sh_cap s \<and> sh_deq s \<le> sh_enq s \<and> sh_enq s \<le> sh_deq s + sh_cap s \<and>
     length (sh_log s) = sh_enq s"

definition cells_ok :: "'a ring_sys \<Rightarrow> bool" where
  "cells_ok c \<longleftrightarrow> (case c of (s, pcs) \<Rightarrow>
     (\<forall>p. sh_deq s \<le> p \<and> p < sh_enq s \<longrightarrow>
        sq s p = Suc p \<and> dt s p = Some (sh_log s ! p) \<or> sq s p = p \<and> (\<exists>t. producing (pcs t) = Some p)) \<and>
     (\<forall>p. sh_enq s \<le> p \<and> p < sh_deq s + sh_cap s \<longrightarrow>
        sq s p = p \<and> dt s p = None \<or> (\<exists>q t. p = q + sh_cap s \<and> sq s p = Suc q \<and> consuming (pcs t) = Some q)))"

definition owners_ok :: "(nat \<Rightarrow> 'a pc) \<Rightarrow> bool" where
  "owners_ok pcs \<longleftrightarrow>
     (\<forall>t t' p. producing (pcs t) = Some p \<and> producing (pcs t') = Some p \<longrightarrow> t = t') \<and>
     (\<forall>t t' q. consuming (pcs t) = Some q \<and> consuming (pcs t') = Some q \<longrightarrow> t = t')"

definition taken_ok :: "'a ring_sys \<Rightarrow> bool" where
  "taken_ok c \<longleftrightarrow> (case c of (s, pcs) \<Rightarrow>
     distinct (map fst (sh_taken s)) \<and>
     (\<forall>(q, x) \<in> set (sh_taken s). q < sh_deq s \<and> x = sh_log s ! q) \<and>
     (\<forall>q < sh_deq s. (q \<in> fst ` set (sh_taken s)) \<noteq> (\<exists>t. untaken (pcs t) = Some q)))"

definition conc_inv :: "'a ring_sys \<Rightarrow> bool" where
  [muses_inv]: "conc_inv c \<longleftrightarrow> shape_ok (fst c) \<and> cells_ok c \<and> owners_ok (snd c) \<and> taken_ok c \<and>
     (\<forall>t. local_ok (fst c) (snd c t))"

section \<open>Steps that touch neither the cursors nor the cells\<close>

lemma conc_inv_counters [simp]:
  "conc_inv (s\<lparr>sh_dropped := n\<rparr>, pcs) = conc_inv (s, pcs)"
  "conc_inv (s\<lparr>sh_sem := n\<rparr>, pcs) = conc_inv (s, pcs)"
  "conc_inv (s\<lparr>sh_stopped := b\<rparr>, pcs) = conc_inv (s, pcs)"
proof -
  have "local_ok (s\<lparr>sh_dropped := n\<rparr>) pc = local_ok s pc" "local_ok (s\<lparr>sh_sem := n\<rparr>) pc = local_ok s pc"
    "local_ok (s\<lparr>sh_stopped := b\<rparr>) pc = local_ok s pc" for pc
    by (cases pc; simp add: prod_ok_def cons_ok_def)+
  then show "conc_inv (s\<lparr>sh_dropped := n\<rparr>, pcs) = conc_inv (s, pcs)"
    "conc_inv (s\<lparr>sh_sem := n\<rparr>, pcs) = conc_inv (s, pcs)"
    "conc_inv (s\<lparr>sh_stopped := b\<rparr>, pcs) = conc_inv (s, pcs)"
    by (simp_all add: conc_inv_def shape_ok_def cells_ok_def taken_ok_def)
qed

lemma conc_inv_local: "conc_inv (s, pcs) \<Longrightarrow> local_ok s (pcs t)"
  by (simp add: conc_inv_def)

lemma conc_inv_quiet:
  assumes "conc_inv (s, pcs)" "local_ok s pc'"
    and "producing pc' = producing (pcs t)" "consuming pc' = consuming (pcs t)" "untaken pc' = untaken (pcs t)"
  shows "conc_inv (s, pcs(t := pc'))"
proof -
  have same: "producing ((pcs(t := pc')) u) = producing (pcs u)" "consuming ((pcs(t := pc')) u) = consuming (pcs u)"
    "untaken ((pcs(t := pc')) u) = untaken (pcs u)" for u
    using assms by simp_all
  show ?thesis using assms(1,2)
    unfolding conc_inv_def cells_ok_def owners_ok_def taken_ok_def by (simp only: same prod.case fst_conv snd_conv) simp
qed

lemma producing_ok:
  "conc_inv (s, pcs) \<Longrightarrow> producing (pcs t) = Some p \<Longrightarrow>
     sh_deq s \<le> p \<and> p < sh_enq s \<and> sq s p = p"
  using conc_inv_local [of s pcs t] by (cases "pcs t") (auto simp: prod_ok_def)

lemma consuming_ok: "conc_inv (s, pcs) \<Longrightarrow> consuming (pcs t) = Some q \<Longrightarrow> cons_ok s q"
  using conc_inv_local [of s pcs t] by (cases "pcs t") auto

lemma untaken_consuming: "untaken pc = Some q \<Longrightarrow> consuming pc = Some q"
  by (cases pc) auto

lemma conc_shapeD:
  assumes "conc_inv (s, pcs)"
  shows "2 \<le> sh_cap s" "sh_deq s \<le> sh_enq s" "sh_enq s \<le> sh_deq s + sh_cap s" "length (sh_log s) = sh_enq s"
  using assms by (simp_all add: conc_inv_def shape_ok_def)

lemma live_cell:
  assumes "conc_inv (s, pcs)" "sh_deq s \<le> p" "p < sh_enq s"
  shows "sq s p = Suc p \<and> dt s p = Some (sh_log s ! p) \<or> sq s p = p \<and> (\<exists>t. producing (pcs t) = Some p)"
  using assms by (simp add: conc_inv_def cells_ok_def)

lemma free_cell:
  assumes "conc_inv (s, pcs)" "sh_enq s \<le> p" "p < sh_deq s + sh_cap s"
  shows "sq s p = p \<and> dt s p = None \<or> (\<exists>q t. p = q + sh_cap s \<and> sq s p = Suc q \<and> consuming (pcs t) = Some q)"
  using assms by (simp add: conc_inv_def cells_ok_def)

text \<open>Positions of one window of \<open>cap\<close> positions lie in different cells.\<close>

lemma window_cells:
  assumes "sh_deq s \<le> a" "a < sh_deq s + sh_cap s" "sh_deq s \<le> b" "b < sh_deq s + sh_cap s" "a \<noteq> b"
  shows "a mod sh_cap s \<noteq> b mod sh_cap s"
  using window_mod_inj [of "sh_deq s" a "sh_cap s" b] assms by blast

lemma owners_update:
  assumes "owners_ok pcs"
    and "\<And>p u. producing pc' = Some p \<Longrightarrow> u \<noteq> t \<Longrightarrow> producing (pcs u) \<noteq> Some p"
    and "\<And>q u. consuming pc' = Some q \<Longrightarrow> u \<noteq> t \<Longrightarrow> consuming (pcs u) \<noteq> Some q"
  shows "owners_ok (pcs(t := pc'))"
  using assms unfolding owners_ok_def by (metis fun_upd_apply)

lemma other_producer:
  "\<lbrakk>conc_inv (s, pcs); producing (pcs t) = Some p; producing (pcs u) = Some p\<rbrakk> \<Longrightarrow> u = t"
  by (auto simp: conc_inv_def owners_ok_def)

lemma other_consumer:
  "\<lbrakk>conc_inv (s, pcs); consuming (pcs t) = Some p; consuming (pcs u) = Some p\<rbrakk> \<Longrightarrow> u = t"
  by (auto simp: conc_inv_def owners_ok_def)

text \<open>What a step of thread \<open>t\<close> must establish, thread by thread and part by part.\<close>

lemma conc_invI:
  assumes "shape_ok s'" "cells_ok (s', pcs(t := pc'))" "owners_ok (pcs(t := pc'))" "taken_ok (s', pcs(t := pc'))"
    and "local_ok s' pc'" "\<And>u. u \<noteq> t \<Longrightarrow> local_ok s' (pcs u)"
  shows "conc_inv (s', pcs(t := pc'))"
  using assms by (simp add: conc_inv_def)

section \<open>Claiming a position\<close>

lemma claim_enq_stable:
  assumes inv: "conc_inv (s, pcs)" and free: "sq s (sh_enq s) = sh_enq s" and l: "local_ok s pc"
  shows "local_ok (s\<lparr>sh_enq := Suc (sh_enq s), sh_log := sh_log s @ [x]\<rparr>) pc"
proof -
  note sh = conc_shapeD [OF inv]
  have c: "cons_ok (s\<lparr>sh_enq := Suc (sh_enq s), sh_log := sh_log s @ [x]\<rparr>) q" "q < sh_enq s"
    if "cons_ok s q" for q
  proof -
    have "sh_enq s \<noteq> q + sh_cap s"
      using that free sh(1) by (auto simp: cons_ok_def)
    then show "cons_ok (s\<lparr>sh_enq := Suc (sh_enq s), sh_log := sh_log s @ [x]\<rparr>) q" "q < sh_enq s"
      using that sh by (auto simp: cons_ok_def)
  qed
  show ?thesis using l c sh by (cases pc) (auto simp: prod_ok_def nth_append)
qed

lemma claim_enq:
  assumes inv: "conc_inv (s, pcs)" and pc: "pcs t = PushCas x p" and e: "sh_enq s = p"
  shows "conc_inv (s\<lparr>sh_enq := Suc p, sh_log := sh_log s @ [x]\<rparr>, pcs(t := PushWrite x p))"
proof -
  let ?s = "s\<lparr>sh_enq := Suc p, sh_log := sh_log s @ [x]\<rparr>" and ?pcs = "pcs(t := PushWrite x p)"
  note sh = conc_shapeD [OF inv]
  have sqp: "sq s p = p" using conc_inv_local [OF inv, of t] pc e by simp
  have room: "p < sh_deq s + sh_cap s"
  proof (rule ccontr)
    assume "\<not> p < sh_deq s + sh_cap s"
    then have "p = sh_deq s + sh_cap s" using sh e by simp
    then show False using live_cell [OF inv, of "sh_deq s"] sqp sh e by auto
  qed
  have P: "producing (?pcs u) = Some q \<longleftrightarrow> u = t \<and> q = p \<or> producing (pcs u) = Some q" for u q
    using pc by auto
  have C: "consuming (?pcs u) = consuming (pcs u)" and U: "untaken (?pcs u) = untaken (pcs u)" for u
    using pc by auto
  show ?thesis
  proof (rule conc_invI)
    show "shape_ok ?s" using sh e room by (simp add: shape_ok_def)
    have live: "sq s q = Suc q \<and> dt s q = Some ((sh_log s @ [x]) ! q) \<or> sq s q = q \<and> (\<exists>u. producing (?pcs u) = Some q)"
      if "sh_deq s \<le> q" "q < Suc p" for q
      using live_cell [OF inv that(1)] that(2) e sh sqp by (cases "q = p") (auto simp: P nth_append simp del: fun_upd_apply)
    show "cells_ok (?s, ?pcs)"
      unfolding cells_ok_def using live free_cell [OF inv] e by (simp add: C del: fun_upd_apply)
    show "owners_ok ?pcs"
      using inv producing_ok [OF inv] e by (intro owners_update) (auto simp: conc_inv_def)
    have "q < sh_deq s \<Longrightarrow> (sh_log s @ [x]) ! q = sh_log s ! q" for q
      using sh by (simp add: nth_append)
    then show "taken_ok (?s, ?pcs)"
      using inv by (auto simp: taken_ok_def conc_inv_def U simp del: fun_upd_apply)
    show "local_ok ?s (PushWrite x p)" using sh e sqp by (simp add: prod_ok_def nth_append)
    show "local_ok ?s (pcs u)" for u
      using claim_enq_stable [OF inv, of "pcs u" x] conc_inv_local [OF inv] sqp e by simp
  qed
qed

lemma claim_deq_stable:
  assumes inv: "conc_inv (s, pcs)" and full: "sq s (sh_deq s) = Suc (sh_deq s)" and l: "local_ok s pc"
  shows "local_ok (s\<lparr>sh_deq := Suc (sh_deq s)\<rparr>) pc"
proof -
  have "p \<noteq> sh_deq s" if "prod_ok s p y" for p y using that full by (auto simp: prod_ok_def)
  then have "prod_ok (s\<lparr>sh_deq := Suc (sh_deq s)\<rparr>) p y" if "prod_ok s p y" for p y
    using that by (fastforce simp: prod_ok_def)
  then show ?thesis using l by (cases pc) (auto simp: cons_ok_def)
qed

lemma claim_deq:
  assumes inv: "conc_inv (s, pcs)" and d: "sh_deq s = q" and full: "sq s q = Suc q"
    and pc: "producing (pcs t) = None" "consuming (pcs t) = None"
    and pc': "producing pc' = None" "consuming pc' = Some q" "untaken pc' = Some q"
      "cons_ok (s\<lparr>sh_deq := Suc q\<rparr>) q \<Longrightarrow> dt s q = Some (sh_log s ! q) \<Longrightarrow> local_ok (s\<lparr>sh_deq := Suc q\<rparr>) pc'"
  shows "conc_inv (s\<lparr>sh_deq := Suc q\<rparr>, pcs(t := pc'))"
proof -
  let ?s = "s\<lparr>sh_deq := Suc q\<rparr>" and ?pcs = "pcs(t := pc')"
  note sh = conc_shapeD [OF inv]
  have ne: "q < sh_enq s"
  proof (rule ccontr)
    assume "\<not> q < sh_enq s"
    then have "q = sh_enq s" using sh d by simp
    then show False using free_cell [OF inv, of q] consuming_ok [OF inv] full sh d by (auto simp: cons_ok_def)
  qed
  have dt: "dt s q = Some (sh_log s ! q)" using live_cell [OF inv, of q] d ne full by simp
  have un: "untaken (pcs t) = None" using pc(2) untaken_consuming [of "pcs t"] by (cases "untaken (pcs t)") auto
  have P: "producing (?pcs u) = producing (pcs u)" for u using pc pc' by simp
  have C: "consuming (?pcs u) = Some r \<longleftrightarrow> u = t \<and> r = q \<or> consuming (pcs u) = Some r" for u r
    using pc pc' by auto
  have U: "untaken (?pcs u) = Some r \<longleftrightarrow> u = t \<and> r = q \<or> untaken (pcs u) = Some r" for u r
    using un pc' by auto
  have old: "r < q" if "untaken (pcs u) = Some r" for u r
    using consuming_ok [OF inv untaken_consuming [OF that]] d by (simp add: cons_ok_def)
  show ?thesis
  proof (rule conc_invI)
    show "shape_ok ?s" using sh d ne by (simp add: shape_ok_def)
    have free: "sq s p = p \<and> dt s p = None \<or>
        (\<exists>r u. p = r + sh_cap s \<and> sq s p = Suc r \<and> consuming (?pcs u) = Some r)"
      if "sh_enq s \<le> p" "p < Suc q + sh_cap s" for p
      using free_cell [OF inv that(1)] that(2) d full by (cases "p = q + sh_cap s") (auto simp: C simp del: fun_upd_apply)
    show "cells_ok (?s, ?pcs)"
      unfolding cells_ok_def using live_cell [OF inv] free d by (simp add: P del: fun_upd_apply)
    show "owners_ok ?pcs"
      using inv consuming_ok [OF inv] d pc' by (intro owners_update) (auto simp: conc_inv_def cons_ok_def)
    show "taken_ok (?s, ?pcs)"
      using inv d old by (fastforce simp: taken_ok_def conc_inv_def U less_Suc_eq simp del: fun_upd_apply)
    show "local_ok ?s pc'" using pc'(4) sh d ne dt full by (simp add: cons_ok_def)
    show "local_ok ?s (pcs u)" for u
      using claim_deq_stable [OF inv, of "pcs u"] conc_inv_local [OF inv] full d by simp
  qed
qed

section \<open>Accessing a claimed cell\<close>

lemma put_dat_simps [simp]:
  "sh_cap (put_dat p v s) = sh_cap s" "sh_seq (put_dat p v s) = sh_seq s" "sh_enq (put_dat p v s) = sh_enq s"
  "sh_deq (put_dat p v s) = sh_deq s" "sh_log (put_dat p v s) = sh_log s" "sh_taken (put_dat p v s) = sh_taken s"
  "sh_dat (put_dat p v s) = (sh_dat s)(p mod sh_cap s := v)"
  by (simp_all add: put_dat_def)

lemma put_seq_simps [simp]:
  "sh_cap (put_seq p v s) = sh_cap s" "sh_dat (put_seq p v s) = sh_dat s" "sh_enq (put_seq p v s) = sh_enq s"
  "sh_deq (put_seq p v s) = sh_deq s" "sh_log (put_seq p v s) = sh_log s" "sh_taken (put_seq p v s) = sh_taken s"
  "sh_seq (put_seq p v s) = (sh_seq s)(p mod sh_cap s := v)"
  by (simp_all add: put_seq_def)

text \<open>The cell of a position in the window belongs to no thread that holds another position.\<close>

lemma foreign_cell:
  assumes inv: "conc_inv (s, pcs)" and c: "sh_deq s \<le> c" "c < sh_deq s + sh_cap s"
  shows "producing (pcs u) = Some p \<Longrightarrow> p \<noteq> c \<Longrightarrow> p mod sh_cap s \<noteq> c mod sh_cap s"
    and "consuming (pcs u) = Some q \<Longrightarrow> q + sh_cap s \<noteq> c \<Longrightarrow> q mod sh_cap s \<noteq> c mod sh_cap s"
proof -
  note sh = conc_shapeD [OF inv]
  show "p mod sh_cap s \<noteq> c mod sh_cap s" if "producing (pcs u) = Some p" "p \<noteq> c"
    using producing_ok [OF inv that(1)] sh c that(2) by (intro window_cells) auto
  show "q mod sh_cap s \<noteq> c mod sh_cap s" if "consuming (pcs u) = Some q" "q + sh_cap s \<noteq> c"
    using consuming_ok [OF inv that(1)] sh c that(2) window_cells [of s "q + sh_cap s" c]
    by (simp add: cons_ok_def)
qed

lemma put_dat_stable:
  assumes inv: "conc_inv (s, pcs)" and c: "sh_deq s \<le> c" "c < sh_deq s + sh_cap s"
    and other: "producing (pcs u) \<noteq> Some c" "\<And>q. consuming (pcs u) = Some q \<Longrightarrow> q + sh_cap s \<noteq> c"
  shows "local_ok (put_dat c v s) (pcs u)"
  using conc_inv_local [OF inv, of u] foreign_cell [OF inv c, of u] other
  by (cases "pcs u") (auto simp: prod_ok_def cons_ok_def)

lemma put_seq_stable:
  assumes inv: "conc_inv (s, pcs)" and c: "sh_deq s \<le> c" "c < sh_deq s + sh_cap s"
    and other: "producing (pcs u) \<noteq> Some c" "\<And>q. consuming (pcs u) = Some q \<Longrightarrow> q + sh_cap s \<noteq> c"
    and tail: "sh_enq s mod sh_cap s = c mod sh_cap s \<Longrightarrow> sq s (sh_enq s) = sh_enq s \<Longrightarrow> v = sh_enq s"
    and front: "sh_deq s mod sh_cap s = c mod sh_cap s \<Longrightarrow> sq s (sh_deq s) = Suc (sh_deq s) \<Longrightarrow> v = Suc (sh_deq s)"
  shows "local_ok (put_seq c v s) (pcs u)"
  using conc_inv_local [OF inv, of u] foreign_cell [OF inv c, of u] other tail front
  by (cases "pcs u") (auto simp: prod_ok_def cons_ok_def)

lemma write_payload:
  assumes inv: "conc_inv (s, pcs)" and pc: "pcs t = PushWrite x p"
  shows "conc_inv (put_dat p (Some x) s, pcs(t := PushPublish x p))"
proof -
  let ?s = "put_dat p (Some x) s" and ?pcs = "pcs(t := PushPublish x p)"
  note sh = conc_shapeD [OF inv]
  have p: "sh_deq s \<le> p" "p < sh_enq s" "sq s p = p" "prod_ok s p x"
    using conc_inv_local [OF inv, of t] pc by (auto simp: prod_ok_def)
  have far: "r mod sh_cap s \<noteq> p mod sh_cap s" if "sh_deq s \<le> r" "r < sh_deq s + sh_cap s" "r \<noteq> p" for r
    using window_cells [of s r p] that p sh by simp
  have P: "producing (?pcs u) = producing (pcs u)" and C: "consuming (?pcs u) = consuming (pcs u)"
    and U: "untaken (?pcs u) = untaken (pcs u)" for u using pc by simp_all
  show ?thesis
  proof (rule conc_invI)
    show "shape_ok ?s" using sh by (simp add: shape_ok_def)
    have "sq s r = Suc r \<and> dt ?s r = Some (sh_log s ! r) \<or> sq s r = r \<and> (\<exists>u. producing (pcs u) = Some r)"
      if "sh_deq s \<le> r" "r < sh_enq s" for r
      using live_cell [OF inv that] far [of r] that sh p pc by (cases "r = p") (auto intro: exI [of _ t])
    moreover have "dt ?s r = dt s r" if "sh_enq s \<le> r" "r < sh_deq s + sh_cap s" for r
      using far [of r] that p sh by simp
    ultimately show "cells_ok (?s, ?pcs)"
      unfolding cells_ok_def using free_cell [OF inv] by (simp add: P C del: fun_upd_apply put_dat_simps(7))
    show "owners_ok ?pcs"
      using inv other_producer [OF inv, of t p] pc by (intro owners_update) (auto simp: conc_inv_def)
    show "taken_ok (?s, ?pcs)"
      using inv by (simp add: taken_ok_def conc_inv_def U del: fun_upd_apply)
    show "local_ok ?s (PushPublish x p)" using p by (simp add: prod_ok_def)
    show "local_ok ?s (pcs u)" if "u \<noteq> t" for u
    proof (rule put_dat_stable [OF inv p(1)])
      show "p < sh_deq s + sh_cap s" using p sh by simp
      show "producing (pcs u) \<noteq> Some p" using other_producer [OF inv, of t p u] that pc by auto
      show "q + sh_cap s \<noteq> p" if "consuming (pcs u) = Some q" for q
        using consuming_ok [OF inv that] p by (simp add: cons_ok_def)
    qed
  qed
qed

lemma publish_item:
  assumes inv: "conc_inv (s, pcs)" and pc: "pcs t = PushPublish x p"
  shows "conc_inv (put_seq p (Suc p) s, pcs(t := PushSignal))"
proof -
  let ?s = "put_seq p (Suc p) s" and ?pcs = "pcs(t := PushSignal)"
  note sh = conc_shapeD [OF inv]
  have p: "sh_deq s \<le> p" "p < sh_enq s" "sq s p = p" "dt s p = Some x" "sh_log s ! p = x"
    using conc_inv_local [OF inv, of t] pc by (auto simp: prod_ok_def)
  have far: "r mod sh_cap s \<noteq> p mod sh_cap s" if "sh_deq s \<le> r" "r < sh_deq s + sh_cap s" "r \<noteq> p" for r
    using window_cells [of s r p] that p sh by simp
  have seq': "sq ?s r = (if r = p then Suc p else sq s r)" if "sh_deq s \<le> r" "r < sh_deq s + sh_cap s" for r
    using far [OF that] by simp
  have P: "producing (?pcs u) = Some r \<longleftrightarrow> producing (pcs u) = Some r \<and> r \<noteq> p" for u r
    using pc other_producer [OF inv, of t p u] by (cases "u = t") auto
  have C: "consuming (?pcs u) = consuming (pcs u)" and U: "untaken (?pcs u) = untaken (pcs u)" for u
    using pc by simp_all
  show ?thesis
  proof (rule conc_invI)
    show "shape_ok ?s" using sh by (simp add: shape_ok_def)
    have "sq ?s r = Suc r \<and> dt s r = Some (sh_log s ! r) \<or> sq ?s r = r \<and> (\<exists>u. producing (?pcs u) = Some r)"
      if "sh_deq s \<le> r" "r < sh_enq s" for r
      using live_cell [OF inv that] seq' [of r] that sh p
      by (cases "r = p") (simp_all add: P del: fun_upd_apply put_seq_simps(7))
    moreover have "sq ?s r = sq s r" if "sh_enq s \<le> r" "r < sh_deq s + sh_cap s" for r
      using seq' [of r] that p sh by simp
    ultimately show "cells_ok (?s, ?pcs)"
      unfolding cells_ok_def using free_cell [OF inv] by (simp add: C del: fun_upd_apply put_seq_simps(7))
    show "owners_ok ?pcs" using inv by (intro owners_update) (auto simp: conc_inv_def)
    show "taken_ok (?s, ?pcs)"
      using inv by (simp add: taken_ok_def conc_inv_def U del: fun_upd_apply)
    show "local_ok ?s PushSignal" by simp
    have tail: "sq s (sh_enq s) \<noteq> sh_enq s" if "sh_enq s mod sh_cap s = p mod sh_cap s"
      using that p(2,3) by simp
    have front: "sh_deq s mod sh_cap s = p mod sh_cap s \<Longrightarrow> p = sh_deq s" using far [of "sh_deq s"] sh by auto
    show "local_ok ?s (pcs u)" if "u \<noteq> t" for u
    proof (rule put_seq_stable [OF inv p(1)])
      show "p < sh_deq s + sh_cap s" using p sh by simp
      show "producing (pcs u) \<noteq> Some p" using other_producer [OF inv, of t p u] that pc by auto
      show "q + sh_cap s \<noteq> p" if "consuming (pcs u) = Some q" for q
        using consuming_ok [OF inv that] p by (simp add: cons_ok_def)
      show "Suc p = sh_enq s" if "sh_enq s mod sh_cap s = p mod sh_cap s" "sq s (sh_enq s) = sh_enq s"
        using tail [OF that(1)] that(2) by contradiction
      show "Suc p = Suc (sh_deq s)" if "sh_deq s mod sh_cap s = p mod sh_cap s"
        using front [OF that] by (rule arg_cong)
    qed
  qed
qed

lemma release_cell:
  assumes inv: "conc_inv (s, pcs)" and pc: "consuming (pcs t) = Some q" "untaken (pcs t) = None" "dt s q = None"
    and pc': "producing pc' = None" "consuming pc' = None" "untaken pc' = None" "local_ok (put_seq q (q + sh_cap s) s) pc'"
  shows "conc_inv (put_seq q (q + sh_cap s) s, pcs(t := pc'))"
proof -
  let ?c = "q + sh_cap s" and ?pcs = "pcs(t := pc')"
  let ?s = "put_seq ?c ?c s"
  note sh = conc_shapeD [OF inv]
  have q: "q < sh_deq s" "sh_enq s \<le> ?c" "sq s q = Suc q"
    using consuming_ok [OF inv pc(1)] by (auto simp: cons_ok_def)
  have np: "producing (pcs t) = None" using pc(1) by (cases "pcs t") auto
  have seq': "sq ?s r = (if r = ?c then ?c else sq s r)" if "sh_deq s \<le> r" "r < sh_deq s + sh_cap s" for r
    using window_cells [of s r ?c] that q sh by auto
  have P: "producing (?pcs u) = producing (pcs u)" and U: "untaken (?pcs u) = untaken (pcs u)" for u
    using np pc pc' by simp_all
  have C: "consuming (?pcs u) = Some r \<longleftrightarrow> consuming (pcs u) = Some r \<and> r \<noteq> q" for u r
    using pc(1) pc'(2) other_consumer [OF inv pc(1), of u] by (cases "u = t") auto
  have "conc_inv (?s, ?pcs)"
  proof (rule conc_invI)
    show "shape_ok ?s" using sh by (simp add: shape_ok_def)
    have "sq ?s r = sq s r" if "sh_deq s \<le> r" "r < sh_enq s" for r
      using seq' [of r] that q sh by simp
    moreover have "sq ?s r = r \<and> dt s r = None \<or>
        (\<exists>k u. r = k + sh_cap s \<and> sq ?s r = Suc k \<and> consuming (?pcs u) = Some k)"
      if "sh_enq s \<le> r" "r < sh_deq s + sh_cap s" for r
      using free_cell [OF inv that] seq' [of r] that sh pc(3)
      by (cases "r = ?c") (auto simp: C simp del: fun_upd_apply put_seq_simps(7))
    ultimately show "cells_ok (?s, ?pcs)"
      unfolding cells_ok_def using live_cell [OF inv] by (simp add: P del: fun_upd_apply put_seq_simps(7))
    show "owners_ok ?pcs" using inv pc' by (intro owners_update) (auto simp: conc_inv_def)
    show "taken_ok (?s, ?pcs)"
      using inv by (simp add: taken_ok_def conc_inv_def U del: fun_upd_apply)
    show "local_ok ?s pc'" using pc'(4) by (simp add: put_seq_def)
    have tail: "?c = sh_enq s" if "sh_enq s mod sh_cap s = ?c mod sh_cap s"
      using window_mod_inj [of "sh_deq s" "sh_enq s" "sh_cap s" ?c] that q sh by linarith
    have front: "sq s (sh_deq s) \<noteq> Suc (sh_deq s)" if "sh_deq s mod sh_cap s = ?c mod sh_cap s"
      using that q by simp
    show "local_ok ?s (pcs u)" if "u \<noteq> t" for u
    proof (rule put_seq_stable [OF inv])
      show "sh_deq s \<le> ?c" "?c < sh_deq s + sh_cap s" using q sh by simp_all
      show "producing (pcs u) \<noteq> Some ?c" using producing_ok [OF inv, of u ?c] q by auto
      show "r + sh_cap s \<noteq> ?c" if "consuming (pcs u) = Some r" for r
        using other_consumer [OF inv pc(1), of u] that \<open>u \<noteq> t\<close> by auto
      show "?c = sh_enq s" if "sh_enq s mod sh_cap s = ?c mod sh_cap s" by (rule tail [OF that])
      show "?c = Suc (sh_deq s)" if "sh_deq s mod sh_cap s = ?c mod sh_cap s" "sq s (sh_deq s) = Suc (sh_deq s)"
        using front [OF that(1)] that(2) by contradiction
    qed
  qed
  then show ?thesis by (simp add: put_seq_def)
qed

lemma reset_payload:
  assumes inv: "conc_inv (s, pcs)" and pc: "consuming (pcs t) = Some q"
    and pc': "producing pc' = None" "consuming pc' = Some q" "untaken pc' = untaken (pcs t)"
      "local_ok (put_dat q None s) pc'"
  shows "conc_inv (put_dat q None s, pcs(t := pc'))"
proof -
  let ?c = "q + sh_cap s" and ?pcs = "pcs(t := pc')"
  let ?s = "put_dat ?c None s"
  note sh = conc_shapeD [OF inv]
  have q: "q < sh_deq s" "sh_enq s \<le> ?c" "sq s q = Suc q"
    using consuming_ok [OF inv pc] by (auto simp: cons_ok_def)
  have np: "producing (pcs t) = None" using pc by (cases "pcs t") auto
  have dat': "dt ?s r = (if r = ?c then None else dt s r)" if "sh_deq s \<le> r" "r < sh_deq s + sh_cap s" for r
    using window_cells [of s r ?c] that q sh by auto
  have P: "producing (?pcs u) = producing (pcs u)" and U: "untaken (?pcs u) = untaken (pcs u)"
    and C: "consuming (?pcs u) = consuming (pcs u)" for u
    using np pc pc' by simp_all
  have "conc_inv (?s, ?pcs)"
  proof (rule conc_invI)
    show "shape_ok ?s" using sh by (simp add: shape_ok_def)
    have "dt ?s r = dt s r" if "sh_deq s \<le> r" "r < sh_enq s" for r
      using dat' [of r] that q sh by simp
    moreover have "sq s r = r \<and> dt ?s r = None \<or>
        (\<exists>k u. r = k + sh_cap s \<and> sq s r = Suc k \<and> consuming (pcs u) = Some k)"
      if "sh_enq s \<le> r" "r < sh_deq s + sh_cap s" for r
      using free_cell [OF inv that] dat' [of r] that sh
      by (cases "r = ?c") (auto simp del: fun_upd_apply put_dat_simps(7))
    ultimately show "cells_ok (?s, ?pcs)"
      unfolding cells_ok_def using live_cell [OF inv] by (simp add: P C del: fun_upd_apply put_dat_simps(7))
    show "owners_ok ?pcs"
      using inv pc' other_consumer [OF inv pc] by (intro owners_update) (auto simp: conc_inv_def)
    show "taken_ok (?s, ?pcs)"
      using inv by (simp add: taken_ok_def conc_inv_def U del: fun_upd_apply)
    show "local_ok ?s pc'" using pc'(4) by (simp add: put_dat_def)
    show "local_ok ?s (pcs u)" if "u \<noteq> t" for u
    proof (rule put_dat_stable [OF inv])
      show "sh_deq s \<le> ?c" "?c < sh_deq s + sh_cap s" using q sh by simp_all
      show "producing (pcs u) \<noteq> Some ?c" using producing_ok [OF inv, of u ?c] q by auto
      show "r + sh_cap s \<noteq> ?c" if "consuming (pcs u) = Some r" for r
        using other_consumer [OF inv pc, of u] that \<open>u \<noteq> t\<close> by auto
    qed
  qed
  then show ?thesis by (simp add: put_dat_def)
qed

lemma record_taken:
  assumes inv: "conc_inv (s, pcs)" and pc: "untaken (pcs t) = Some q"
    and pc': "producing pc' = None" "consuming pc' = Some q" "untaken pc' = None" "local_ok s pc'"
  shows "conc_inv (s\<lparr>sh_taken := sh_taken s @ [(q, sh_log s ! q)]\<rparr>, pcs(t := pc'))"
proof -
  let ?s = "s\<lparr>sh_taken := sh_taken s @ [(q, sh_log s ! q)]\<rparr>" and ?pcs = "pcs(t := pc')"
  note sh = conc_shapeD [OF inv] and cq = untaken_consuming [OF pc]
  have q: "q < sh_deq s" using consuming_ok [OF inv cq] by (simp add: cons_ok_def)
  have np: "producing (pcs t) = None" using pc by (cases "pcs t") auto
  have P: "producing (?pcs u) = producing (pcs u)" and C: "consuming (?pcs u) = consuming (pcs u)" for u
    using np cq pc' by simp_all
  have U: "untaken (?pcs u) = Some r \<longleftrightarrow> untaken (pcs u) = Some r \<and> r \<noteq> q" for u r
    using pc pc' other_consumer [OF inv cq, of u] untaken_consuming [of "pcs u" q] by auto
  have l: "local_ok ?s pc = local_ok s pc" for pc
    by (cases pc) (simp_all add: prod_ok_def cons_ok_def)
  have tk: "distinct (map fst (sh_taken s))" "\<forall>(q, x) \<in> set (sh_taken s). q < sh_deq s \<and> x = sh_log s ! q"
    "\<And>r. r < sh_deq s \<Longrightarrow> (r \<in> fst ` set (sh_taken s)) \<noteq> (\<exists>t. untaken (pcs t) = Some r)"
    using inv by (simp_all add: conc_inv_def taken_ok_def)
  have fresh: "q \<notin> fst ` set (sh_taken s)" using tk(3) [OF q] pc by blast
  show ?thesis
  proof (rule conc_invI)
    show "shape_ok ?s" using sh by (simp add: shape_ok_def)
    show "cells_ok (?s, ?pcs)"
      using inv by (simp add: conc_inv_def cells_ok_def P C del: fun_upd_apply)
    show "owners_ok ?pcs"
      using inv pc' other_consumer [OF inv cq] by (intro owners_update) (auto simp: conc_inv_def)
    have "(r \<in> fst ` set (sh_taken ?s)) \<noteq> (\<exists>u. untaken (?pcs u) = Some r)" if "r < sh_deq s" for r
      using tk(3) [OF that] fresh by (cases "r = q") (simp_all add: U del: fun_upd_apply)
    then show "taken_ok (?s, ?pcs)"
      using tk(1,2) fresh q by (simp add: taken_ok_def del: fun_upd_apply)
    show "local_ok ?s pc'" "\<And>u. local_ok ?s (pcs u)" using pc'(4) conc_inv_local [OF inv] by (simp_all add: l)
  qed
qed

section \<open>The invariant holds in every reachable state\<close>

lemma evict_take:
  assumes inv: "conc_inv (s, pcs)" and pc: "pcs t = EvictReset x q"
  shows "conc_inv ((put_dat q None s)\<lparr>sh_taken := sh_taken s @ (case dt s q of None \<Rightarrow> [] | Some y \<Rightarrow> [(q, y)])\<rparr>,
     pcs(t := EvictPublish x q))"
proof -
  let ?s = "s\<lparr>sh_taken := sh_taken s @ [(q, sh_log s ! q)]\<rparr>" and ?pc = "PopReset q (sh_log s ! q)"
  have l: "cons_ok s q" "dt s q = Some (sh_log s ! q)" using conc_inv_local [OF inv, of t] pc by simp_all
  have "conc_inv (?s, pcs(t := ?pc))"
    using l pc by (intro record_taken [OF inv]) simp_all
  then have "conc_inv (put_dat q None ?s, (pcs(t := ?pc))(t := EvictPublish x q))"
    using l by (intro reset_payload) (simp_all add: cons_ok_def)
  moreover have "put_dat q None ?s =
      (put_dat q None s)\<lparr>sh_taken := sh_taken s @ (case dt s q of None \<Rightarrow> [] | Some y \<Rightarrow> [(q, y)])\<rparr>"
    using l by (simp add: put_dat_def)
  ultimately show ?thesis by simp
qed

lemma tstep_inv:
  assumes inv: "conc_inv (s, pcs)" and step: "tstep s (pcs t) s' pc'"
  shows "conc_inv (s', pcs(t := pc'))"
proof -
  note l = conc_inv_local [OF inv, of t]
  show ?thesis
    using step
  proof (cases rule: tstep.cases)
    case (push_cas p x)
    then show ?thesis using claim_enq [OF inv] by simp
  next
    case (push_write x p)
    then show ?thesis using write_payload [OF inv] by simp
  next
    case (push_publish x p)
    then show ?thesis using publish_item [OF inv] by simp
  next
    case (evict_cas q x)
    then show ?thesis using l claim_deq [OF inv, of q t "EvictReset x q"] by simp
  next
    case (pop_cas q w)
    then show ?thesis using l claim_deq [OF inv, of q t "PopTake q"] by simp
  next
    case (evict_publish x q)
    then show ?thesis using l release_cell [OF inv, of t q "EvictCount x"] by simp
  next
    case (pop_publish q y)
    then show ?thesis using l release_cell [OF inv, of t q "RetPop (Some y)"] by simp
  next
    case (pop_reset q y)
    then show ?thesis using l reset_payload [OF inv, of t q "PopPublish q y"] by (simp add: cons_ok_def)
  next
    case (pop_take q y)
    then show ?thesis using l record_taken [OF inv, of t q "PopReset q y"] by simp
  next
    case (pop_take_empty q)
    then show ?thesis using l by simp
  next
    case (evict_reset x q)
    then show ?thesis using evict_take [OF inv] by simp
  qed (use l in \<open>auto intro!: conc_inv_quiet [OF inv]\<close>)
qed

lemma conc_inv_start: "2 \<le> cap \<Longrightarrow> conc_inv (shared_new cap policy, \<lambda>_. Idle)"
  by (auto simp: shared_new_def conc_inv_def shape_ok_def cells_ok_def owners_ok_def taken_ok_def)

theorem ring_reach_inv:
  assumes "ring_reach cap policy c" "2 \<le> cap"
  shows "conc_inv c"
  using assms by induction (auto simp: conc_inv_start elim!: sys_step.cases intro: tstep_inv)

section \<open>Threads running alone\<close>

lemma reach_step:
  "\<lbrakk>ring_reach cap policy (s, pcs); pcs t = pc; tstep s pc s' pc'; pcs' = pcs(t := pc')\<rbrakk> \<Longrightarrow> ring_reach cap policy (s', pcs')"
  using ring_reach.step sys_step.thread by blast

lemma solo_push:
  assumes "ring_reach cap policy (s, \<lambda>_. Idle)" "\<not> sh_stopped s" "sq s (sh_enq s) = sh_enq s"
  shows "ring_reach cap policy (put_seq (sh_enq s) (Suc (sh_enq s)) (put_dat (sh_enq s) (Some x)
           (s\<lparr>sh_enq := Suc (sh_enq s), sh_log := sh_log s @ [x]\<rparr>))\<lparr>sh_sem := Suc (sh_sem s)\<rparr>, \<lambda>_. Idle)"
proof -
  let ?at = "\<lambda>pc. (\<lambda>_. Idle)(0 := pc)" and ?e = "sh_enq s"
  let ?s1 = "s\<lparr>sh_enq := Suc ?e, sh_log := sh_log s @ [x]\<rparr>"
  let ?s2 = "put_dat ?e (Some x) ?s1"
  let ?s3 = "put_seq ?e (Suc ?e) ?s2"
  have "ring_reach cap policy (s, ?at (PushCheck x))" by (rule reach_step [OF assms(1) _ call_push]) simp_all
  then have "ring_reach cap policy (s, ?at (PushPos x))" by (rule reach_step [OF _ _ push_check [OF assms(2)]]) auto
  then have "ring_reach cap policy (s, ?at (PushSeq x ?e))" by (rule reach_step [OF _ _ push_pos]) auto
  then have "ring_reach cap policy (s, ?at (PushCas x ?e))"
    by (rule reach_step [OF _ _ push_seq_free [OF assms(3)]]) auto
  then have "ring_reach cap policy (?s1, ?at (PushWrite x ?e))" by (rule reach_step [OF _ _ push_cas [OF refl]]) auto
  then have "ring_reach cap policy (?s2, ?at (PushPublish x ?e))" by (rule reach_step [OF _ _ push_write]) auto
  then have "ring_reach cap policy (?s3, ?at PushSignal)" by (rule reach_step [OF _ _ push_publish]) auto
  then have "ring_reach cap policy (?s3\<lparr>sh_sem := Suc (sh_sem ?s3)\<rparr>, ?at (RetPush True))"
    by (rule reach_step [OF _ _ push_signal]) auto
  then have "ring_reach cap policy (?s3\<lparr>sh_sem := Suc (sh_sem ?s3)\<rparr>, \<lambda>_. Idle)"
    by (rule reach_step [OF _ _ return_push]) auto
  then show ?thesis by (simp add: put_seq_def put_dat_def)
qed

text \<open>A thread alone runs \<open>try_pop\<close> up to the point where the item is moved out.\<close>

lemma solo_take:
  assumes "ring_reach cap policy (s, \<lambda>_. Idle)" "sq s (sh_deq s) = Suc (sh_deq s)" "dt s (sh_deq s) = Some y"
  shows "ring_reach cap policy (s\<lparr>sh_deq := Suc (sh_deq s), sh_taken := sh_taken s @ [(sh_deq s, y)]\<rparr>,
           (\<lambda>_. Idle)(0 := PopReset (sh_deq s) y))"
proof -
  let ?at = "\<lambda>pc. (\<lambda>_. Idle)(0 := pc)" and ?d = "sh_deq s"
  let ?s1 = "s\<lparr>sh_deq := Suc ?d\<rparr>"
  have d: "dt ?s1 ?d = Some y" using assms(3) by simp
  have "ring_reach cap policy (s, ?at (PopPos NoWait))" by (rule reach_step [OF assms(1) _ call_try_pop]) simp_all
  then have "ring_reach cap policy (s, ?at (PopSeq NoWait ?d))" by (rule reach_step [OF _ _ pop_pos]) auto
  then have "ring_reach cap policy (s, ?at (PopCas NoWait ?d))"
    by (rule reach_step [OF _ _ pop_seq_full [OF assms(2)]]) auto
  then have "ring_reach cap policy (?s1, ?at (PopTake ?d))" by (rule reach_step [OF _ _ pop_cas [OF refl]]) auto
  then have "ring_reach cap policy (?s1\<lparr>sh_taken := sh_taken ?s1 @ [(?d, y)]\<rparr>, ?at (PopReset ?d y))"
    by (rule reach_step [OF _ _ pop_take [OF d]]) auto
  then show ?thesis by simp
qed

text \<open>A concrete interleaving: two pushes complete and a third thread has just moved the first item out.\<close>

definition example_shared :: "nat shared" where
  "example_shared = \<lparr>sh_policy = DropOldest, sh_cap = 2, sh_seq = (\<lambda>i. i)(0 := 1, 1 := 2),
     sh_dat = (\<lambda>_. None)(0 := Some 7, 1 := Some 8), sh_enq = 2, sh_deq = 1, sh_dropped = 0,
     sh_stopped = False, sh_sem = 2, sh_log = [7, 8], sh_taken = [(0, 7)]\<rparr>"

lemma reach_example: "ring_reach 2 DropOldest (example_shared, (\<lambda>_. Idle)(0 := PopReset 0 7))"
proof -
  have "ring_reach 2 DropOldest (shared_new 2 DropOldest, \<lambda>_. Idle)" by (rule ring_reach.start)
  note one = solo_push [OF this, of "7 :: nat", simplified shared_new_def put_seq_def put_dat_def, simplified]
  note two = solo_push [OF one, of 8, simplified put_seq_def put_dat_def, simplified]
  show ?thesis using solo_take [OF two, of 7] by (simp add: example_shared_def numeral_2_eq_2)
qed

section \<open>Exclusive cells and exactly-once delivery\<close>

text \<open>The cell a thread may access without synchronisation: the one of the position it has claimed.\<close>

definition held_cell :: "'a shared \<Rightarrow> 'a pc \<Rightarrow> nat option" where
  "held_cell s pc = map_option (\<lambda>p. p mod sh_cap s) (case producing pc of None \<Rightarrow> consuming pc | Some p \<Rightarrow> Some p)"

lemma held_positions:
  assumes inv: "conc_inv (s, pcs)" and held: "held_cell s (pcs t) = Some i"
  obtains p where "i = p mod sh_cap s" "sh_deq s \<le> p" "p < sh_deq s + sh_cap s"
    "p < sh_enq s \<Longrightarrow> producing (pcs t) = Some p"
    "sh_enq s \<le> p \<Longrightarrow> \<exists>q. consuming (pcs t) = Some q \<and> p = q + sh_cap s"
proof (cases "producing (pcs t)")
  case (Some p)
  then show ?thesis
    using that [of p] held producing_ok [OF inv Some] conc_shapeD [OF inv] by (auto simp: held_cell_def)
next
  case None
  then obtain q where q: "consuming (pcs t) = Some q" "i = q mod sh_cap s"
    using held by (auto simp: held_cell_def)
  show ?thesis
    using that [of "q + sh_cap s"] q consuming_ok [OF inv q(1)] conc_shapeD [OF inv] by (auto simp: cons_ok_def)
qed

text \<open>
  C12. No data race and no undefined access, for any number of threads and any interleaving of \<open>push\<close>,
  \<open>try_pop\<close>, \<open>wait_pop\<close> and \<open>stop\<close> on a ring of at least two cells: no thread dereferences an empty
  payload, and two threads that have both claimed a position (and now write, move out, reset or
  release its cell) have claimed different cells.  Executions are sequentially consistent, and neither
  the cursors nor the semaphore's count overflow.
\<close>

theorem ring_conc_exclusive:
  assumes "ring_reach cap policy (s, pcs)" "2 \<le> cap"
  shows "pcs t \<noteq> BadAccess \<and> (t \<noteq> u \<and> held_cell s (pcs t) = Some i \<longrightarrow> held_cell s (pcs u) \<noteq> Some i)"
proof -
  have inv: "conc_inv (s, pcs)" by (rule ring_reach_inv [OF assms])
  have "pcs t \<noteq> BadAccess" using conc_inv_local [OF inv, of t] by auto
  moreover have "held_cell s (pcs u) \<noteq> Some i" if tu: "t \<noteq> u" and t: "held_cell s (pcs t) = Some i"
  proof
    assume u: "held_cell s (pcs u) = Some i"
    obtain p where p: "i = p mod sh_cap s" "sh_deq s \<le> p" "p < sh_deq s + sh_cap s"
      "p < sh_enq s \<Longrightarrow> producing (pcs t) = Some p"
      "sh_enq s \<le> p \<Longrightarrow> \<exists>q. consuming (pcs t) = Some q \<and> p = q + sh_cap s"
      by (rule held_positions [OF inv t]) blast
    obtain r where r: "i = r mod sh_cap s" "sh_deq s \<le> r" "r < sh_deq s + sh_cap s"
      "r < sh_enq s \<Longrightarrow> producing (pcs u) = Some r"
      "sh_enq s \<le> r \<Longrightarrow> \<exists>q. consuming (pcs u) = Some q \<and> r = q + sh_cap s"
      by (rule held_positions [OF inv u]) blast
    have "p = r" using window_mod_inj [of "sh_deq s" p "sh_cap s" r] p(1-3) r(1-3) by simp
    then show False
      using tu p(4,5) r(4,5) other_producer [OF inv, of t p u] other_consumer [OF inv, of t _ u]
      by (cases "p < sh_enq s") fastforce+
  qed
  ultimately show ?thesis by blast
qed

theorem ring_conc_exclusive_witness:
  "held_cell example_shared (PopReset 0 7) = Some 0 \<and> held_cell example_shared (((\<lambda>_. Idle)(0 := PopReset 0 7)) (1 :: nat)) \<noteq> Some 0"
  using ring_conc_exclusive [OF reach_example, of 0 1 0] by (simp add: held_cell_def example_shared_def)

lemma mset_by_position:
  assumes "distinct (map fst ps)" "\<forall>(q, x) \<in> set ps. q < d \<and> x = xs ! q" "\<forall>q < d. q \<in> fst ` set ps" "d \<le> length xs"
  shows "mset xs = mset (map snd ps) + mset (drop d xs)"
proof -
  have "mset (map fst ps) = mset [0..<d]"
    using assms by (intro set_eq_iff_mset_eq_distinct [THEN iffD1]) (auto simp: image_iff)
  then have "mset (map ((!) xs) (map fst ps)) = mset (map ((!) xs) [0..<d])" by (metis mset_map)
  moreover have "map ((!) xs) (map fst ps) = map snd ps" using assms(2) by auto
  moreover have "map ((!) xs) [0..<d] = take d xs" using assms(4) by (intro nth_equalityI) auto
  ultimately show ?thesis by (metis append_take_drop_id mset_append)
qed

lemma conc_takenD:
  assumes "conc_inv (s, pcs)"
  shows "distinct (map fst (sh_taken s))" "\<forall>(q, x) \<in> set (sh_taken s). q < sh_deq s \<and> x = sh_log s ! q"
    "q < sh_deq s \<Longrightarrow> (q \<in> fst ` set (sh_taken s)) \<noteq> (\<exists>t. untaken (pcs t) = Some q)"
  using assms by (simp_all add: conc_inv_def taken_ok_def)

text \<open>
  C13. Exactly-once delivery in claim order, under every interleaving: a position is taken out at most
  once, the item taken out of position \<open>q\<close> is the \<open>q\<close>-th item whose producer claimed a position, only
  positions before the dequeue cursor are taken, and at most \<open>cap\<close> positions are outstanding.
  When every thread is idle nothing is lost or duplicated: the pushed items are exactly the items taken
  out (popped or evicted) and the items in the ring, which are the youngest pushed ones, in order.  The idealisations are those of C12.
\<close>

theorem ring_conc_exactly_once:
  assumes "ring_reach cap policy (s, pcs)" "2 \<le> cap"
  shows "distinct (map fst (sh_taken s))
    \<and> (\<forall>(q, x) \<in> set (sh_taken s). q < sh_deq s \<and> x = sh_log s ! q)
    \<and> length (sh_log s) = sh_enq s \<and> sh_deq s \<le> sh_enq s \<and> sh_enq s \<le> sh_deq s + sh_cap s
    \<and> ((\<forall>t. pcs t = Idle) \<longrightarrow>
         mset (sh_log s) = mset (map snd (sh_taken s)) + mset (drop (sh_deq s) (sh_log s)) \<and>
         map (dt s) [sh_deq s..<sh_enq s] = map Some (drop (sh_deq s) (sh_log s)))"
proof -
  have inv: "conc_inv (s, pcs)" by (rule ring_reach_inv [OF assms])
  note sh = conc_shapeD [OF inv] and tk = conc_takenD [OF inv]
  have "mset (sh_log s) = mset (map snd (sh_taken s)) + mset (drop (sh_deq s) (sh_log s))"
    if "\<forall>t. pcs t = Idle"
    using that tk(3) sh by (intro mset_by_position [OF tk(1,2)]) simp_all
  moreover have "map (dt s) [sh_deq s..<sh_enq s] = map Some (drop (sh_deq s) (sh_log s))"
    if "\<forall>t. pcs t = Idle"
    using live_cell [OF inv] that sh by (intro nth_equalityI) auto
  ultimately show ?thesis using tk(1,2) sh by blast
qed

theorem ring_conc_exactly_once_witness:
  "distinct (map fst (sh_taken example_shared)) \<and> length (sh_log example_shared) = sh_enq example_shared
    \<and> sh_taken example_shared = [(0, 7)]"
  using ring_conc_exactly_once [OF reach_example] by (simp add: example_shared_def)

end
