(* ===== verification/Monitor.thy ===== *)
theory Monitor
  imports Muses_Prelude
begin

text \<open>
  Condition variables.  Threads are the positions of a list of program counters.  A thread blocked in
  \<open>std::condition_variable::wait\<close> is at a program counter that \<open>waits\<close>; \<open>notify_one\<close> and \<open>notify_all\<close>
  move such threads to a program counter from which they reacquire the mutex and evaluate the
  predicate again.  The locale \<open>wait_set\<close> holds the counting argument behind a correct use of
  \<open>notify_one\<close>: while a thread waits, the resources at hand do not outnumber the threads already woken
  for them.
\<close>

definition count_pc :: "('pc \<Rightarrow> bool) \<Rightarrow> 'pc list \<Rightarrow> nat" where
  "count_pc P pcs = length (filter P pcs)"

definition notify_one :: "('pc \<Rightarrow> bool) \<Rightarrow> ('pc \<Rightarrow> 'pc) \<Rightarrow> 'pc list \<Rightarrow> 'pc list \<Rightarrow> bool" where
  "notify_one waits wake pcs pcs' \<longleftrightarrow>
     (\<forall>t < length pcs. \<not> waits (pcs ! t)) \<and> pcs' = pcs \<or>
     (\<exists>t < length pcs. waits (pcs ! t) \<and> pcs' = pcs[t := wake (pcs ! t)])"

definition notify_all :: "('pc \<Rightarrow> bool) \<Rightarrow> ('pc \<Rightarrow> 'pc) \<Rightarrow> 'pc list \<Rightarrow> 'pc list" where
  "notify_all waits wake pcs = map (\<lambda>pc. if waits pc then wake pc else pc) pcs"

lemma count_pc_update:
  assumes "t < length pcs"
  shows "count_pc P (pcs[t := pc]) + of_bool (P (pcs ! t)) = count_pc P pcs + of_bool (P pc)"
  using assms
proof (induction pcs arbitrary: t)
  case (Cons a pcs)
  then show ?case by (cases t) (auto simp: count_pc_def)
qed simp

lemma map_filter_update:
  assumes "t < length pcs"
  shows "mset (List.map_filter f (pcs[t := pc])) + (case f (pcs ! t) of None \<Rightarrow> {#} | Some a \<Rightarrow> {#a#}) =
    mset (List.map_filter f pcs) + (case f pc of None \<Rightarrow> {#} | Some a \<Rightarrow> {#a#})"
  using assms
proof (induction pcs arbitrary: t)
  case (Cons a pcs)
  then show ?case by (cases t) (auto simp: List.map_filter_simps split: option.splits)
qed simp

lemma count_pc_zero: "count_pc P pcs = 0 \<longleftrightarrow> (\<forall>t < length pcs. \<not> P (pcs ! t))"
  by (simp add: count_pc_def filter_empty_conv all_set_conv_all_nth)

lemma count_pc_pos: "t < length pcs \<Longrightarrow> P (pcs ! t) \<Longrightarrow> 0 < count_pc P pcs"
  using count_pc_zero [of P pcs] by auto

lemma count_pc_replicate [simp]: "\<not> P pc \<Longrightarrow> count_pc P (replicate n pc) = 0"
  by (simp add: count_pc_def)

lemma notify_one_length [simp]: "notify_one waits wake pcs pcs' \<Longrightarrow> length pcs' = length pcs"
  by (auto simp: notify_one_def)

lemma notify_all_length [simp]: "length (notify_all waits wake pcs) = length pcs"
  by (simp add: notify_all_def)

lemma notify_one_exists: "\<exists>pcs'. notify_one waits wake pcs pcs'"
  unfolding notify_one_def by blast

text \<open>A notification of another condition variable changes none of the counters of this one.\<close>

lemma notify_one_other:
  assumes "notify_one waits wake pcs pcs'" "\<And>pc. waits pc \<Longrightarrow> P (wake pc) = P pc"
  shows "count_pc P pcs' = count_pc P pcs"
proof -
  have "count_pc P (pcs[t := wake (pcs ! t)]) = count_pc P pcs" if "t < length pcs" "waits (pcs ! t)" for t
    using count_pc_update [OF that(1), of P "wake (pcs ! t)"] assms(2) [OF that(2)] by simp
  then show ?thesis using assms(1) unfolding notify_one_def by metis
qed

lemma notify_all_count:
  assumes "\<And>pc. waits pc \<Longrightarrow> P (wake pc) = P pc"
  shows "count_pc P (notify_all waits wake pcs) = count_pc P pcs"
  using assms by (induction pcs) (auto simp: count_pc_def notify_all_def)

lemma notify_all_none:
  assumes "\<And>pc. waits pc \<Longrightarrow> \<not> waits (wake pc)"
  shows "count_pc waits (notify_all waits wake pcs) = 0"
  using assms by (auto simp: count_pc_def notify_all_def filter_empty_conv)

locale wait_set =
  fixes waits woken :: "'pc \<Rightarrow> bool" and wake :: "'pc \<Rightarrow> 'pc"
  assumes wake_woken: "waits pc \<Longrightarrow> woken (wake pc)"
    and woken_not_waiting: "woken pc \<Longrightarrow> \<not> waits pc"
begin

text \<open>\<open>n\<close> resources are served: whenever a thread waits, at least \<open>n\<close> threads have been woken.\<close>

definition served :: "nat \<Rightarrow> 'pc list \<Rightarrow> bool" where
  "served n pcs \<longleftrightarrow> (0 < count_pc waits pcs \<longrightarrow> n \<le> count_pc woken pcs)"

lemma waiting_not_woken: "waits pc \<Longrightarrow> \<not> woken pc"
  using woken_not_waiting by blast

lemma served_cong:
  "count_pc waits pcs' = count_pc waits pcs \<Longrightarrow> count_pc woken pcs' = count_pc woken pcs \<Longrightarrow>
     served n pcs' = served n pcs"
  by (simp add: served_def)

lemma served_mono: "served n pcs \<Longrightarrow> m \<le> n \<Longrightarrow> served m pcs"
  by (auto simp: served_def)

lemma served_zero: "served 0 pcs"
  by (simp add: served_def)

lemma served_idle: "served n (replicate k pc)" if "\<not> waits pc"
  using that by (simp add: served_def)

text \<open>A thread that neither waited nor was woken goes on without waiting.\<close>

lemma served_pass:
  assumes "served n pcs" "t < length pcs" "\<not> woken (pcs ! t)" "\<not> waits pc"
  shows "served n (pcs[t := pc])"
proof -
  have "count_pc waits (pcs[t := pc]) \<le> count_pc waits pcs"
    using count_pc_update [OF assms(2), of waits pc] assms(4) by simp
  moreover have "count_pc woken pcs \<le> count_pc woken (pcs[t := pc])"
    using count_pc_update [OF assms(2), of woken pc] assms(3) by simp
  ultimately show ?thesis using assms(1) unfolding served_def by linarith
qed

text \<open>A woken thread takes a resource, or gives up when there is none.\<close>

lemma served_take:
  assumes "served n pcs" "t < length pcs" "\<not> waits pc" "m \<le> n - 1"
  shows "served m (pcs[t := pc])"
proof -
  have "count_pc waits (pcs[t := pc]) \<le> count_pc waits pcs"
    using count_pc_update [OF assms(2), of waits pc] assms(3) by simp
  moreover have "count_pc woken pcs \<le> Suc (count_pc woken (pcs[t := pc]))"
    using count_pc_update [OF assms(2), of woken pc] by (cases "woken (pcs ! t)") simp_all
  ultimately show ?thesis using assms(1,4) unfolding served_def by linarith
qed

lemma served_notify:
  assumes "served n pcs" "notify_one waits wake pcs pcs'"
  shows "served (Suc n) pcs'"
proof (cases "\<exists>t < length pcs. waits (pcs ! t)")
  case True
  then obtain t where t: "t < length pcs" "waits (pcs ! t)" "pcs' = pcs[t := wake (pcs ! t)]"
    using assms(2) unfolding notify_one_def by blast
  then show ?thesis
    using assms(1) count_pc_pos [of t pcs waits] count_pc_update [OF t(1), of waits "wake (pcs ! t)"]
      count_pc_update [OF t(1), of woken "wake (pcs ! t)"] wake_woken [OF t(2)] waiting_not_woken [OF t(2)]
    by (simp add: served_def)
next
  case False
  then have "pcs' = pcs" using assms(2) unfolding notify_one_def by blast
  with False show ?thesis by (simp add: served_def count_pc_zero [THEN iffD2])
qed

text \<open>A spurious wake-up.\<close>

lemma served_spurious:
  assumes "served n pcs" "t < length pcs" "waits (pcs ! t)"
  shows "served n (pcs[t := wake (pcs ! t)])"
  using assms count_pc_pos [of t pcs waits] count_pc_update [OF assms(2), of woken "wake (pcs ! t)"]
    wake_woken [OF assms(3)] waiting_not_woken [OF assms(3)]
  by (simp add: served_def)

lemma served_all: "served n (notify_all waits wake pcs)"
proof -
  have "count_pc waits (notify_all waits wake pcs) = 0"
    using notify_all_none wake_woken woken_not_waiting by metis
  then show ?thesis by (simp add: served_def)
qed

text \<open>Nothing is at hand when a thread waits and no thread is on its way.\<close>

lemma served_quiet:
  "served n pcs \<Longrightarrow> t < length pcs \<Longrightarrow> waits (pcs ! t) \<Longrightarrow> (\<forall>u < length pcs. \<not> woken (pcs ! u)) \<Longrightarrow> n = 0"
  using count_pc_pos [of t pcs waits] by (simp add: served_def count_pc_zero [THEN iffD2])

end

end
