(* ===== verification/Blocking_Queue.thy ===== *)
theory Blocking_Queue
  imports Monitor Ring_Queue
begin

text \<open>
  The \<open>Block\<close> policy of \<open>src/muses/bounded_queue.hpp\<close> (\<open>BlockingImpl\<close>: a mutex, a deque and two
  condition variables) under interleaving, and the facade \<open>BoundedQueue\<close> that picks an
  implementation by policy.

  A critical section runs atomically, from acquiring the mutex to releasing it in \<open>wait\<close> or on return;
  it yields the thread's next program counter, the new state and the notifications it made.
  Spurious wake-ups and the expiry of a timed wait are steps of their own.  \<open>bm_in\<close> and \<open>bm_out\<close> are
  history variables: the items appended and the items taken so far.
\<close>

section \<open>Critical sections\<close>

record 'a bmon =
  bm_buffer :: "'a list"
  bm_capacity :: nat
  bm_stopped :: bool
  bm_dropped :: nat
  bm_in :: "'a list"
  bm_out :: "'a list"

datatype 'a bpc =
    BIdle
  | BPushWait 'a       \<comment> \<open>blocked on \<open>not_full_\<close>\<close>
  | BPushWoken 'a      \<comment> \<open>woken, about to reacquire the mutex\<close>
  | BPopWait bool      \<comment> \<open>blocked on \<open>not_empty_\<close>, with a timeout or not\<close>
  | BPopWoken bool
  | BRetPush bool
  | BRetPop "'a option"

datatype signal = NoSignal | NotifyNotEmpty | NotifyNotFull | NotifyAll

definition blocking_new :: "nat \<Rightarrow> 'a bmon" where
  "blocking_new cap =
     \<lparr>bm_buffer = [], bm_capacity = cap, bm_stopped = False, bm_dropped = 0, bm_in = [], bm_out = []\<rparr>"

text \<open>\<open>push\<close>, from the first or a later evaluation of the wait's predicate.\<close>

definition blocking_push :: "'a \<Rightarrow> 'a bmon \<Rightarrow> 'a bpc \<times> 'a bmon \<times> signal" where
  "blocking_push x s =
     (if bm_stopped s then (BRetPush False, s, NoSignal)
      else if length (bm_buffer s) < bm_capacity s then
        (BRetPush True, s\<lparr>bm_buffer := bm_buffer s @ [x], bm_in := bm_in s @ [x]\<rparr>, NotifyNotEmpty)
      else (BPushWait x, s, NoSignal))"

definition take_front :: "'a \<Rightarrow> 'a list \<Rightarrow> 'a bmon \<Rightarrow> 'a bpc \<times> 'a bmon \<times> signal" where
  "take_front y ys s = (BRetPop (Some y), s\<lparr>bm_buffer := ys, bm_out := bm_out s @ [y]\<rparr>, NotifyNotFull)"

definition blocking_try_pop :: "'a bmon \<Rightarrow> 'a bpc \<times> 'a bmon \<times> signal" where
  "blocking_try_pop s =
     (case bm_buffer s of [] \<Rightarrow> (BRetPop None, s, NoSignal) | y # ys \<Rightarrow> take_front y ys s)"

text \<open>Both overloads of \<open>wait_pop\<close> while the deadline, if any, has not passed.\<close>

definition blocking_wait_pop :: "bool \<Rightarrow> 'a bmon \<Rightarrow> 'a bpc \<times> 'a bmon \<times> signal" where
  "blocking_wait_pop timed s =
     (if \<not> (bm_stopped s \<or> bm_buffer s \<noteq> []) then (BPopWait timed, s, NoSignal)
      else case bm_buffer s of [] \<Rightarrow> (BRetPop None, s, NoSignal) | y # ys \<Rightarrow> take_front y ys s)"

text \<open>The timed overload after its deadline: \<open>wait_for\<close> returns the predicate.\<close>

definition blocking_wait_expired :: "'a bmon \<Rightarrow> 'a bpc \<times> 'a bmon \<times> signal" where
  "blocking_wait_expired s =
     (let got = (bm_stopped s \<or> bm_buffer s \<noteq> [])
      in if \<not> got then (BRetPop None, s, NoSignal)
         else case bm_buffer s of [] \<Rightarrow> (BRetPop None, s, NoSignal) | y # ys \<Rightarrow> take_front y ys s)"

definition blocking_stop :: "'a bmon \<Rightarrow> 'a bpc \<times> 'a bmon \<times> signal" where
  "blocking_stop s = (BIdle, s\<lparr>bm_stopped := True\<rparr>, NotifyAll)"

definition blocking_size :: "'a bmon \<Rightarrow> nat" where
  "blocking_size s = length (bm_buffer s)"

definition blocking_dropped :: "'a bmon \<Rightarrow> nat" where
  "blocking_dropped s = bm_dropped s"

lemmas blocking_sections [muses_ops] =
  blocking_push_def blocking_try_pop_def blocking_wait_pop_def blocking_wait_expired_def blocking_stop_def
  take_front_def

section \<open>Threads\<close>

fun pop_waits :: "'a bpc \<Rightarrow> bool" where
  "pop_waits (BPopWait timed) = True"
| "pop_waits _ = False"

fun pop_woken :: "'a bpc \<Rightarrow> bool" where
  "pop_woken (BPopWoken timed) = True"
| "pop_woken _ = False"

fun push_waits :: "'a bpc \<Rightarrow> bool" where
  "push_waits (BPushWait x) = True"
| "push_waits _ = False"

fun push_woken :: "'a bpc \<Rightarrow> bool" where
  "push_woken (BPushWoken x) = True"
| "push_woken _ = False"

fun bwake :: "'a bpc \<Rightarrow> 'a bpc" where
  "bwake (BPushWait x) = BPushWoken x"
| "bwake (BPopWait timed) = BPopWoken timed"
| "bwake pc = pc"

interpretation ne: wait_set pop_waits pop_woken bwake
proof
  show "pop_woken (bwake pc)" if "pop_waits pc" for pc :: "'a bpc" using that by (cases pc) auto
  show "\<not> pop_waits pc" if "pop_woken pc" for pc :: "'a bpc" using that by (cases pc) auto
qed

interpretation nf: wait_set push_waits push_woken bwake
proof
  show "push_woken (bwake pc)" if "push_waits pc" for pc :: "'a bpc" using that by (cases pc) auto
  show "\<not> push_waits pc" if "push_woken pc" for pc :: "'a bpc" using that by (cases pc) auto
qed

fun deliver :: "signal \<Rightarrow> 'a bpc list \<Rightarrow> 'a bpc list \<Rightarrow> bool" where
  "deliver NoSignal pcs pcs' \<longleftrightarrow> pcs' = pcs"
| "deliver NotifyNotEmpty pcs pcs' \<longleftrightarrow> notify_one pop_waits bwake pcs pcs'"
| "deliver NotifyNotFull pcs pcs' \<longleftrightarrow> notify_one push_waits bwake pcs pcs'"
| "deliver NotifyAll pcs pcs' \<longleftrightarrow>
     pcs' = notify_all pop_waits bwake (notify_all push_waits bwake pcs)"

text \<open>The critical sections a thread at a program counter may run next.\<close>

inductive runs :: "'a bpc \<Rightarrow> ('a bmon \<Rightarrow> 'a bpc \<times> 'a bmon \<times> signal) \<Rightarrow> bool" where
  "runs BIdle (blocking_push x)"
| "runs BIdle blocking_try_pop"
| "runs BIdle (blocking_wait_pop timed)"
| "runs BIdle blocking_stop"
| "runs (BPushWoken x) (blocking_push x)"
| "runs (BPopWoken timed) (blocking_wait_pop timed)"
| "runs (BPopWoken True) blocking_wait_expired"

type_synonym 'a bsys = "'a bmon \<times> 'a bpc list"

inductive bstep :: "'a bsys \<Rightarrow> 'a bsys \<Rightarrow> bool" where
  critical: "\<lbrakk>t < length pcs; runs (pcs ! t) crit; crit s = (pc', s', sig); deliver sig (pcs[t := pc']) pcs'\<rbrakk>
     \<Longrightarrow> bstep (s, pcs) (s', pcs')"
| wakeup: "\<lbrakk>t < length pcs; pop_waits (pcs ! t) \<or> push_waits (pcs ! t)\<rbrakk> \<Longrightarrow> bstep (s, pcs) (s, pcs[t := bwake (pcs ! t)])"
| return_push: "\<lbrakk>t < length pcs; pcs ! t = BRetPush b\<rbrakk> \<Longrightarrow> bstep (s, pcs) (s, pcs[t := BIdle])"
| return_pop: "\<lbrakk>t < length pcs; pcs ! t = BRetPop r\<rbrakk> \<Longrightarrow> bstep (s, pcs) (s, pcs[t := BIdle])"

inductive breach :: "nat \<Rightarrow> nat \<Rightarrow> 'a bsys \<Rightarrow> bool" for cap n where
  start: "breach cap n (blocking_new cap, replicate n BIdle)"
| step: "breach cap n c \<Longrightarrow> bstep c c' \<Longrightarrow> breach cap n c'"

section \<open>Invariant: order, bound, and no lost wake-up\<close>

definition free_slots :: "'a bmon \<Rightarrow> nat" where
  "free_slots s = bm_capacity s - length (bm_buffer s)"

definition blocking_inv :: "nat \<Rightarrow> 'a bsys \<Rightarrow> bool" where
  [muses_inv]: "blocking_inv cap c \<longleftrightarrow> (case c of (s, pcs) \<Rightarrow>
     bm_in s = bm_out s @ bm_buffer s \<and> bm_capacity s = cap \<and> length (bm_buffer s) \<le> cap \<and>
     (bm_stopped s \<longrightarrow> count_pc pop_waits pcs = 0 \<and> count_pc push_waits pcs = 0) \<and>
     ne.served (length (bm_buffer s)) pcs \<and> nf.served (free_slots s) pcs)"

lemma runs_not_waiting:
  assumes "runs pc crit"
  shows "\<not> pop_waits pc" "\<not> push_waits pc"
  using assms by (auto elim: runs.cases)

lemma bwake_other [simp]:
  "push_waits pc \<Longrightarrow> pop_waits (bwake pc) = pop_waits pc" "push_waits pc \<Longrightarrow> pop_woken (bwake pc) = pop_woken pc"
  "pop_waits pc \<Longrightarrow> push_waits (bwake pc) = push_waits pc" "pop_waits pc \<Longrightarrow> push_woken (bwake pc) = push_woken pc"
  "\<not> pop_waits (bwake pc)" "\<not> push_waits (bwake pc)"
  "pop_waits pc \<Longrightarrow> \<not> push_waits pc" "push_waits pc \<Longrightarrow> \<not> pop_waits pc"
  "pop_waits pc \<Longrightarrow> \<not> push_woken pc" "push_waits pc \<Longrightarrow> \<not> pop_woken pc"
  by (cases pc; simp)+

lemma notify_not_empty:
  assumes "notify_one pop_waits bwake pcs pcs'"
  shows "nf.served n pcs' = nf.served n pcs" "count_pc push_waits pcs' = count_pc push_waits pcs"
    "count_pc pop_waits pcs' \<le> count_pc pop_waits pcs"
proof -
  show "nf.served n pcs' = nf.served n pcs" "count_pc push_waits pcs' = count_pc push_waits pcs"
    using assms by (auto intro!: nf.served_cong notify_one_other)
  have "count_pc pop_waits (pcs[t := bwake (pcs ! t)]) \<le> count_pc pop_waits pcs" if "t < length pcs" for t
    using count_pc_update [OF that, of pop_waits "bwake (pcs ! t)"] by simp
  then show "count_pc pop_waits pcs' \<le> count_pc pop_waits pcs" using assms unfolding notify_one_def by (metis order_refl)
qed

lemma notify_not_full:
  assumes "notify_one push_waits bwake pcs pcs'"
  shows "ne.served n pcs' = ne.served n pcs" "count_pc pop_waits pcs' = count_pc pop_waits pcs"
    "count_pc push_waits pcs' \<le> count_pc push_waits pcs"
proof -
  show "ne.served n pcs' = ne.served n pcs" "count_pc pop_waits pcs' = count_pc pop_waits pcs"
    using assms by (auto intro!: ne.served_cong notify_one_other)
  have "count_pc push_waits (pcs[t := bwake (pcs ! t)]) \<le> count_pc push_waits pcs" if "t < length pcs" for t
    using count_pc_update [OF that, of push_waits "bwake (pcs ! t)"] by simp
  then show "count_pc push_waits pcs' \<le> count_pc push_waits pcs" using assms unfolding notify_one_def by (metis order_refl)
qed

lemma no_waiters_update:
  "count_pc P pcs = 0 \<Longrightarrow> t < length pcs \<Longrightarrow> \<not> P pc \<Longrightarrow> count_pc P (pcs[t := pc]) = 0"
  using count_pc_update [of t pcs P pc] by simp

lemma blocking_push_inv:
  assumes inv: "blocking_inv cap (s, pcs)" and t: "t < length pcs" "pcs ! t = BIdle \<or> pcs ! t = BPushWoken x"
    and sec: "blocking_push x s = (pc', s', sig)" "deliver sig (pcs[t := pc']) pcs'"
  shows "blocking_inv cap (s', pcs')"
proof -
  have pc: "\<not> pop_woken (pcs ! t)" using t(2) by auto
  note pass = ne.served_pass [OF _ t(1) pc]
  consider (stopped) "bm_stopped s" | (room) "\<not> bm_stopped s" "length (bm_buffer s) < bm_capacity s"
    | (full) "\<not> bm_stopped s" "\<not> length (bm_buffer s) < bm_capacity s" by blast
  then show ?thesis
  proof cases
    case stopped
    then show ?thesis
      using inv sec no_waiters_update [OF _ t(1)]
      by (auto simp: blocking_inv_def blocking_push_def ne.served_def nf.served_def)
  next
    case room
    let ?q = "pcs[t := BRetPush True]"
    have eq: "pc' = BRetPush True" "s' = s\<lparr>bm_buffer := bm_buffer s @ [x], bm_in := bm_in s @ [x]\<rparr>"
      and n: "notify_one pop_waits bwake ?q pcs'"
      using sec room by (auto simp: blocking_push_def)
    have "ne.served (length (bm_buffer s)) ?q" using inv by (intro pass) (auto simp: blocking_inv_def)
    then have "ne.served (Suc (length (bm_buffer s))) pcs'" using n by (rule ne.served_notify)
    moreover have "nf.served (free_slots s') pcs'"
      unfolding notify_not_empty(1) [OF n]
      using inv by (intro nf.served_take [OF _ t(1), of "free_slots s"]) (auto simp: blocking_inv_def eq free_slots_def)
    ultimately show ?thesis using inv room by (auto simp: blocking_inv_def eq)
  next
    case full
    then have "pc' = BPushWait x" "s' = s" "pcs' = pcs[t := BPushWait x]" "free_slots s = 0"
      using sec by (auto simp: blocking_push_def free_slots_def)
    then show ?thesis using inv full pass by (auto simp: blocking_inv_def nf.served_zero)
  qed
qed

text \<open>What the sections that take items have in common.\<close>

lemma blocking_take_inv:
  assumes inv: "blocking_inv cap (s, pcs)" and t: "t < length pcs" "\<not> push_woken (pcs ! t)"
    and buf: "bm_buffer s = y # ys" and sec: "take_front y ys s = (pc', s', sig)" "deliver sig (pcs[t := pc']) pcs'"
  shows "blocking_inv cap (s', pcs')"
proof -
  let ?q = "pcs[t := BRetPop (Some y)]"
  have eq: "pc' = BRetPop (Some y)" "s' = s\<lparr>bm_buffer := ys, bm_out := bm_out s @ [y]\<rparr>"
    and n: "notify_one push_waits bwake ?q pcs'"
    using sec by (auto simp: take_front_def)
  have "nf.served (free_slots s) ?q" using inv t by (intro nf.served_pass) (auto simp: blocking_inv_def)
  then have "nf.served (Suc (free_slots s)) pcs'" using n by (rule nf.served_notify)
  moreover have "Suc (free_slots s) = free_slots s'" using inv buf by (auto simp: blocking_inv_def free_slots_def eq)
  moreover have "ne.served (length ys) pcs'"
    unfolding notify_not_full(1) [OF n]
    using inv buf by (intro ne.served_take [OF _ t(1), of "length (bm_buffer s)"]) (auto simp: blocking_inv_def)
  moreover have "bm_stopped s \<Longrightarrow> count_pc pop_waits pcs' = 0 \<and> count_pc push_waits pcs' = 0"
    using inv no_waiters_update [OF _ t(1), of _ "BRetPop (Some y)"] notify_not_full(2,3) [OF n]
    by (simp add: blocking_inv_def)
  ultimately show ?thesis using inv buf by (simp add: blocking_inv_def eq)
qed

lemma blocking_empty_inv:
  assumes inv: "blocking_inv cap (s, pcs)" and t: "t < length pcs" "\<not> push_woken (pcs ! t)"
    and buf: "bm_buffer s = []" and pc': "pc' = BRetPop None \<or> \<not> bm_stopped s \<and> pc' = BPopWait timed"
  shows "blocking_inv cap (s, pcs[t := pc'])"
proof -
  have "\<not> push_waits pc'" using pc' by auto
  then have "nf.served (free_slots s) (pcs[t := pc'])"
    using inv t by (intro nf.served_pass) (auto simp: blocking_inv_def)
  moreover have "bm_stopped s \<Longrightarrow> count_pc P (pcs[t := pc']) = 0" if "count_pc P pcs = 0" "\<not> P (BRetPop None)" for P
    using no_waiters_update [OF that(1) t(1)] that(2) pc' by auto
  ultimately show ?thesis using inv buf by (auto simp: blocking_inv_def ne.served_zero)
qed

lemma blocking_stop_inv:
  assumes inv: "blocking_inv cap (s, pcs)" and sec: "blocking_stop s = (pc', s', sig)" "deliver sig (pcs[t := pc']) pcs'"
  shows "blocking_inv cap (s', pcs')"
proof -
  let ?q = "notify_all push_waits bwake (pcs[t := BIdle])"
  have eq: "s' = s\<lparr>bm_stopped := True\<rparr>" "pcs' = notify_all pop_waits bwake ?q"
    using sec by (auto simp: blocking_stop_def)
  have "count_pc pop_waits pcs' = 0" unfolding eq by (rule notify_all_none) simp
  moreover have "count_pc push_waits pcs' = 0"
    unfolding eq using notify_all_count [of pop_waits push_waits bwake ?q] notify_all_none [of push_waits bwake]
    by simp
  ultimately show ?thesis using inv by (simp add: blocking_inv_def eq ne.served_def nf.served_def free_slots_def)
qed

lemma blocking_pop_inv:
  assumes inv: "blocking_inv cap (s, pcs)" and t: "t < length pcs" "\<not> push_woken (pcs ! t)"
    and sec: "crit s = (pc', s', sig)" "deliver sig (pcs[t := pc']) pcs'"
    and "crit = blocking_try_pop \<or> (\<exists>timed. crit = blocking_wait_pop timed) \<or> crit = blocking_wait_expired"
  shows "blocking_inv cap (s', pcs')"
proof (cases "bm_buffer s")
  case Nil
  then have "(pc' = BRetPop None \<or> (\<exists>timed. \<not> bm_stopped s \<and> pc' = BPopWait timed)) \<and> s' = s \<and> sig = NoSignal"
    using sec assms(6) by (auto simp: blocking_sections split: if_splits)
  then show ?thesis using blocking_empty_inv [OF inv t Nil] sec(2) by auto
next
  case (Cons y ys)
  then have "take_front y ys s = (pc', s', sig)" using sec(1) assms(6) by (auto simp: blocking_sections)
  then show ?thesis using blocking_take_inv [OF inv t Cons] sec(2) by blast
qed

lemma blocking_section_inv:
  assumes inv: "blocking_inv cap (s, pcs)" and t: "t < length pcs" and r: "runs (pcs ! t) crit"
    and sec: "crit s = (pc', s', sig)" "deliver sig (pcs[t := pc']) pcs'"
  shows "blocking_inv cap (s', pcs')"
proof -
  note pop = blocking_pop_inv [of cap s pcs t crit pc' s' sig pcs', OF inv t _ sec]
  show ?thesis
    using r
  proof cases
    case (1 x)
    then show ?thesis using blocking_push_inv [OF inv t] sec by simp
  next
    case (5 x)
    then show ?thesis using blocking_push_inv [OF inv t] sec by simp
  next
    case 4
    then show ?thesis using blocking_stop_inv [OF inv] sec by simp
  qed (rule pop; force)+
qed

lemma bstep_inv: "bstep c c' \<Longrightarrow> blocking_inv cap c \<Longrightarrow> blocking_inv cap c'"
proof (induction rule: bstep.induct)
  case (critical t pcs crit s pc' s' sig pcs')
  then show ?case using blocking_section_inv by blast
next
  case (wakeup t pcs s)
  have le: "count_pc pop_waits (pcs[t := bwake (pcs ! t)]) \<le> count_pc pop_waits pcs"
    "count_pc push_waits (pcs[t := bwake (pcs ! t)]) \<le> count_pc push_waits pcs"
    using count_pc_update [OF wakeup(1), of pop_waits "bwake (pcs ! t)"]
      count_pc_update [OF wakeup(1), of push_waits "bwake (pcs ! t)"] by simp_all
  have "ne.served n (pcs[t := bwake (pcs ! t)])" if "ne.served n pcs" for n
    using wakeup(1,2) ne.served_spurious [OF that] ne.served_pass [OF that, of t "bwake (pcs ! t)"] by auto
  moreover have "nf.served n (pcs[t := bwake (pcs ! t)])" if "nf.served n pcs" for n
    using wakeup(1,2) nf.served_spurious [OF that] nf.served_pass [OF that, of t "bwake (pcs ! t)"] by auto
  ultimately show ?case using wakeup le by (auto simp: blocking_inv_def)
next
  case (return_push t pcs b s)
  then show ?case
    using no_waiters_update [of _ pcs t BIdle] by (auto simp: blocking_inv_def intro: ne.served_pass nf.served_pass)
next
  case (return_pop t pcs r s)
  then show ?case
    using no_waiters_update [of _ pcs t BIdle] by (auto simp: blocking_inv_def intro: ne.served_pass nf.served_pass)
qed

lemma breach_inv: "breach cap n c \<Longrightarrow> blocking_inv cap c"
proof (induction rule: breach.induct)
  case start
  then show ?case by (simp add: blocking_inv_def blocking_new_def ne.served_idle nf.served_idle)
next
  case (step c c')
  then show ?case using bstep_inv by blast
qed

text \<open>
  C14. No wake-up is lost in the \<open>Block\<close> queue.  In every reachable state of any number of threads that
  push, pop with or without a timeout, and stop, in any interleaving: the items taken so far followed
  by the buffer are the items appended so far, in order; the buffer never exceeds the capacity; and when
  no thread is on its way to the mutex, a consumer blocked in \<open>wait_pop\<close> means that the queue is empty
  and not stopped, a producer blocked in \<open>push\<close> that it is full and not stopped.
\<close>

theorem blocking_no_lost_wakeup:
  assumes "breach cap n (s, pcs)"
  shows "bm_in s = bm_out s @ bm_buffer s \<and> length (bm_buffer s) \<le> cap \<and>
    ((\<forall>u < length pcs. \<not> pop_woken (pcs ! u) \<and> \<not> push_woken (pcs ! u)) \<longrightarrow> t < length pcs \<longrightarrow>
       (pop_waits (pcs ! t) \<longrightarrow> bm_buffer s = [] \<and> \<not> bm_stopped s) \<and>
       (push_waits (pcs ! t) \<longrightarrow> length (bm_buffer s) = cap \<and> \<not> bm_stopped s))"
proof -
  have inv: "blocking_inv cap (s, pcs)" by (rule breach_inv [OF assms])
  have "bm_buffer s = [] \<and> \<not> bm_stopped s"
    if "\<forall>u < length pcs. \<not> pop_woken (pcs ! u)" "t < length pcs" "pop_waits (pcs ! t)"
    using inv ne.served_quiet [of _ pcs t] that count_pc_pos [of t pcs pop_waits]
    by (fastforce simp: blocking_inv_def)
  moreover have "length (bm_buffer s) = cap \<and> \<not> bm_stopped s"
    if "\<forall>u < length pcs. \<not> push_woken (pcs ! u)" "t < length pcs" "push_waits (pcs ! t)"
    using inv nf.served_quiet [of "free_slots s" pcs t] that count_pc_pos [of t pcs push_waits]
    by (auto simp: blocking_inv_def free_slots_def)
  moreover have "bm_in s = bm_out s @ bm_buffer s" "length (bm_buffer s) \<le> cap"
    using inv by (simp_all add: blocking_inv_def)
  ultimately show ?thesis by blast
qed

lemma breach_section:
  assumes "breach cap n (s, pcs)" "t < length pcs" "runs (pcs ! t) crit" "crit s = (pc', s', sig)"
    "deliver sig (pcs[t := pc']) pcs'"
  shows "breach cap n (s', pcs')"
  using breach.step [OF assms(1) bstep.critical [OF assms(2-5)]] .

text \<open>A consumer blocks on the empty queue.\<close>

lemma blocked_consumer_example: "breach 2 2 (blocking_new 2 :: nat bmon, [BIdle, BPopWait True])"
proof -
  have "breach 2 2 (blocking_new 2 :: nat bmon, [BIdle, BIdle])" using breach.start [of 2 2] by (simp add: numeral_2_eq_2)
  then show ?thesis
    by (rule breach_section [where t = 1 and crit = "blocking_wait_pop True" and sig = NoSignal and pc' = "BPopWait True"])
      (simp_all add: runs.intros blocking_wait_pop_def blocking_new_def)
qed

theorem blocking_no_lost_wakeup_witness:
  "pop_waits ([BIdle, BPopWait True] ! 1) \<and> bm_buffer (blocking_new 2 :: nat bmon) = []"
  using blocking_no_lost_wakeup [OF blocked_consumer_example, of 1] by (simp add: less_Suc_eq)

end
