(* ===== verification/Thread_Safe_Queue.thy ===== *)
theory Thread_Safe_Queue
  imports Monitor
begin

text \<open>
  \<open>ThreadSafeQueue\<close> of \<open>src/muses/queue.hpp\<close>: a mutex, a queue and one condition variable that
  producers and consumers share.  Critical sections are atomic, as in the theory \<open>Blocking_Queue\<close>;
  whether condition variables may wake up spuriously is a parameter of the step relation.
  \<open>tq_in\<close> and \<open>tq_out\<close> are history variables.
\<close>

section \<open>Critical sections\<close>

record 'a tsq =
  tq_capacity :: nat
  tq_stopped :: bool
  tq_queue :: "'a list"
  tq_in :: "'a list"
  tq_out :: "'a list"

datatype 'a tqpc =
    TIdle
  | TPushWait 'a
  | TPushWoken 'a
  | TPopWait
  | TPopWoken
  | TRetPush bool
  | TRetPop "'a option"

datatype tq_signal = TNone | TNotifyOne | TNotifyAll

definition tsq_new :: "'a tsq" where
  "tsq_new = \<lparr>tq_capacity = 2 ^ 32 - 1, tq_stopped = False, tq_queue = [], tq_in = [], tq_out = []\<rparr>"

definition set_capacity :: "u32 \<Rightarrow> 'a tsq \<Rightarrow> 'a tqpc \<times> 'a tsq \<times> tq_signal" where
  "set_capacity cap s = (TIdle, s\<lparr>tq_capacity := unat cap\<rparr>, TNone)"

definition tsq_push :: "'a \<Rightarrow> 'a tsq \<Rightarrow> 'a tqpc \<times> 'a tsq \<times> tq_signal" where
  "tsq_push x s =
     (if \<not> (tq_stopped s \<or> tq_capacity s > length (tq_queue s)) then (TPushWait x, s, TNone)
      else if tq_stopped s then (TRetPush False, s, TNone)
      else (TRetPush True, s\<lparr>tq_queue := tq_queue s @ [x], tq_in := tq_in s @ [x]\<rparr>, TNotifyOne))"

definition tsq_try_pop :: "'a tsq \<Rightarrow> 'a tqpc \<times> 'a tsq \<times> tq_signal" where
  "tsq_try_pop s =
     (case tq_queue s of
        [] \<Rightarrow> (TRetPop None, s, TNone)
      | y # ys \<Rightarrow> (TRetPop (Some y), s\<lparr>tq_queue := ys, tq_out := tq_out s @ [y]\<rparr>, TNone))"

definition wait_and_pop :: "'a tsq \<Rightarrow> 'a tqpc \<times> 'a tsq \<times> tq_signal" where
  "wait_and_pop s =
     (if \<not> (tq_stopped s \<or> tq_queue s \<noteq> []) then (TPopWait, s, TNone)
      else case tq_queue s of
        [] \<Rightarrow> (TRetPop None, s, TNone)
      | y # ys \<Rightarrow> (TRetPop (Some y), s\<lparr>tq_queue := ys, tq_out := tq_out s @ [y]\<rparr>, TNotifyOne))"

definition tsq_empty :: "'a tsq \<Rightarrow> bool" where
  "tsq_empty s \<longleftrightarrow> tq_queue s = []"

definition tsq_stop :: "'a tsq \<Rightarrow> 'a tqpc \<times> 'a tsq \<times> tq_signal" where
  "tsq_stop s = (TIdle, s\<lparr>tq_stopped := True\<rparr>, TNotifyAll)"

lemmas tsq_sections [muses_ops] =
  set_capacity_def tsq_push_def tsq_try_pop_def wait_and_pop_def tsq_stop_def

section \<open>Threads\<close>

fun tq_waits :: "'a tqpc \<Rightarrow> bool" where
  "tq_waits (TPushWait x) = True"
| "tq_waits TPopWait = True"
| "tq_waits _ = False"

fun tq_woken :: "'a tqpc \<Rightarrow> bool" where
  "tq_woken (TPushWoken x) = True"
| "tq_woken TPopWoken = True"
| "tq_woken _ = False"

fun tq_wake :: "'a tqpc \<Rightarrow> 'a tqpc" where
  "tq_wake (TPushWait x) = TPushWoken x"
| "tq_wake TPopWait = TPopWoken"
| "tq_wake pc = pc"

fun tq_deliver :: "tq_signal \<Rightarrow> 'a tqpc list \<Rightarrow> 'a tqpc list \<Rightarrow> bool" where
  "tq_deliver TNone pcs pcs' \<longleftrightarrow> pcs' = pcs"
| "tq_deliver TNotifyOne pcs pcs' \<longleftrightarrow> notify_one tq_waits tq_wake pcs pcs'"
| "tq_deliver TNotifyAll pcs pcs' \<longleftrightarrow> pcs' = notify_all tq_waits tq_wake pcs"

inductive tq_runs :: "'a tqpc \<Rightarrow> ('a tsq \<Rightarrow> 'a tqpc \<times> 'a tsq \<times> tq_signal) \<Rightarrow> bool" where
  "tq_runs TIdle (set_capacity cap)"
| "tq_runs TIdle (tsq_push x)"
| "tq_runs TIdle tsq_try_pop"
| "tq_runs TIdle wait_and_pop"
| "tq_runs TIdle tsq_stop"
| "tq_runs (TPushWoken x) (tsq_push x)"
| "tq_runs TPopWoken wait_and_pop"

type_synonym 'a tq_sys = "'a tsq \<times> 'a tqpc list"

inductive tq_step :: "bool \<Rightarrow> 'a tq_sys \<Rightarrow> 'a tq_sys \<Rightarrow> bool" for spurious where
  critical: "\<lbrakk>t < length pcs; tq_runs (pcs ! t) crit; crit s = (pc', s', sig); tq_deliver sig (pcs[t := pc']) pcs'\<rbrakk>
     \<Longrightarrow> tq_step spurious (s, pcs) (s', pcs')"
| wakeup: "\<lbrakk>spurious; t < length pcs; tq_waits (pcs ! t)\<rbrakk> \<Longrightarrow> tq_step spurious (s, pcs) (s, pcs[t := tq_wake (pcs ! t)])"
| return_push: "\<lbrakk>t < length pcs; pcs ! t = TRetPush b\<rbrakk> \<Longrightarrow> tq_step spurious (s, pcs) (s, pcs[t := TIdle])"
| return_pop: "\<lbrakk>t < length pcs; pcs ! t = TRetPop r\<rbrakk> \<Longrightarrow> tq_step spurious (s, pcs) (s, pcs[t := TIdle])"

inductive tq_reach :: "bool \<Rightarrow> nat \<Rightarrow> 'a tq_sys \<Rightarrow> bool" for spurious n where
  start: "tq_reach spurious n (tsq_new, replicate n TIdle)"
| step: "tq_reach spurious n c \<Longrightarrow> tq_step spurious c c' \<Longrightarrow> tq_reach spurious n c'"

section \<open>Order, and release by stop\<close>

definition tsq_inv :: "'a tq_sys \<Rightarrow> bool" where
  [muses_inv]: "tsq_inv c \<longleftrightarrow> (case c of (s, pcs) \<Rightarrow>
     tq_in s = tq_out s @ tq_queue s \<and> (tq_stopped s \<longrightarrow> count_pc tq_waits pcs = 0))"

lemma tq_wake_not_waiting [simp]: "\<not> tq_waits (tq_wake pc)"
  by (cases pc) simp_all

lemma tq_deliver_count:
  assumes "tq_deliver sig pcs pcs'" "count_pc tq_waits pcs = 0"
  shows "count_pc tq_waits pcs' = 0"
proof (cases sig)
  case TNotifyOne
  then have "pcs' = pcs" using assms unfolding count_pc_zero by (simp only: tq_deliver.simps notify_one_def) blast
  then show ?thesis using assms(2) by simp
next
  case TNotifyAll
  then show ?thesis using assms(1) notify_all_none [of tq_waits tq_wake pcs] by simp
qed (use assms in simp)

lemma tq_section_history:
  assumes "tq_runs pc crit" "crit s = (pc', s', sig)" "tq_in s = tq_out s @ tq_queue s"
  shows "tq_in s' = tq_out s' @ tq_queue s'"
    and "tq_stopped s' \<Longrightarrow> tq_stopped s \<and> \<not> tq_waits pc' \<or> sig = TNotifyAll"
  using assms by (auto elim!: tq_runs.cases simp: tsq_sections split: if_splits list.splits)

lemma tq_runs_not_waiting: "tq_runs pc crit \<Longrightarrow> \<not> tq_waits pc"
  by (auto elim: tq_runs.cases)

lemma tq_step_inv: "tq_step spurious c c' \<Longrightarrow> tsq_inv c \<Longrightarrow> tsq_inv c'"
proof (induction rule: tq_step.induct)
  case (critical t pcs crit s pc' s' sig pcs')
  have "count_pc tq_waits pcs' = 0" if "tq_stopped s'"
  proof (cases "sig = TNotifyAll")
    case True
    then show ?thesis using critical(4) notify_all_none [of tq_waits tq_wake] by simp
  next
    case False
    then have "tq_stopped s" "\<not> tq_waits pc'"
      using tq_section_history(2) [OF critical(2,3)] critical(5) that by (auto simp: tsq_inv_def)
    then have "count_pc tq_waits (pcs[t := pc']) = 0"
      using critical(5) count_pc_update [OF critical(1), of tq_waits pc'] by (simp add: tsq_inv_def)
    then show ?thesis by (rule tq_deliver_count [OF critical(4)])
  qed
  then show ?case using tq_section_history(1) [OF critical(2,3)] critical(5) by (simp add: tsq_inv_def)
next
  case (wakeup t pcs s)
  then show ?case using count_pc_update [OF wakeup(2), of tq_waits "tq_wake (pcs ! t)"] by (auto simp: tsq_inv_def)
next
  case (return_push t pcs b s)
  then show ?case using count_pc_update [OF return_push(1), of tq_waits TIdle] by (auto simp: tsq_inv_def)
next
  case (return_pop t pcs b s)
  then show ?case using count_pc_update [OF return_pop(1), of tq_waits TIdle] by (auto simp: tsq_inv_def)
qed

lemma tq_reach_inv: "tq_reach spurious n c \<Longrightarrow> tsq_inv c"
proof (induction rule: tq_reach.induct)
  case start
  then show ?case by (simp add: tsq_inv_def tsq_new_def)
next
  case (step c c')
  then show ?case using tq_step_inv by blast
qed

text \<open>
  C15. \<open>ThreadSafeQueue\<close> is a FIFO queue under every interleaving: the items taken so far followed by the
  queue are the items appended so far, in order.  After \<open>stop\<close> no thread is blocked, and none blocks
  again: \<open>push\<close> returns false, and \<open>wait_and_pop\<close> drains the queue before it returns false.  (The comments of the class
  and of \<open>wait_and_pop\<close> say that it returns false once the queue is stopped, without this exception.)
\<close>

theorem tsq_fifo_and_stop:
  assumes "tq_reach spurious n (s, pcs)"
  shows "tq_in s = tq_out s @ tq_queue s \<and>
    (tq_stopped s \<longrightarrow> (\<forall>t < length pcs. \<not> tq_waits (pcs ! t)) \<and>
       fst (tsq_push x s) = TRetPush False \<and>
       fst (wait_and_pop s) = TRetPop (case tq_queue s of [] \<Rightarrow> None | y # ys \<Rightarrow> Some y))"
  using tq_reach_inv [OF assms]
  by (auto simp: tsq_inv_def count_pc_zero tsq_push_def wait_and_pop_def split: list.split)

section \<open>Lost wake-ups\<close>

lemma tq_section:
  assumes "tq_reach spurious n (s, pcs)" "t < length pcs" "tq_runs (pcs ! t) crit" "crit s = (pc', s', sig)"
    "tq_deliver sig (pcs[t := pc']) pcs'"
  shows "tq_reach spurious n (s', pcs')"
  using tq_reach.step [OF assms(1) tq_step.critical [OF assms(2-5)]] .

lemma notify_choice:
  "t < length pcs \<Longrightarrow> tq_waits (pcs ! t) \<Longrightarrow> pcs' = pcs[t := tq_wake (pcs ! t)] \<Longrightarrow>
     notify_one tq_waits tq_wake pcs pcs'"
  unfolding notify_one_def by blast

lemma notify_nobody: "\<forall>pc \<in> set pcs. \<not> tq_waits pc \<Longrightarrow> notify_one tq_waits tq_wake pcs pcs"
  unfolding notify_one_def by (intro disjI1 conjI refl) simp

definition tsq_of :: "'a list \<Rightarrow> 'a list \<Rightarrow> 'a list \<Rightarrow> 'a tsq" where
  "tsq_of q i out = \<lparr>tq_capacity = 1, tq_stopped = False, tq_queue = q, tq_in = i, tq_out = out\<rparr>"

lemma capacity_one: "tq_reach False 4 (tsq_of [] [] [] :: nat tsq, [TIdle, TIdle, TIdle, TIdle])"
proof -
  have "tq_reach False 4 (tsq_new :: nat tsq, [TIdle, TIdle, TIdle, TIdle])"
    using tq_reach.start [of False 4] by (simp add: numeral_eq_Suc)
  then show ?thesis
    by (rule tq_section [where t = 0 and crit = "set_capacity 1" and pc' = TIdle and sig = TNone])
      (simp_all add: tq_runs.intros set_capacity_def tsq_new_def tsq_of_def)
qed

lemma lost_by_shared_condition:
  "tq_reach False 4 (tsq_of [] [1] [1] :: nat tsq, [TIdle, TPopWait, TIdle, TPushWait 2])"
proof -
  have "tq_reach False 4 (tsq_of [] [] [] :: nat tsq, [TPopWait, TIdle, TIdle, TIdle])"
    by (rule tq_section [OF capacity_one, where t = 0 and crit = wait_and_pop and pc' = TPopWait and sig = TNone])
      (simp_all add: tq_runs.intros wait_and_pop_def tsq_of_def)
  then have "tq_reach False 4 (tsq_of [] [] [] :: nat tsq, [TPopWait, TPopWait, TIdle, TIdle])"
    by (rule tq_section [where t = 1 and crit = wait_and_pop and pc' = TPopWait and sig = TNone])
      (simp_all add: tq_runs.intros wait_and_pop_def tsq_of_def)
  then have "tq_reach False 4 (tsq_of [1] [1] [] :: nat tsq, [TPopWoken, TPopWait, TRetPush True, TIdle])"
    by (rule tq_section [where t = 2 and crit = "tsq_push 1" and pc' = "TRetPush True" and sig = TNotifyOne])
      (simp_all add: tq_runs.intros tsq_push_def tsq_of_def notify_choice [where t = 0] numeral_2_eq_2)
  then have "tq_reach False 4 (tsq_of [1] [1] [] :: nat tsq, [TPopWoken, TPopWait, TRetPush True, TPushWait 2])"
    by (rule tq_section [where t = 3 and crit = "tsq_push 2" and pc' = "TPushWait 2" and sig = TNone])
      (simp_all add: tq_runs.intros tsq_push_def tsq_of_def numeral_3_eq_3)
  then have "tq_reach False 4 (tsq_of [] [1] [1] :: nat tsq, [TRetPop (Some 1), TPopWoken, TRetPush True, TPushWait 2])"
    by (rule tq_section [where t = 0 and crit = wait_and_pop and pc' = "TRetPop (Some 1)" and sig = TNotifyOne])
      (simp_all add: tq_runs.intros wait_and_pop_def tsq_of_def notify_choice [where t = 1])
  then have "tq_reach False 4 (tsq_of [] [1] [1] :: nat tsq, [TRetPop (Some 1), TPopWait, TRetPush True, TPushWait 2])"
    by (rule tq_section [where t = 1 and crit = wait_and_pop and pc' = TPopWait and sig = TNone])
      (simp_all add: tq_runs.intros wait_and_pop_def tsq_of_def)
  from tq_reach.step [OF this tq_step.return_pop [where t = 0]]
  have "tq_reach False 4 (tsq_of [] [1] [1] :: nat tsq, [TIdle, TPopWait, TRetPush True, TPushWait 2])" by simp
  from tq_reach.step [OF this tq_step.return_push [where t = 2]] show ?thesis by (simp add: numeral_2_eq_2)
qed

lemma lost_by_try_pop:
  "tq_reach False 4 (tsq_of [] [1] [1] :: nat tsq, [TPushWait 2, TIdle, TIdle, TIdle])"
proof -
  have "tq_reach False 4 (tsq_of [1] [1] [] :: nat tsq, [TRetPush True, TIdle, TIdle, TIdle])"
    by (rule tq_section [OF capacity_one, where t = 0 and crit = "tsq_push 1" and pc' = "TRetPush True" and sig = TNotifyOne])
      (simp_all add: tq_runs.intros tsq_push_def tsq_of_def notify_nobody)
  from tq_reach.step [OF this tq_step.return_push [where t = 0]]
  have "tq_reach False 4 (tsq_of [1] [1] [] :: nat tsq, [TIdle, TIdle, TIdle, TIdle])" by simp
  then have "tq_reach False 4 (tsq_of [1] [1] [] :: nat tsq, [TPushWait 2, TIdle, TIdle, TIdle])"
    by (rule tq_section [where t = 0 and crit = "tsq_push 2" and pc' = "TPushWait 2" and sig = TNone])
      (simp_all add: tq_runs.intros tsq_push_def tsq_of_def)
  then have "tq_reach False 4 (tsq_of [] [1] [1] :: nat tsq, [TPushWait 2, TRetPop (Some 1), TIdle, TIdle])"
    by (rule tq_section [where t = 1 and crit = tsq_try_pop and pc' = "TRetPop (Some 1)" and sig = TNone])
      (simp_all add: tq_runs.intros tsq_try_pop_def tsq_of_def)
  from tq_reach.step [OF this tq_step.return_pop [where t = 1]] show ?thesis by simp
qed

text \<open>
  C16. \<open>ThreadSafeQueue\<close> loses wake-ups, in two ways, when condition variables wake nobody
  spuriously.  Because \<open>try_pop\<close> does not notify, a producer stays blocked on a queue with room.
  Because producers and consumers share one condition variable and \<open>notify_one\<close> may pick a thread of the
  wrong side, a producer stays blocked on an empty queue while a consumer waits for an item.  In both
  states no thread is on its way and the queue is not stopped, so only a new call from outside can
  continue.  The comment of the class promises that \<open>push\<close> unblocks as consumers drain the queue.
\<close>

theorem tsq_loses_wakeups:
  "(\<exists>(s :: nat tsq) pcs. tq_reach False 4 (s, pcs) \<and> pcs = [TPushWait 2, TIdle, TIdle, TIdle] \<and>
      length (tq_queue s) < tq_capacity s \<and> \<not> tq_stopped s) \<and>
   (\<exists>(s :: nat tsq) pcs. tq_reach False 4 (s, pcs) \<and> pcs = [TIdle, TPopWait, TIdle, TPushWait 2] \<and>
      tq_queue s = [] \<and> 0 < tq_capacity s \<and> \<not> tq_stopped s)"
proof (intro conjI exI)
  show "tq_reach False 4 (tsq_of [] [1] [1] :: nat tsq, [TPushWait 2, TIdle, TIdle, TIdle])" by (rule lost_by_try_pop)
  show "tq_reach False 4 (tsq_of [] [1] [1] :: nat tsq, [TIdle, TPopWait, TIdle, TPushWait 2])"
    by (rule lost_by_shared_condition)
qed (simp_all add: tsq_of_def)

lemma stopped_with_item:
  "tq_reach False 4 ((tsq_of [1] [1] [])\<lparr>tq_stopped := True\<rparr> :: nat tsq, [TRetPush True, TIdle, TIdle, TIdle])"
proof -
  have "tq_reach False 4 (tsq_of [1] [1] [] :: nat tsq, [TRetPush True, TIdle, TIdle, TIdle])"
    by (rule tq_section [OF capacity_one, where t = 0 and crit = "tsq_push 1" and pc' = "TRetPush True" and sig = TNotifyOne])
      (simp_all add: tq_runs.intros tsq_push_def tsq_of_def notify_nobody)
  then show ?thesis
    by (rule tq_section [where t = 1 and crit = tsq_stop and pc' = TIdle and sig = TNotifyAll])
      (simp_all add: tq_runs.intros tsq_stop_def tsq_of_def notify_all_def)
qed

theorem tsq_fifo_and_stop_witness:
  "\<exists>s :: nat tsq. tq_stopped s \<and> tq_queue s = [1] \<and> tq_in s = tq_out s @ tq_queue s \<and>
     fst (tsq_push 2 s) = TRetPush False \<and> fst (wait_and_pop s) = TRetPop (Some 1)"
  using tsq_fifo_and_stop [OF stopped_with_item, of 2]
  by (intro exI [of _ "(tsq_of [1] [1] [])\<lparr>tq_stopped := True\<rparr>"]) (auto simp: tsq_of_def)

end
