(* ===== verification/Thread_Pool.thy ===== *)
theory Thread_Pool
  imports Monitor
begin

text \<open>
  \<open>ThreadPool\<close> of \<open>src/muses/thread_pool.hpp\<close>: the worker loop, \<open>enqueue\<close>, \<open>wait_empty\<close>, \<open>stop_pool\<close>
  and the destructor, for any number of workers and client threads in any interleaving.  Every
  critical section is one step, and so is every notification, because the pool notifies after it has
  released the mutex.  A task is a value of type \<open>'a\<close>; running it is a step that does not touch the
  pool (the packaged task stores exceptions in its future).  \<open>tp_accepted\<close>, \<open>tp_started\<close> and
  \<open>tp_finished\<close> are history variables: the tasks that \<open>enqueue\<close> took, that workers took out and that
  they completed, in order.
\<close>

section \<open>State and steps\<close>

record 'a tpool =
  tp_tasks :: "'a list"
  tp_stop :: bool
  tp_outstanding :: int
  tp_accepted :: "'a list"
  tp_started :: "'a list"
  tp_finished :: "'a list"

datatype 'a tppc =
    WEval              \<comment> \<open>worker about to acquire the mutex and evaluate the wait's predicate\<close>
  | WWait              \<comment> \<open>worker blocked on \<open>condition\<close>\<close>
  | WRun 'a            \<comment> \<open>worker running a task\<close>
  | WDone              \<comment> \<open>worker about to decrement \<open>outstanding\<close>\<close>
  | WNotify            \<comment> \<open>worker about to notify \<open>drained_condition\<close>\<close>
  | WExit
  | CIdle              \<comment> \<open>client thread between calls\<close>
  | CNotify            \<comment> \<open>\<open>enqueue\<close> about to notify \<open>condition\<close>\<close>
  | CDrainWait         \<comment> \<open>\<open>wait_empty\<close> blocked on \<open>drained_condition\<close>\<close>
  | CDrainEval
  | CStopWorkers bool  \<comment> \<open>\<open>stop_pool\<close> about to notify \<open>condition\<close>; from the destructor or not\<close>
  | CStopDrained bool
  | CJoin              \<comment> \<open>the destructor joining the workers\<close>
  | CDestroyed
  | CRet bool          \<comment> \<open>\<open>enqueue\<close> returning a valid or an invalid future\<close>

definition pool_new :: "'a tpool" where
  "pool_new = \<lparr>tp_tasks = [], tp_stop = False, tp_outstanding = 0, tp_accepted = [], tp_started = [], tp_finished = []\<rparr>"

definition worker_section :: "'a tpool \<Rightarrow> 'a tppc \<times> 'a tpool" where
  "worker_section s =
     (if \<not> (tp_stop s \<or> tp_tasks s \<noteq> []) then (WWait, s)
      else if tp_stop s \<and> tp_tasks s = [] then (WExit, s)
      else (WRun (hd (tp_tasks s)), s\<lparr>tp_tasks := tl (tp_tasks s), tp_started := tp_started s @ [hd (tp_tasks s)]\<rparr>))"

definition worker_finish :: "'a tpool \<Rightarrow> 'a tppc \<times> 'a tpool" where
  "worker_finish s = (WNotify, s\<lparr>tp_outstanding := tp_outstanding s - 1\<rparr>)"

definition pool_enqueue :: "'a \<Rightarrow> 'a tpool \<Rightarrow> 'a tppc \<times> 'a tpool" where
  "pool_enqueue a s =
     (if tp_stop s then (CRet False, s)
      else (CNotify, s\<lparr>tp_tasks := tp_tasks s @ [a], tp_outstanding := tp_outstanding s + 1,
                       tp_accepted := tp_accepted s @ [a]\<rparr>))"

definition wait_empty :: "'a tpool \<Rightarrow> 'a tppc \<times> 'a tpool" where
  "wait_empty s = (if tp_outstanding s = 0 then (CIdle, s) else (CDrainWait, s))"

definition stop_section :: "bool \<Rightarrow> 'a tpool \<Rightarrow> 'a tppc \<times> 'a tpool" where
  "stop_section destroy s = (CStopWorkers destroy, s\<lparr>tp_stop := True\<rparr>)"

fun pool_waits :: "'a tppc \<Rightarrow> bool" where
  "pool_waits WWait = True"
| "pool_waits _ = False"

fun drain_waits :: "'a tppc \<Rightarrow> bool" where
  "drain_waits CDrainWait = True"
| "drain_waits _ = False"

fun pool_wake :: "'a tppc \<Rightarrow> 'a tppc" where
  "pool_wake WWait = WEval"
| "pool_wake CDrainWait = CDrainEval"
| "pool_wake pc = pc"

type_synonym 'a tp_sys = "'a tpool \<times> 'a tppc list"

text \<open>The steps of one thread: its critical sections, and the end of a task.\<close>

inductive tp_local :: "'a tpool \<Rightarrow> 'a tppc \<Rightarrow> 'a tpool \<Rightarrow> 'a tppc \<Rightarrow> bool" where
  worker: "worker_section s = (pc', s') \<Longrightarrow> tp_local s WEval s' pc'"
| run: "tp_local s (WRun a) (s\<lparr>tp_finished := tp_finished s @ [a]\<rparr>) WDone"
| finish: "worker_finish s = (pc', s') \<Longrightarrow> tp_local s WDone s' pc'"
| enqueue: "pool_enqueue a s = (pc', s') \<Longrightarrow> tp_local s CIdle s' pc'"
| return: "tp_local s (CRet b) s CIdle"
| wait_empty: "wait_empty s = (pc', s') \<Longrightarrow> tp_local s CIdle s' pc'"
| drained: "wait_empty s = (pc', s') \<Longrightarrow> tp_local s CDrainEval s' pc'"
| stop: "stop_section destroy s = (pc', s') \<Longrightarrow> tp_local s CIdle s' pc'"

text \<open>A worker has terminated, or the thread is none.\<close>

fun exited :: "'a tppc \<Rightarrow> bool" where
  "exited WEval = False" | "exited WWait = False" | "exited (WRun a) = False"
| "exited WDone = False" | "exited WNotify = False" | "exited _ = True"

inductive tp_step :: "'a tp_sys \<Rightarrow> 'a tp_sys \<Rightarrow> bool" where
  local: "\<lbrakk>t < length pcs; tp_local s (pcs ! t) s' pc'\<rbrakk> \<Longrightarrow> tp_step (s, pcs) (s', pcs[t := pc'])"
| notify_worker: "\<lbrakk>t < length pcs; pcs ! t = CNotify; notify_one pool_waits pool_wake (pcs[t := CRet True]) pcs'\<rbrakk>
     \<Longrightarrow> tp_step (s, pcs) (s, pcs')"
| notify_drained: "\<lbrakk>t < length pcs; pcs ! t = WNotify\<rbrakk>
     \<Longrightarrow> tp_step (s, pcs) (s, notify_all drain_waits pool_wake (pcs[t := WEval]))"
| notify_workers: "\<lbrakk>t < length pcs; pcs ! t = CStopWorkers d\<rbrakk>
     \<Longrightarrow> tp_step (s, pcs) (s, notify_all pool_waits pool_wake (pcs[t := CStopDrained d]))"
| notify_stopped: "\<lbrakk>t < length pcs; pcs ! t = CStopDrained d\<rbrakk>
     \<Longrightarrow> tp_step (s, pcs) (s, notify_all drain_waits pool_wake (pcs[t := if d then CJoin else CIdle]))"
| join: "\<lbrakk>t < length pcs; pcs ! t = CJoin; \<forall>u < length pcs. exited (pcs ! u)\<rbrakk>
     \<Longrightarrow> tp_step (s, pcs) (s, pcs[t := CDestroyed])"
| wakeup: "\<lbrakk>t < length pcs; pool_waits (pcs ! t) \<or> drain_waits (pcs ! t)\<rbrakk>
     \<Longrightarrow> tp_step (s, pcs) (s, pcs[t := pool_wake (pcs ! t)])"

inductive tp_reach :: "nat \<Rightarrow> nat \<Rightarrow> 'a tp_sys \<Rightarrow> bool" for workers clients where
  start: "tp_reach workers clients (pool_new, replicate workers WEval @ replicate clients CIdle)"
| step: "tp_reach workers clients c \<Longrightarrow> tp_step c c' \<Longrightarrow> tp_reach workers clients c'"

section \<open>Invariant\<close>

text \<open>Threads on their way to take a task, or to wake up one that will.\<close>

fun pool_woken :: "'a tppc \<Rightarrow> bool" where
  "pool_woken WEval = True"
| "pool_woken CNotify = True"
| "pool_woken _ = False"

fun running :: "'a tppc \<Rightarrow> bool" where
  "running (WRun a) = True"
| "running WDone = True"
| "running _ = False"

fun run_of :: "'a tppc \<Rightarrow> 'a option" where
  "run_of (WRun a) = Some a"
| "run_of _ = None"

interpretation pw: wait_set pool_waits pool_woken pool_wake
proof
  show "pool_woken (pool_wake pc)" if "pool_waits pc" for pc :: "'a tppc" using that by (cases pc) auto
  show "\<not> pool_waits pc" if "pool_woken pc" for pc :: "'a tppc" using that by (cases pc) auto
qed

definition pool_inv :: "'a tp_sys \<Rightarrow> bool" where
  [muses_inv]: "pool_inv c \<longleftrightarrow> (case c of (s, pcs) \<Rightarrow>
     tp_accepted s = tp_started s @ tp_tasks s \<and>
     mset (tp_started s) = mset (tp_finished s) + mset (List.map_filter run_of pcs) \<and>
     tp_outstanding s = int (length (tp_tasks s)) + int (count_pc running pcs) \<and>
     pw.served (length (tp_tasks s)) pcs \<and>
     (tp_stop s \<longrightarrow> 0 < count_pc pool_waits pcs \<longrightarrow> 0 < count_pc (\<lambda>pc. \<exists>d. pc = CStopWorkers d) pcs) \<and>
     (0 < count_pc drain_waits pcs \<longrightarrow> tp_outstanding s \<noteq> 0 \<or> 0 < count_pc (\<lambda>pc. pc = WNotify) pcs) \<and>
     (0 < count_pc (\<lambda>pc. pc = WExit) pcs \<longrightarrow> tp_stop s \<and> tp_tasks s = []))"

abbreviation stopping :: "'a tppc \<Rightarrow> bool" where
  "stopping pc \<equiv> (\<exists>d. pc = CStopWorkers d)"

lemma pool_invD:
  assumes "pool_inv (s, pcs)"
  shows "tp_accepted s = tp_started s @ tp_tasks s"
    "mset (tp_started s) = mset (tp_finished s) + mset (List.map_filter run_of pcs)"
    "tp_outstanding s = int (length (tp_tasks s)) + int (count_pc running pcs)"
    "pw.served (length (tp_tasks s)) pcs"
    "tp_stop s \<Longrightarrow> 0 < count_pc pool_waits pcs \<Longrightarrow> 0 < count_pc stopping pcs"
    "0 < count_pc drain_waits pcs \<Longrightarrow> tp_outstanding s \<noteq> 0 \<or> 0 < count_pc (\<lambda>pc. pc = WNotify) pcs"
    "0 < count_pc (\<lambda>pc. pc = WExit) pcs \<Longrightarrow> tp_stop s \<and> tp_tasks s = []"
  using assms by (auto simp: pool_inv_def)

lemma worker_section_inv:
  assumes inv: "pool_inv (s, pcs)" and t: "t < length pcs" "pcs ! t = WEval" and sec: "worker_section s = (pc', s')"
  shows "pool_inv (s', pcs[t := pc'])"
proof -
  note d = pool_invD [OF inv]
  note up = count_pc_update [OF t(1), where pc = pc'] and mf = map_filter_update [OF t(1), of run_of pc']
  consider (wait) "\<not> tp_stop s" "tp_tasks s = []" "pc' = WWait" "s' = s"
    | (quit) "tp_stop s" "tp_tasks s = []" "pc' = WExit" "s' = s"
    | (take) a as where "tp_tasks s = a # as" "pc' = WRun a" "s' = s\<lparr>tp_tasks := as, tp_started := tp_started s @ [a]\<rparr>"
    using sec by (cases "tp_tasks s") (auto simp: worker_section_def split: if_splits)
  then show ?thesis
  proof cases
    case wait
    then show ?thesis
      using d up [of running] up [of drain_waits] up [of "\<lambda>pc. pc = WNotify"] up [of "\<lambda>pc. pc = WExit"] mf t(2)
      by (auto simp: pool_inv_def pw.served_zero)
  next
    case quit
    then show ?thesis
      using d up [of running] up [of drain_waits] up [of "\<lambda>pc. pc = WNotify"] up [of pool_waits] up [of stopping] mf t(2)
      by (auto simp: pool_inv_def pw.served_zero)
  next
    case take
    have "pw.served (length as) (pcs[t := pc'])"
      using d(4) take by (intro pw.served_take [OF _ t(1), of "length (tp_tasks s)"]) auto
    then show ?thesis
      using d take up [of running] up [of drain_waits] up [of "\<lambda>pc. pc = WNotify"] up [of "\<lambda>pc. pc = WExit"]
        up [of pool_waits] up [of stopping] mf t(2)
      by (auto simp: pool_inv_def)
  qed
qed

lemma pool_invI:
  assumes "tp_accepted s = tp_started s @ tp_tasks s"
    "mset (tp_started s) = mset (tp_finished s) + mset (List.map_filter run_of pcs)"
    "tp_outstanding s = int (length (tp_tasks s)) + int (count_pc running pcs)"
    "pw.served (length (tp_tasks s)) pcs"
    "tp_stop s \<Longrightarrow> 0 < count_pc pool_waits pcs \<Longrightarrow> 0 < count_pc stopping pcs"
    "0 < count_pc drain_waits pcs \<Longrightarrow> tp_outstanding s \<noteq> 0 \<or> 0 < count_pc (\<lambda>pc. pc = WNotify) pcs"
    "0 < count_pc (\<lambda>pc. pc = WExit) pcs \<Longrightarrow> tp_stop s \<and> tp_tasks s = []"
  shows "pool_inv (s, pcs)"
  using assms by (simp add: pool_inv_def)

lemma quiet_inv:
  assumes inv: "pool_inv (s, pcs)" and t: "t < length pcs"
    and old: "\<not> pool_woken (pcs ! t)" "\<not> running (pcs ! t)" "\<not> stopping (pcs ! t)" "pcs ! t \<noteq> WNotify"
    and new: "\<not> running pc'" "\<not> pool_waits pc'" "pc' \<noteq> WExit" "drain_waits pc' \<longrightarrow> tp_outstanding s \<noteq> 0"
  shows "pool_inv (s, pcs[t := pc'])"
proof -
  note d = pool_invD [OF inv]
  note up = count_pc_update [OF t, where pc = pc'] and mf = map_filter_update [OF t, of run_of pc']
  show ?thesis
  proof (rule pool_invI)
    have "run_of (pcs ! t) = None" using old(2) by (cases "pcs ! t") simp_all
    moreover have "run_of pc' = None" using new(1) by (cases pc') simp_all
    ultimately show "mset (tp_started s) = mset (tp_finished s) + mset (List.map_filter run_of (pcs[t := pc']))"
      using mf d(2) by simp
    show "tp_outstanding s = int (length (tp_tasks s)) + int (count_pc running (pcs[t := pc']))"
      using up [of running] old(2) new(1) d(3) by simp
    show "pw.served (length (tp_tasks s)) (pcs[t := pc'])" using d(4) t old(1) new(2) by (rule pw.served_pass)
    show "0 < count_pc stopping (pcs[t := pc'])" if "tp_stop s" "0 < count_pc pool_waits (pcs[t := pc'])"
      using d(5) [OF that(1)] that(2) up [of stopping] up [of pool_waits] old(3) new(2) by simp
    show "tp_outstanding s \<noteq> 0 \<or> 0 < count_pc (\<lambda>pc. pc = WNotify) (pcs[t := pc'])"
      if "0 < count_pc drain_waits (pcs[t := pc'])"
      using d(6) that up [of drain_waits] up [of "\<lambda>pc. pc = WNotify"] old(4) new(4) by (cases "drain_waits pc'") simp_all
    show "tp_stop s \<and> tp_tasks s = []" if "0 < count_pc (\<lambda>pc. pc = WExit) (pcs[t := pc'])"
      using d(7) that up [of "\<lambda>pc. pc = WExit"] new(3) by simp
  qed (rule d(1))
qed

lemma pool_enqueue_inv:
  assumes inv: "pool_inv (s, pcs)" and t: "t < length pcs" "pcs ! t = CIdle" and sec: "pool_enqueue a s = (pc', s')"
  shows "pool_inv (s', pcs[t := pc'])"
proof (cases "tp_stop s")
  case True
  then show ?thesis using quiet_inv [OF inv t(1), of pc'] t(2) sec by (auto simp: pool_enqueue_def)
next
  case False
  note d = pool_invD [OF inv]
  note up = count_pc_update [OF t(1), where pc = CNotify] and mf = map_filter_update [OF t(1), of run_of CNotify]
  have eq: "pc' = CNotify" "s' = s\<lparr>tp_tasks := tp_tasks s @ [a], tp_outstanding := tp_outstanding s + 1,
      tp_accepted := tp_accepted s @ [a]\<rparr>"
    using sec False by (auto simp: pool_enqueue_def)
  show ?thesis
    unfolding eq
  proof (rule pool_invI)
    show "pw.served (length (tp_tasks (s\<lparr>tp_tasks := tp_tasks s @ [a], tp_outstanding := tp_outstanding s + 1,
        tp_accepted := tp_accepted s @ [a]\<rparr>))) (pcs[t := CNotify])"
      using d(4) up [of pool_waits] up [of pool_woken] t(2) by (simp add: pw.served_def)
  qed (use d up [of running] up [of "\<lambda>pc. pc = WExit"] mf t(2) False in simp_all)
qed

lemma pool_stop_inv:
  assumes inv: "pool_inv (s, pcs)" and t: "t < length pcs" "pcs ! t = CIdle"
  shows "pool_inv (s\<lparr>tp_stop := True\<rparr>, pcs[t := CStopWorkers destroy])"
proof -
  note d = pool_invD [OF inv]
  let ?q = "pcs[t := CStopWorkers destroy]"
  note up = count_pc_update [OF t(1), where pc = "CStopWorkers destroy"]
    and mf = map_filter_update [OF t(1), of run_of "CStopWorkers destroy"]
  show ?thesis
  proof (rule pool_invI)
    show "0 < count_pc stopping ?q" using count_pc_pos [of t ?q stopping] t(1) by simp
    show "pw.served (length (tp_tasks (s\<lparr>tp_stop := True\<rparr>))) ?q"
      using d(4) t pw.served_pass [of _ pcs t] by simp
  qed (use d up [of running] up [of "\<lambda>pc. pc = WExit"] up [of drain_waits] up [of "\<lambda>pc. pc = WNotify"] mf t(2) in simp_all)
qed

lemma tp_local_inv:
  assumes inv: "pool_inv (s, pcs)" and t: "t < length pcs" and l: "tp_local s (pcs ! t) s' pc'"
  shows "pool_inv (s', pcs[t := pc'])"
proof -
  note d = pool_invD [OF inv]
  note up = count_pc_update [OF t, where pc = pc'] and mf = map_filter_update [OF t, of run_of pc']
  note ups = up [of running] up [of drain_waits] up [of "\<lambda>pc. pc = WNotify"] up [of "\<lambda>pc. pc = WExit"]
    up [of pool_waits] up [of stopping] up [of pool_woken]
  show ?thesis
    using l
  proof cases
    case worker
    then show ?thesis using worker_section_inv [OF inv t] by simp
  next
    case (run a)
    then show ?thesis using d ups mf by (auto simp: pool_inv_def pw.served_def)
  next
    case finish
    then show ?thesis using d ups mf by (auto simp: pool_inv_def pw.served_def worker_finish_def)
  next
    case (enqueue a)
    then show ?thesis using pool_enqueue_inv [OF inv t] by simp
  next
    case stop
    then show ?thesis using pool_stop_inv [OF inv t] by (auto simp: stop_section_def)
  qed (use quiet_inv [OF inv t] in \<open>auto simp: wait_empty_def split: if_splits\<close>)
qed

lemma pool_wake_other [simp]:
  "run_of (pool_wake pc) = run_of pc" "running (pool_wake pc) = running pc" "stopping (pool_wake pc) = stopping pc"
  "pool_wake pc = WNotify \<longleftrightarrow> pc = WNotify" "pool_wake pc = WExit \<longleftrightarrow> pc = WExit"
  "\<not> pool_waits (pool_wake pc)" "\<not> drain_waits (pool_wake pc)"
  "drain_waits pc \<Longrightarrow> pool_woken (pool_wake pc) = pool_woken pc" "drain_waits pc \<Longrightarrow> \<not> pool_waits pc"
  "pool_waits pc \<Longrightarrow> \<not> drain_waits pc"
  by (cases pc; simp)+

lemma notify_all_map_filter: "List.map_filter run_of (notify_all waits pool_wake pcs) = List.map_filter run_of pcs"
  by (induction pcs) (simp_all add: notify_all_def List.map_filter_simps split: option.split)

lemma notify_all_drain_inv:
  assumes "pool_inv (s, pcs)"
  shows "pool_inv (s, notify_all drain_waits pool_wake pcs)"
proof -
  have "count_pc P (notify_all drain_waits pool_wake pcs) = count_pc P pcs"
    if "\<And>pc. drain_waits pc \<Longrightarrow> P (pool_wake pc) = P pc" for P
    using that by (rule notify_all_count)
  then show ?thesis
    using pool_invD [OF assms] notify_all_none [of drain_waits pool_wake pcs]
    by (intro pool_invI) (simp_all add: notify_all_map_filter pw.served_def)
qed

lemma notify_all_workers_inv:
  assumes "pool_inv (s, pcs)"
  shows "pool_inv (s, notify_all pool_waits pool_wake pcs)"
proof -
  have "count_pc P (notify_all pool_waits pool_wake pcs) = count_pc P pcs"
    if "\<And>pc. pool_waits pc \<Longrightarrow> P (pool_wake pc) = P pc" for P
    using that by (rule notify_all_count)
  then show ?thesis
    using pool_invD [OF assms] notify_all_none [of pool_waits pool_wake pcs] pw.served_all
    by (intro pool_invI) (simp_all add: notify_all_map_filter)
qed

text \<open>The notifier leaves its program point, weakening only what the notification is about to repair.\<close>

lemma notify_drained_inv:
  assumes inv: "pool_inv (s, pcs)" and t: "t < length pcs" "pcs ! t = WNotify"
  shows "pool_inv (s, notify_all drain_waits pool_wake (pcs[t := WEval]))"
proof -
  note d = pool_invD [OF inv]
  note up = count_pc_update [OF t(1), where pc = WEval] and mf = map_filter_update [OF t(1), of run_of WEval]
  have c: "count_pc P (notify_all drain_waits pool_wake (pcs[t := WEval])) = count_pc P (pcs[t := WEval])"
    if "\<And>pc. drain_waits pc \<Longrightarrow> P (pool_wake pc) = P pc" for P
    using that by (rule notify_all_count)
  have "pw.served (length (tp_tasks s)) (pcs[t := WEval])"
    using d(4) t by (intro pw.served_pass) simp_all
  then show ?thesis
    using d up [of running] up [of "\<lambda>pc. pc = WExit"] up [of pool_waits] up [of stopping] mf t(2)
      notify_all_none [of drain_waits pool_wake "pcs[t := WEval]"]
    by (intro pool_invI) (simp_all add: notify_all_map_filter pw.served_def c)
qed

lemma notify_workers_inv:
  assumes inv: "pool_inv (s, pcs)" and t: "t < length pcs" "pcs ! t = CStopWorkers d"
  shows "pool_inv (s, notify_all pool_waits pool_wake (pcs[t := CStopDrained d]))"
proof -
  note d = pool_invD [OF inv]
  note up = count_pc_update [OF t(1), where pc = "CStopDrained d"]
    and mf = map_filter_update [OF t(1), of run_of "CStopDrained d"]
  have c: "count_pc P (notify_all pool_waits pool_wake (pcs[t := CStopDrained d])) = count_pc P (pcs[t := CStopDrained d])"
    if "\<And>pc. pool_waits pc \<Longrightarrow> P (pool_wake pc) = P pc" for P
    using that by (rule notify_all_count)
  show ?thesis
    using d up [of running] up [of "\<lambda>pc. pc = WExit"] up [of drain_waits] up [of "\<lambda>pc. pc = WNotify"] mf t(2) pw.served_all
      notify_all_none [of pool_waits pool_wake "pcs[t := CStopDrained d]"]
    by (intro pool_invI) (simp_all add: notify_all_map_filter c)
qed

lemma notify_one_map_filter:
  assumes "notify_one pool_waits pool_wake pcs pcs'"
  shows "mset (List.map_filter run_of pcs') = mset (List.map_filter run_of pcs)"
proof -
  have "mset (List.map_filter run_of (pcs[u := pool_wake (pcs ! u)])) = mset (List.map_filter run_of pcs)"
    if "u < length pcs" for u
    using map_filter_update [OF that, of run_of "pool_wake (pcs ! u)"] by simp
  then show ?thesis using assms unfolding notify_one_def by metis
qed

lemma notify_worker_inv:
  assumes inv: "pool_inv (s, pcs)" and t: "t < length pcs" "pcs ! t = CNotify"
    and n: "notify_one pool_waits pool_wake (pcs[t := CRet True]) pcs'"
  shows "pool_inv (s, pcs')"
proof -
  note d = pool_invD [OF inv]
  let ?q = "pcs[t := CRet True]"
  note up = count_pc_update [OF t(1), where pc = "CRet True"] and mf = map_filter_update [OF t(1), of run_of "CRet True"]
  have c: "count_pc P pcs' = count_pc P ?q" if "\<And>pc. pool_waits pc \<Longrightarrow> P (pool_wake pc) = P pc" for P
    using n that by (rule notify_one_other)
  have "pw.served (length (tp_tasks s) - 1) ?q"
    using d(4) by (intro pw.served_take [OF _ t(1)]) auto
  then have s: "pw.served (length (tp_tasks s)) pcs'"
    using pw.served_notify [OF _ n] by (rule_tac pw.served_mono [of "Suc (length (tp_tasks s) - 1)"]) auto
  have w: "0 < count_pc pool_waits pcs' \<Longrightarrow> 0 < count_pc pool_waits pcs"
  proof -
    assume "0 < count_pc pool_waits pcs'"
    moreover have "count_pc pool_waits (?q[u := pool_wake (?q ! u)]) \<le> count_pc pool_waits ?q" if "u < length ?q" for u
      using count_pc_update [OF that, of pool_waits "pool_wake (?q ! u)"] by simp
    then have "count_pc pool_waits pcs' \<le> count_pc pool_waits ?q"
      using n unfolding notify_one_def by (metis order_refl)
    ultimately show ?thesis using up [of pool_waits] t(2) by simp
  qed
  show ?thesis
    using d s w up [of running] up [of "\<lambda>pc. pc = WExit"] up [of drain_waits] up [of "\<lambda>pc. pc = WNotify"] up [of stopping]
      mf t(2) notify_one_map_filter [OF n]
    by (intro pool_invI) (simp_all add: c)
qed

lemma tp_step_inv: "tp_step c c' \<Longrightarrow> pool_inv c \<Longrightarrow> pool_inv c'"
proof (induction rule: tp_step.induct)
  case (local t pcs s s' pc')
  then show ?case using tp_local_inv by blast
next
  case (notify_worker t pcs pcs' s)
  then show ?case using notify_worker_inv by blast
next
  case (notify_drained t pcs s)
  then show ?case using notify_drained_inv by blast
next
  case (notify_workers t pcs d s)
  then show ?case using notify_workers_inv by blast
next
  case (notify_stopped t pcs d s)
  then show ?case
    using quiet_inv [of s pcs t "if d then CJoin else CIdle"] by (intro notify_all_drain_inv) simp
next
  case (join t pcs s)
  then show ?case by (intro quiet_inv) simp_all
next
  case (wakeup t pcs s)
  then show ?case
    using quiet_inv [of s pcs t "pool_wake (pcs ! t)"] by (cases "pcs ! t") simp_all
qed

lemma count_pc_append: "count_pc P (xs @ ys) = count_pc P xs + count_pc P ys"
  by (simp add: count_pc_def)

lemma map_filter_replicate: "f pc = None \<Longrightarrow> List.map_filter f (replicate n pc) = []"
  by (induction n) (simp_all add: List.map_filter_simps)

lemma map_filter_append: "List.map_filter f (xs @ ys) = List.map_filter f xs @ List.map_filter f ys"
  by (simp add: List.map_filter_def)

lemma tp_reach_inv: "tp_reach workers clients c \<Longrightarrow> pool_inv c"
proof (induction rule: tp_reach.induct)
  case start
  then show ?case
    by (intro pool_invI) (simp_all add: pool_new_def pw.served_zero count_pc_append map_filter_append map_filter_replicate)
next
  case (step c c')
  then show ?case using tp_step_inv by blast
qed

section \<open>Order, accounting and progress\<close>

fun is_worker :: "'a tppc \<Rightarrow> bool" where
  "is_worker WEval = True" | "is_worker WWait = True" | "is_worker (WRun a) = True" | "is_worker WDone = True"
| "is_worker WNotify = True" | "is_worker WExit = True" | "is_worker _ = False"

lemma is_worker_wake [simp]: "is_worker (pool_wake pc) = is_worker pc"
  by (cases pc) simp_all

lemma tp_local_worker: "tp_local s pc s' pc' \<Longrightarrow> is_worker pc' = is_worker pc"
  by (auto elim!: tp_local.cases
      simp: worker_section_def worker_finish_def pool_enqueue_def wait_empty_def stop_section_def split: if_splits)

lemma count_worker_same:
  "t < length pcs \<Longrightarrow> is_worker pc = is_worker (pcs ! t) \<Longrightarrow> count_pc is_worker (pcs[t := pc]) = count_pc is_worker pcs"
  using count_pc_update [of t pcs is_worker pc] by simp

lemma tp_step_workers: "tp_step c c' \<Longrightarrow> count_pc is_worker (snd c') = count_pc is_worker (snd c)"
proof (induction rule: tp_step.induct)
  case (local t pcs s s' pc')
  then show ?case using tp_local_worker [OF local(2)] count_worker_same [OF local(1)] by simp
next
  case (notify_worker t pcs pcs' s)
  then show ?case using count_worker_same [of t pcs] notify_one_other [OF notify_worker(3), of is_worker] by simp
qed (simp_all add: count_worker_same notify_all_count)

lemma tp_reach_workers: "tp_reach workers clients c \<Longrightarrow> count_pc is_worker (snd c) = workers"
proof (induction rule: tp_reach.induct)
  case start
  then show ?case by (simp add: count_pc_append) (simp add: count_pc_def)
next
  case (step c c')
  then show ?case using tp_step_workers by metis
qed

text \<open>
  C17. The pool runs every accepted task exactly once, in the order of submission, whatever the
  interleaving: the tasks workers took out, followed by the queue, are the tasks \<open>enqueue\<close> accepted, in
  order; the tasks taken out are the completed ones and the ones some worker is running;
  \<open>outstanding\<close> counts the queued and the unfinished ones and never goes below zero; and a worker
  terminates only after \<open>stop_pool\<close>, with the queue drained.
\<close>

theorem pool_runs_each_task_once:
  assumes "tp_reach workers clients (s, pcs)"
  shows "tp_accepted s = tp_started s @ tp_tasks s \<and>
    mset (tp_started s) = mset (tp_finished s) + mset (List.map_filter run_of pcs) \<and>
    tp_outstanding s = int (length (tp_tasks s) + count_pc running pcs) \<and>
    (t < length pcs \<and> pcs ! t = WExit \<longrightarrow> tp_stop s \<and> tp_tasks s = [])"
  using pool_invD [OF tp_reach_inv [OF assms]] count_pc_pos [of t pcs "\<lambda>pc. pc = WExit"] by simp

text \<open>Nothing is under way: every thread is blocked, terminated or between calls.\<close>

definition at_rest :: "'a tppc list \<Rightarrow> bool" where
  "at_rest pcs \<longleftrightarrow> (\<forall>pc \<in> set pcs. pc \<in> {WWait, WExit, CIdle, CDrainWait, CJoin, CDestroyed})"

lemma at_rest_none: "at_rest pcs \<Longrightarrow> (\<And>pc. P pc \<Longrightarrow> pc \<notin> {WWait, WExit, CIdle, CDrainWait, CJoin, CDestroyed}) \<Longrightarrow> count_pc P pcs = 0"
  unfolding at_rest_def count_pc_def by (auto simp: filter_empty_conv)

text \<open>
  C18. No task and no waiter is forgotten.  In every reachable state of a pool with at least one
  worker in which nothing is under way (all threads are blocked, terminated or between calls), the
  queue is empty, every accepted task has been completed, no \<open>wait_empty\<close> is still blocked, and if
  the pool was stopped every worker has terminated, so that the destructor's joins return.
\<close>

theorem pool_drains:
  assumes "tp_reach workers clients (s, pcs)" "0 < workers" "at_rest pcs"
  shows "tp_tasks s = [] \<and> tp_outstanding s = 0 \<and> mset (tp_finished s) = mset (tp_accepted s) \<and>
    CDrainWait \<notin> set pcs \<and> (tp_stop s \<longrightarrow> WWait \<notin> set pcs)"
proof -
  note d = pool_invD [OF tp_reach_inv [OF assms(1)]]
  note none = at_rest_none [OF assms(3)]
  have zero: "count_pc running pcs = 0" "count_pc pool_woken pcs = 0" "count_pc stopping pcs = 0"
    "count_pc (\<lambda>pc. pc = WNotify) pcs = 0"
    by (rule none; auto elim: running.elims pool_woken.elims)+
  have "run_of pc = None" if "pc \<in> set pcs" for pc using that assms(3) by (auto simp: at_rest_def)
  then have mf: "List.map_filter run_of pcs = []" by (simp add: List.map_filter_def filter_empty_conv)
  obtain t where t: "t < length pcs" "is_worker (pcs ! t)"
    using tp_reach_workers [OF assms(1)] assms(2) count_pc_zero [of is_worker pcs] by auto
  have "pcs ! t \<in> {WWait, WExit, CIdle, CDrainWait, CJoin, CDestroyed}" using assms(3) t(1) by (simp add: at_rest_def)
  then consider "pcs ! t = WWait" | "pcs ! t = WExit" using t(2) by auto
  then have tasks: "tp_tasks s = []"
  proof cases
    case 1
    then show ?thesis using pw.served_quiet [OF d(4) t(1)] zero(2) by (simp add: count_pc_zero)
  next
    case 2
    then show ?thesis using d(7) count_pc_pos [OF t(1), of "\<lambda>pc. pc = WExit"] by simp
  qed
  have "CDrainWait \<notin> set pcs"
    using d(3,6) tasks zero(1,4) count_pc_pos [of _ pcs drain_waits] by (auto simp: in_set_conv_nth)
  moreover have "tp_stop s \<Longrightarrow> WWait \<notin> set pcs"
    using d(5) zero(3) count_pc_pos [of _ pcs pool_waits] by (auto simp: in_set_conv_nth)
  ultimately show ?thesis using d(1-3) tasks zero(1) mf by simp
qed

text \<open>A run of one worker: the client submits a task, the worker runs it and goes to wait.\<close>

definition pool_after_one :: "nat tpool" where
  "pool_after_one = \<lparr>tp_tasks = [], tp_stop = False, tp_outstanding = 0, tp_accepted = [5], tp_started = [5], tp_finished = [5]\<rparr>"

lemma tp_local_reach:
  "\<lbrakk>tp_reach w c (s, pcs); t < length pcs; tp_local s (pcs ! t) s' pc'; pcs' = pcs[t := pc']\<rbrakk> \<Longrightarrow> tp_reach w c (s', pcs')"
  using tp_reach.step tp_step.local by blast

lemma pool_example: "tp_reach 1 1 (pool_after_one, [WWait, CIdle])"
proof -
  let ?s1 = "\<lparr>tp_tasks = [5], tp_stop = False, tp_outstanding = 1, tp_accepted = [5], tp_started = [], tp_finished = []\<rparr>"
  let ?s2 = "\<lparr>tp_tasks = [], tp_stop = False, tp_outstanding = 1, tp_accepted = [5], tp_started = [5], tp_finished = []\<rparr>"
  have "tp_reach 1 1 (pool_new, [WEval, CIdle])" using tp_reach.start [of 1 1] by simp
  then have "tp_reach 1 1 (?s1, [WEval, CNotify])"
    by (rule tp_local_reach [where t = 1]) (simp_all add: tp_local.enqueue [of 5] pool_enqueue_def pool_new_def)
  from tp_reach.step [OF this tp_step.notify_worker [where t = 1 and pcs' = "[WEval, CRet True]"]]
  have "tp_reach 1 1 (?s1, [WEval, CRet True])" by (simp add: notify_one_def less_Suc_eq)
  then have "tp_reach 1 1 (?s1, [WEval, CIdle])"
    by (rule tp_local_reach [where t = 1]) (simp_all add: tp_local.return)
  then have "tp_reach 1 1 (?s2, [WRun 5, CIdle])"
    by (rule tp_local_reach [where t = 0]) (simp_all add: tp_local.worker worker_section_def)
  then have "tp_reach 1 1 (?s2\<lparr>tp_finished := [5]\<rparr>, [WDone, CIdle])"
    by (rule tp_local_reach [where t = 0]) (use tp_local.run [of ?s2 5] in simp_all)
  then have "tp_reach 1 1 (pool_after_one, [WNotify, CIdle])"
    by (rule tp_local_reach [where t = 0]) (simp_all add: tp_local.finish worker_finish_def pool_after_one_def)
  from tp_reach.step [OF this tp_step.notify_drained [where t = 0]]
  have "tp_reach 1 1 (pool_after_one, [WEval, CIdle])" by (simp add: notify_all_def)
  then show ?thesis
    by (rule tp_local_reach [where t = 0]) (simp_all add: tp_local.worker worker_section_def pool_after_one_def)
qed

theorem pool_runs_each_task_once_witness:
  "tp_accepted pool_after_one = tp_started pool_after_one @ tp_tasks pool_after_one \<and> tp_started pool_after_one = [5]"
  using pool_runs_each_task_once [OF pool_example, of 0] by (simp add: pool_after_one_def)

theorem pool_drains_witness: "mset (tp_finished pool_after_one) = mset (tp_accepted pool_after_one) \<and> tp_accepted pool_after_one = [5]"
  using pool_drains [OF pool_example] by (simp add: at_rest_def pool_after_one_def)

end
