(* ===== verification/Memory_Pool.thy ===== *)
theory Memory_Pool
  imports Muses_Prelude
begin

unbundle bit_operations_syntax

text \<open>
  \<open>MemoryPool\<close> of \<open>src/muses/memory_pool.hpp\<close>: size classes, intrusive free lists in a bump arena, the
  escape to \<open>operator new\<close>, and reference counts.

  Addresses are natural numbers and 0 is the null pointer.  The memory the pool itself reads and
  writes is two maps: the block headers, by address, and the link word of a slot.  Sizes and counters
  are 64-bit words, header fields 32-bit words.  \<open>operator new\<close> answers with an address that the
  environment picks: an answer that overlaps the arena or a block already handed out is no behaviour of
  \<open>operator new\<close> (\<open>MIllegal\<close>), and no answer is \<open>std::bad_alloc\<close>.  A read of a header that is not
  there, a header written past its block, or an \<open>operator delete\<close> of something else than a live block is
  undefined; a failing \<open>MUSES_ASSERT\<close> is \<open>MAssert\<close>.
\<close>

section \<open>State\<close>

datatype 'r mres = MOk 'r | MBadAlloc | MAssert | MUndefined | MIllegal

primrec bind_mres :: "'r mres \<Rightarrow> ('r \<Rightarrow> 's mres) \<Rightarrow> 's mres" where
  "bind_mres (MOk r) f = f r"
| "bind_mres MBadAlloc f = MBadAlloc"
| "bind_mres MAssert f = MAssert"
| "bind_mres MUndefined f = MUndefined"
| "bind_mres MIllegal f = MIllegal"

definition MAGIC :: u32 where
  "MAGIC = 0x4D555345"

definition ESCAPED :: u32 where
  "ESCAPED = 0xFFFF"

record block_header =
  h_magic :: u32
  h_size_class :: u32
  h_slot_size :: u32
  h_padding :: u32
  h_refcount :: u32

text \<open>\<open>sizeof(BlockHeader)\<close>: 20 bytes, rounded up to the alignment of \<open>std::max_align_t\<close>, 16.\<close>

definition HDR :: nat where
  "HDR = 32"

record bin =
  bin_head :: nat
  bin_count :: u64

record mpool =
  mp_classes :: "u32 list"
  mp_bins :: "bin list"
  mp_base :: nat
  mp_arena_bytes :: u64
  mp_bump :: u64
  mp_live :: u64
  mp_escaped :: u64
  mp_headers :: "nat \<Rightarrow> block_header option"
  mp_links :: "nat \<Rightarrow> nat"
  mp_raw :: "(nat \<times> nat) list"

section \<open>Operations\<close>

definition round_up :: "u64 \<Rightarrow> u64 \<Rightarrow> u64" where
  "round_up n align = (n + align - 1) AND NOT (align - 1)"

definition arena_unit :: "u32 list \<Rightarrow> u64" where
  "arena_unit classes = round_up (of_nat HDR + (if classes = [] then 64 else ucast (last classes))) 16"

definition normalize_classes :: "u32 list \<Rightarrow> u32 list" where
  "normalize_classes cs =
     (let cs' = remdups_adj (sort (filter (\<lambda>c. c > 0) cs)) in if cs' = [] then [64] else cs')"

text \<open>The constructor; \<open>base\<close> is where \<open>arena_.data()\<close> ends up.\<close>

definition mpool_new :: "nat \<Rightarrow> u64 \<Rightarrow> u32 list \<Rightarrow> mpool" where
  "mpool_new base arena_bytes cs =
     (let classes = normalize_classes cs; unit = arena_unit classes;
          count = arena_bytes div unit; count' = (if count = 0 then 1 else count)
      in \<lparr>mp_classes = classes, mp_bins = replicate (length classes) \<lparr>bin_head = 0, bin_count = 0\<rparr>,
          mp_base = base, mp_arena_bytes = count' * unit, mp_bump = 0, mp_live = 0, mp_escaped = 0,
          mp_headers = (\<lambda>_. None), mp_links = (\<lambda>_. 0), mp_raw = []\<rparr>)"

definition header_of :: "nat \<Rightarrow> nat" where
  "header_of user = user - HDR"

definition init_header :: "nat \<Rightarrow> u32 \<Rightarrow> u32 \<Rightarrow> mpool \<Rightarrow> mpool" where
  "init_header a idx slot_size s =
     s\<lparr>mp_headers := (mp_headers s)(a \<mapsto> \<lparr>h_magic = MAGIC, h_size_class = idx, h_slot_size = slot_size,
                                          h_padding = 0, h_refcount = 1\<rparr>)\<rparr>"

definition push_free :: "nat \<Rightarrow> nat \<Rightarrow> mpool \<Rightarrow> mpool" where
  "push_free i slot s =
     (let b = mp_bins s ! i
      in s\<lparr>mp_links := (mp_links s)(slot := bin_head b),
           mp_bins := (mp_bins s)[i := \<lparr>bin_head = slot, bin_count = bin_count b + 1\<rparr>]\<rparr>)"

definition pop_free :: "nat \<Rightarrow> mpool \<Rightarrow> nat \<times> mpool" where
  "pop_free i s =
     (let b = mp_bins s ! i
      in if bin_head b = 0 then (0, s)
         else (bin_head b,
               s\<lparr>mp_bins := (mp_bins s)[i := \<lparr>bin_head = mp_links s (bin_head b), bin_count = bin_count b - 1\<rparr>]\<rparr>))"

fun pick_from :: "nat \<Rightarrow> u32 list \<Rightarrow> u64 \<Rightarrow> nat" where
  "pick_from i [] user_bytes = i"
| "pick_from i (c # cs) user_bytes = (if ucast c \<ge> user_bytes then i else pick_from (Suc i) cs user_bytes)"

definition pick_class :: "mpool \<Rightarrow> u64 \<Rightarrow> nat" where
  "pick_class s user_bytes = pick_from 0 (mp_classes s) user_bytes"

fun round_up_from :: "u32 list \<Rightarrow> u64 \<Rightarrow> u64" where
  "round_up_from [] user_bytes = 0"
| "round_up_from (c # cs) user_bytes = (if ucast c \<ge> user_bytes then ucast c else round_up_from cs user_bytes)"

definition round_up_to_class :: "mpool \<Rightarrow> u64 \<Rightarrow> u64" where
  "round_up_to_class s user_bytes = round_up_from (mp_classes s) user_bytes"

definition carve_from_arena :: "u32 \<Rightarrow> mpool \<Rightarrow> nat \<times> mpool" where
  "carve_from_arena slot_size s =
     (let need = round_up (of_nat HDR + ucast slot_size) 16
      in if mp_bump s + need > mp_arena_bytes s then (0, s)
         else (mp_base s + unat (mp_bump s) + HDR, s\<lparr>mp_bump := mp_bump s + need\<rparr>))"

definition overlaps :: "nat \<Rightarrow> nat \<Rightarrow> nat \<Rightarrow> nat \<Rightarrow> bool" where
  "overlaps a n b m \<longleftrightarrow> a < b + m \<and> b < a + n"

text \<open>\<open>operator new\<close> with the address the environment picked; a block occupies at least one byte.\<close>

definition operator_new :: "nat option \<Rightarrow> nat \<Rightarrow> mpool \<Rightarrow> (nat \<times> mpool) mres" where
  "operator_new answer nbytes s =
     (case answer of
        None \<Rightarrow> MBadAlloc
      | Some a \<Rightarrow>
          if a = 0 \<or> overlaps a (max 1 nbytes) (mp_base s) (unat (mp_arena_bytes s)) \<or>
             (\<exists>(b, n) \<in> set (mp_raw s). overlaps a (max 1 nbytes) b (max 1 n))
          then MIllegal
          else MOk (a, s\<lparr>mp_raw := (a, nbytes) # mp_raw s\<rparr>))"

definition operator_delete :: "nat \<Rightarrow> mpool \<Rightarrow> mpool mres" where
  "operator_delete a s =
     (if a \<in> fst ` set (mp_raw s)
      then MOk (s\<lparr>mp_raw := del_key a (mp_raw s), mp_headers := (mp_headers s)(a := None)\<rparr>)
      else MUndefined)"

text \<open>
  The header is an object of 32 bytes, of which the fields take 20; writing it into a block of fewer than 32 bytes is
  undefined.
\<close>

definition allocate_escaped :: "nat option \<Rightarrow> u64 \<Rightarrow> mpool \<Rightarrow> (nat \<times> mpool) mres" where
  "allocate_escaped answer bytes s =
     (let nbytes = of_nat HDR + bytes
      in bind_mres (operator_new answer (unat nbytes) s) (\<lambda>(raw, s').
        if unat nbytes < HDR then MUndefined
        else MOk (raw + HDR,
          (init_header raw ESCAPED (ucast bytes) s')\<lparr>mp_live := mp_live s' + 1, mp_escaped := mp_escaped s' + 1\<rparr>)))"

definition allocate :: "nat option \<Rightarrow> u64 \<Rightarrow> mpool \<Rightarrow> (nat \<times> mpool) mres" where
  "allocate answer bytes s =
     (let need = round_up_to_class s bytes; idx = pick_class s bytes
      in if idx \<ge> length (mp_classes s) \<or> need = 0 then allocate_escaped answer bytes s
         else
           let (popped, s1) = pop_free idx s;
               (slot, s2) = (if popped = 0 then carve_from_arena (mp_classes s ! idx) s1 else (popped, s1))
           in if slot = 0 then allocate_escaped answer bytes s2
              else MOk (slot, (init_header (header_of slot) (of_nat idx) (mp_classes s ! idx) s2)
                                \<lparr>mp_live := mp_live s2 + 1\<rparr>))"

definition check_magic :: "block_header \<Rightarrow> bool" where
  "check_magic h \<longleftrightarrow> h_magic h = MAGIC"

definition retain :: "nat \<Rightarrow> mpool \<Rightarrow> mpool mres" where
  "retain p s =
     (if p = 0 then MOk s
      else case mp_headers s (header_of p) of
        None \<Rightarrow> MUndefined
      | Some h \<Rightarrow>
          if \<not> check_magic h then MAssert
          else MOk (s\<lparr>mp_headers := (mp_headers s)(header_of p \<mapsto> h\<lparr>h_refcount := h_refcount h + 1\<rparr>)\<rparr>))"

definition recycle_to_bin :: "nat \<Rightarrow> block_header \<Rightarrow> mpool \<Rightarrow> mpool mres" where
  "recycle_to_bin a h s =
     (let idx = unat (h_size_class h)
      in if idx \<ge> length (mp_bins s) then operator_delete a s
         else MOk (push_free idx (a + HDR) (s\<lparr>mp_headers := (mp_headers s)(a \<mapsto> h\<lparr>h_magic := 0\<rparr>)\<rparr>)))"

definition release :: "nat \<Rightarrow> mpool \<Rightarrow> mpool mres" where
  "release p s =
     (if p = 0 then MOk s
      else case mp_headers s (header_of p) of
        None \<Rightarrow> MUndefined
      | Some h \<Rightarrow>
          if \<not> check_magic h then MAssert
          else
            let h' = h\<lparr>h_refcount := h_refcount h - 1\<rparr>;
                s1 = s\<lparr>mp_headers := (mp_headers s)(header_of p \<mapsto> h')\<rparr>
            in if h_refcount h = 1 then
                 let s2 = s1\<lparr>mp_live := mp_live s1 - 1\<rparr>
                 in if h_size_class h = ESCAPED
                    then operator_delete (header_of p) (s2\<lparr>mp_escaped := mp_escaped s2 - 1\<rparr>)
                    else recycle_to_bin (header_of p) h' s2
               else MOk s1)"

definition deallocate :: "nat \<Rightarrow> mpool \<Rightarrow> mpool mres" where
  "deallocate p s = release p s"

record pool_stats =
  ps_live :: u64
  ps_recycled :: u64
  ps_escaped :: u64
  ps_overflow_dropped :: u64

definition stats :: "mpool \<Rightarrow> pool_stats" where
  "stats s = \<lparr>ps_live = mp_live s, ps_recycled = sum_list (map bin_count (mp_bins s)),
              ps_escaped = mp_escaped s, ps_overflow_dropped = 0\<rparr>"

section \<open>Invariant and abstraction\<close>

text \<open>The slots of a free list, from its head along the link words.\<close>

primrec chain :: "(nat \<Rightarrow> nat) \<Rightarrow> nat \<Rightarrow> nat list \<Rightarrow> bool" where
  "chain l p [] \<longleftrightarrow> p = 0"
| "chain l p (a # as) \<longleftrightarrow> p = a \<and> a \<noteq> 0 \<and> chain l (l a) as"

abbreviation slot_bytes :: "block_header \<Rightarrow> nat" where
  "slot_bytes h \<equiv> unat (h_slot_size h)"

definition geometry_ok :: "mpool \<Rightarrow> bool" where
  "geometry_ok s \<longleftrightarrow> mp_classes s \<noteq> [] \<and> sorted (mp_classes s) \<and> 0 \<notin> set (mp_classes s) \<and>
     length (mp_classes s) \<le> unat ESCAPED \<and> length (mp_bins s) = length (mp_classes s) \<and>
     0 < mp_base s \<and> unat (mp_arena_bytes s) < 2 ^ 63 \<and> mp_bump s \<le> mp_arena_bytes s"

definition arena_block :: "mpool \<Rightarrow> nat \<Rightarrow> block_header \<Rightarrow> bool" where
  "arena_block s a h \<longleftrightarrow> h_size_class h \<noteq> ESCAPED \<and> unat (h_size_class h) < length (mp_classes s) \<and>
     h_slot_size h = mp_classes s ! unat (h_size_class h) \<and>
     mp_base s \<le> a \<and> a + HDR + slot_bytes h \<le> mp_base s + unat (mp_bump s)"

definition header_ok :: "mpool \<Rightarrow> nat \<Rightarrow> block_header \<Rightarrow> bool" where
  "header_ok s a h \<longleftrightarrow>
     (h_magic h = MAGIC \<and> h_refcount h \<noteq> 0 \<or> h_magic h = 0 \<and> h_size_class h \<noteq> ESCAPED) \<and>
     (if h_size_class h = ESCAPED then a \<in> fst ` set (mp_raw s) else arena_block s a h)"

definition headers_ok :: "mpool \<Rightarrow> bool" where
  "headers_ok s \<longleftrightarrow> finite (dom (mp_headers s)) \<and>
     (\<forall>a h. mp_headers s a = Some h \<longrightarrow> header_ok s a h) \<and>
     (\<forall>a b h k. mp_headers s a = Some h \<and> mp_headers s b = Some k \<and> h_size_class h \<noteq> ESCAPED \<and>
        h_size_class k \<noteq> ESCAPED \<and> a < b \<longrightarrow> a + HDR + slot_bytes h \<le> b)"

definition raw_ok :: "mpool \<Rightarrow> bool" where
  "raw_ok s \<longleftrightarrow> distinct (map fst (mp_raw s)) \<and>
     (\<forall>(a, n) \<in> set (mp_raw s). 0 < a \<and> HDR \<le> n \<and> \<not> overlaps a n (mp_base s) (unat (mp_arena_bytes s)) \<and>
        (\<exists>h. mp_headers s a = Some h \<and> h_size_class h = ESCAPED)) \<and>
     (\<forall>(a, n) \<in> set (mp_raw s). \<forall>(b, m) \<in> set (mp_raw s). a \<noteq> b \<longrightarrow> \<not> overlaps a n b m)"

definition free_ok :: "nat list list \<Rightarrow> mpool \<Rightarrow> bool" where
  "free_ok fls s \<longleftrightarrow> length fls = length (mp_bins s) \<and>
     (\<forall>i < length fls. chain (mp_links s) (bin_head (mp_bins s ! i)) (fls ! i) \<and> distinct (fls ! i) \<and>
        bin_count (mp_bins s ! i) = of_nat (length (fls ! i)) \<and>
        (\<forall>p \<in> set (fls ! i). \<exists>h. HDR < p \<and> mp_headers s (header_of p) = Some h \<and> h_magic h = 0 \<and> unat (h_size_class h) = i)) \<and>
     (\<forall>a h. mp_headers s a = Some h \<and> h_magic h = 0 \<longrightarrow> a + HDR \<in> set (fls ! unat (h_size_class h)))"

definition live_set :: "mpool \<Rightarrow> nat set" where
  "live_set s = {a. \<exists>h. mp_headers s a = Some h \<and> h_magic h = MAGIC}"

definition stats_ok :: "mpool \<Rightarrow> bool" where
  "stats_ok s \<longleftrightarrow> mp_live s = of_nat (card (live_set s)) \<and> mp_escaped s = of_nat (length (mp_raw s))"

definition mpool_inv :: "mpool \<Rightarrow> bool" where
  [muses_inv]: "mpool_inv s \<longleftrightarrow>
     geometry_ok s \<and> headers_ok s \<and> raw_ok s \<and> stats_ok s \<and> (\<exists>fls. free_ok fls s)"

text \<open>The client's view: the reference counts of the blocks handed out, and the bytes each one may use.\<close>

definition refs :: "mpool \<Rightarrow> nat \<Rightarrow> nat option" where
  [muses_abs]: "refs s p =
     (if p \<le> HDR then None
      else case mp_headers s (header_of p) of
        None \<Rightarrow> None
      | Some h \<Rightarrow> if h_magic h = MAGIC then Some (unat (h_refcount h)) else None)"

definition usable :: "mpool \<Rightarrow> nat \<Rightarrow> nat" where
  "usable s p =
     (case mp_headers s (header_of p) of
        None \<Rightarrow> 0
      | Some h \<Rightarrow> if h_size_class h = ESCAPED then the (map_of (mp_raw s) (header_of p)) - HDR else slot_bytes h)"

section \<open>Sizes\<close>

lemma and_plus_and_not: "(m AND k) + (m AND NOT k) = (m :: u64)"
proof -
  have "(m AND k) + (m AND NOT k) = (m AND k) OR (m AND NOT k)"
    by (rule disjunctive_add_eq_or) (simp add: bit_simps bit_eq_iff)
  also have "... = m" by (simp add: bit_eq_iff bit_simps) blast
  finally show ?thesis .
qed

lemma unat_ucast_class [simp]: "unat (ucast (c :: u32) :: u64) = unat c"
proof -
  have "unat c < 2 ^ 32" using unsigned_less [of c, where 'a = nat] by simp
  then have "unat c < 2 ^ 64" by (rule less_trans) simp
  then show ?thesis by (simp add: unsigned_ucast_eq take_bit_nat_eq_self)
qed

lemma round_up_bounds:
  assumes "unat n + 32 < 2 ^ 64"
  shows "unat n \<le> unat (round_up n 16)" "unat (round_up n 16) \<le> unat n + 15"
proof -
  let ?m = "n + 15"
  have m: "unat ?m = unat n + 15" using assms by (simp add: unat_word_ariths)
  have split: "(?m AND 15) + (?m AND NOT 15) = ?m" by (rule and_plus_and_not)
  have low: "unat (?m AND 15) \<le> 15"
    using word_and_le1 [of ?m 15] by (simp add: word_le_nat_alt)
  have "?m AND NOT 15 \<le> ?m" by (rule word_and_le2)
  then have hi: "unat (?m AND NOT 15) \<le> unat n + 15" using m by (simp add: word_le_nat_alt)
  have "unat ((?m AND 15) + (?m AND NOT 15)) = unat (?m AND 15) + unat (?m AND NOT 15)"
    using low hi assms by (intro unat_add_lem [THEN iffD1]) simp
  then have "unat (?m AND 15) + unat (?m AND NOT 15) = unat n + 15" using split m by simp
  then have "unat n \<le> unat (?m AND NOT 15)" using low by linarith
  then show "unat n \<le> unat (round_up n 16)" "unat (round_up n 16) \<le> unat n + 15"
    using hi by (simp_all add: round_up_def add_diff_eq [symmetric])
qed

lemma unat_HDR_class: "unat (of_nat HDR + ucast (c :: u32) :: u64) = HDR + unat c"
proof -
  have "unat c < 2 ^ 32" using unsigned_less [of c, where 'a = nat] by simp
  then show ?thesis by (simp add: unat_word_ariths HDR_def)
qed

lemma need_bounds:
  fixes c :: u32
  defines "need \<equiv> round_up (of_nat HDR + ucast c) 16"
  shows "HDR + unat c \<le> unat need" "unat need \<le> HDR + unat c + 15" "unat need < 2 ^ 33"
proof -
  have c: "unat c < 2 ^ 32" using unsigned_less [of c, where 'a = nat] by simp
  have n: "unat (of_nat HDR + ucast c :: u64) = HDR + unat c" by (rule unat_HDR_class)
  then have "unat (of_nat HDR + ucast c :: u64) + 32 < 2 ^ 64" using c by (simp add: HDR_def)
  from round_up_bounds [OF this] n
  show a: "HDR + unat c \<le> unat need" "unat need \<le> HDR + unat c + 15" unfolding need_def by simp_all
  then show "unat need < 2 ^ 33" using c by (simp add: HDR_def)
qed

lemma pick_from_bound: "i \<le> pick_from i cs b \<and> pick_from i cs b \<le> i + length cs"
  by (induction i cs b rule: pick_from.induct) auto

lemma pick_from_fits:
  "pick_from i cs b < i + length cs \<Longrightarrow> b \<le> ucast (cs ! (pick_from i cs b - i)) \<and> round_up_from cs b = ucast (cs ! (pick_from i cs b - i))"
proof (induction i cs b rule: pick_from.induct)
  case (2 i c cs b)
  then show ?case
  proof (cases "ucast c \<ge> b")
    case False
    have "Suc i \<le> pick_from (Suc i) cs b" using pick_from_bound by blast
    then show ?thesis using 2 False by (auto simp: Suc_diff_le nth_Cons' Suc_le_eq)
  qed simp
qed simp

lemma pick_class_fits:
  assumes "pick_class s b < length (mp_classes s)"
  shows "unat b \<le> unat (mp_classes s ! pick_class s b)"
    "round_up_to_class s b = ucast (mp_classes s ! pick_class s b)"
proof -
  have "b \<le> ucast (mp_classes s ! pick_class s b)"
    using assms pick_from_fits [of 0 "mp_classes s" b] by (simp add: pick_class_def)
  then show "unat b \<le> unat (mp_classes s ! pick_class s b)"
    by (simp add: word_le_nat_alt)
  show "round_up_to_class s b = ucast (mp_classes s ! pick_class s b)"
    using assms pick_from_fits [of 0 "mp_classes s" b] by (simp add: pick_class_def round_up_to_class_def)
qed

section \<open>Chains\<close>

lemma chain_upd [simp]: "u \<notin> set as \<Longrightarrow> chain (l(u := v)) p as = chain l p as"
  by (induction as arbitrary: p) auto

lemma chain_Nil_iff: "chain l p as \<Longrightarrow> p = 0 \<longleftrightarrow> as = []"
  by (cases as) auto

lemma chain_nonzero: "chain l p as \<Longrightarrow> a \<in> set as \<Longrightarrow> a \<noteq> 0"
  by (induction as arbitrary: p) auto

section \<open>The parts of the invariant\<close>

lemma magic_neq_0 [simp]: "MAGIC \<noteq> 0" "0 \<noteq> MAGIC"
  by (simp_all add: MAGIC_def)

lemma header_of_simps [simp]: "header_of (a + HDR) = a" "HDR < p \<Longrightarrow> header_of p + HDR = p"
  by (simp_all add: header_of_def)

text \<open>A header is judged by the arena's geometry and the blocks of \<open>operator new\<close> only.\<close>

lemma header_ok_cong:
  assumes "mp_classes s' = mp_classes s" "mp_base s' = mp_base s" "mp_bump s' = mp_bump s" "mp_raw s' = mp_raw s"
  shows "header_ok s' = header_ok s"
  using assms by (simp add: header_ok_def arena_block_def fun_eq_iff)

lemma header_okD:
  assumes "headers_ok s" "mp_headers s a = Some h"
  shows "header_ok s a h"
  using assms by (simp add: headers_ok_def)

lemma header_pos:
  assumes "mpool_inv s" "mp_headers s a = Some h"
  shows "0 < a"
proof -
  have "header_ok s a h" "geometry_ok s" "raw_ok s" using assms header_okD by (auto simp: mpool_inv_def)
  then show ?thesis by (auto simp: header_ok_def geometry_ok_def raw_ok_def arena_block_def split: if_splits)
qed

text \<open>Replacing one header by another of the same place keeps the headers in order.\<close>

lemma headers_ok_upd:
  assumes "headers_ok s" "mp_headers s a = Some h" "header_ok s a h'"
    and "h_size_class h' = h_size_class h" "h_slot_size h' = h_slot_size h"
  shows "headers_ok (s\<lparr>mp_headers := (mp_headers s)(a \<mapsto> h')\<rparr>)"
proof -
  have eq: "header_ok (s\<lparr>mp_headers := (mp_headers s)(a \<mapsto> h')\<rparr>) = header_ok s" by (rule header_ok_cong) simp_all
  have "finite (dom ((mp_headers s)(a \<mapsto> h')))" using assms(1) by (simp add: headers_ok_def)
  moreover have "x + HDR + slot_bytes k \<le> y"
    if k: "((mp_headers s)(a \<mapsto> h')) x = Some k" "((mp_headers s)(a \<mapsto> h')) y = Some k'" "h_size_class k \<noteq> ESCAPED"
      "h_size_class k' \<noteq> ESCAPED" "x < y" for x y k k'
  proof -
    obtain j j' where "mp_headers s x = Some j" "mp_headers s y = Some j'" "h_size_class j = h_size_class k"
      "h_size_class j' = h_size_class k'" "h_slot_size j = h_slot_size k"
      using k assms(2,4,5) by (auto split: if_splits)
    moreover have "\<forall>a b h k. mp_headers s a = Some h \<and> mp_headers s b = Some k \<and> h_size_class h \<noteq> ESCAPED \<and>
        h_size_class k \<noteq> ESCAPED \<and> a < b \<longrightarrow> a + HDR + slot_bytes h \<le> b"
      using assms(1) by (simp add: headers_ok_def)
    ultimately show ?thesis using k(3-5) by metis
  qed
  ultimately show ?thesis
    using assms(1,3) unfolding headers_ok_def eq by (simp split: if_splits)
qed

lemma raw_ok_upd:
  assumes "raw_ok s" "mp_headers s a = Some h" "h_size_class h' = h_size_class h"
  shows "raw_ok (s\<lparr>mp_headers := (mp_headers s)(a \<mapsto> h')\<rparr>)"
  using assms by (fastforce simp: raw_ok_def)

lemma inv_set_refcount:
  assumes inv: "mpool_inv s" and h: "mp_headers s a = Some h" "h_magic h = MAGIC" and r: "r \<noteq> 0"
  shows "mpool_inv (s\<lparr>mp_headers := (mp_headers s)(a \<mapsto> h\<lparr>h_refcount := r\<rparr>)\<rparr>)"
proof -
  let ?h = "h\<lparr>h_refcount := r\<rparr>"
  let ?s = "s\<lparr>mp_headers := (mp_headers s)(a \<mapsto> ?h)\<rparr>"
  obtain fls where f: "free_ok fls s" and i: "geometry_ok s" "headers_ok s" "raw_ok s" "stats_ok s"
    using inv by (auto simp: mpool_inv_def)
  have "header_ok s a ?h" using header_okD [OF i(2) h(1)] h(2) r by (auto simp: header_ok_def arena_block_def split: if_splits)
  then have "headers_ok ?s" using headers_ok_upd [OF i(2) h(1)] by simp
  moreover have "raw_ok ?s" using raw_ok_upd [OF i(3) h(1)] by simp
  moreover have "live_set ?s = live_set s" using h by (auto simp: live_set_def)
  then have "stats_ok ?s" using i(4) by (simp add: stats_ok_def)
  moreover have "free_ok fls ?s"
    using f h unfolding free_ok_def by (fastforce split: if_splits)
  moreover have "geometry_ok ?s" using i(1) by (simp add: geometry_ok_def)
  ultimately show ?thesis by (auto simp: mpool_inv_def)
qed

section \<open>Reference counts\<close>

lemma refs_SomeD:
  assumes "refs s p = Some n"
  obtains h where "HDR < p" "mp_headers s (header_of p) = Some h" "h_magic h = MAGIC" "n = unat (h_refcount h)"
  using assms by (auto simp: refs_def split: if_splits option.splits)

lemma refs_upd:
  assumes "HDR < p"
  shows "refs (s\<lparr>mp_headers := (mp_headers s)(header_of p := v)\<rparr>) =
    (refs s)(p := case v of None \<Rightarrow> None | Some h \<Rightarrow> if h_magic h = MAGIC then Some (unat (h_refcount h)) else None)"
proof
  fix q
  have "header_of q = header_of p \<longleftrightarrow> q = p" if "HDR < q" using assms that by (auto simp: header_of_def)
  then show "refs (s\<lparr>mp_headers := (mp_headers s)(header_of p := v)\<rparr>) q = ((refs s)(p := case v of None \<Rightarrow> None
      | Some h \<Rightarrow> if h_magic h = MAGIC then Some (unat (h_refcount h)) else None)) q"
    using assms by (cases "q = p") (auto simp: refs_def split: option.splits)
qed

lemma refs_cong: "mp_headers s' = mp_headers s \<Longrightarrow> refs s' = refs s"
  by (simp add: refs_def fun_eq_iff)

lemma retain_ok:
  assumes inv: "mpool_inv s" and p: "refs s p = Some n" "n + 1 < 2 ^ 32"
  obtains s' where "retain p s = MOk s'" "mpool_inv s'" "refs s' = (refs s)(p \<mapsto> n + 1)"
proof -
  obtain h where h: "HDR < p" "mp_headers s (header_of p) = Some h" "h_magic h = MAGIC" "n = unat (h_refcount h)"
    using refs_SomeD [OF p(1)] by blast
  let ?r = "h_refcount h + 1"
  have r: "unat ?r = n + 1" using p(2) h(4) by (simp add: unat_word_ariths)
  then have "?r \<noteq> 0" by (metis Suc_eq_plus1 nat.distinct(1) unat_0)
  let ?s = "s\<lparr>mp_headers := (mp_headers s)(header_of p \<mapsto> h\<lparr>h_refcount := ?r\<rparr>)\<rparr>"
  have "retain p s = MOk ?s" using h by (simp add: retain_def check_magic_def)
  moreover have "mpool_inv ?s" using inv h \<open>?r \<noteq> 0\<close> by (intro inv_set_refcount)
  moreover have "refs ?s = (refs s)(p \<mapsto> n + 1)" using refs_upd [OF h(1), of s] h r by simp
  ultimately show ?thesis using that by blast
qed

lemma release_shared:
  assumes inv: "mpool_inv s" and p: "refs s p = Some n" "n \<noteq> 1"
  obtains s' where "release p s = MOk s'" "mpool_inv s'" "refs s' = (refs s)(p \<mapsto> n - 1)"
proof -
  obtain h where h: "HDR < p" "mp_headers s (header_of p) = Some h" "h_magic h = MAGIC" "n = unat (h_refcount h)"
    using refs_SomeD [OF p(1)] by blast
  have ok: "header_ok s (header_of p) h" using inv h header_okD by (auto simp: mpool_inv_def)
  then have pos: "h_refcount h \<noteq> 0" "h_refcount h \<noteq> 1" using h p(2) by (auto simp: header_ok_def)
  let ?r = "h_refcount h - 1"
  have r: "unat ?r = n - 1" "?r \<noteq> 0"
    using pos h(4) by (auto simp: unat_sub_if' word_unat_eq_iff [of _ 0] word_unat_eq_iff [of _ 1])
  let ?s = "s\<lparr>mp_headers := (mp_headers s)(header_of p \<mapsto> h\<lparr>h_refcount := ?r\<rparr>)\<rparr>"
  have "release p s = MOk ?s" using h pos by (simp add: release_def check_magic_def)
  moreover have "mpool_inv ?s" using inv h r(2) by (intro inv_set_refcount)
  moreover have "refs ?s = (refs s)(p \<mapsto> n - 1)" using refs_upd [OF h(1), of s] h r by simp
  ultimately show ?thesis using that by blast
qed

section \<open>Giving a block back\<close>

lemma live_set_finite: "headers_ok s \<Longrightarrow> finite (live_set s)"
  by (rule finite_subset [of _ "dom (mp_headers s)"]) (auto simp: live_set_def headers_ok_def)

lemma card_live_remove:
  assumes "headers_ok s" "a \<in> live_set s"
  shows "of_nat (card (live_set s)) - 1 = (of_nat (card (live_set s - {a})) :: u64)"
  using card_Suc_Diff1 [OF live_set_finite [OF assms(1)] assms(2)]
  by (metis add_diff_cancel_left' of_nat_Suc)

lemma push_free_simps [simp]:
  "mp_headers (push_free i p s) = mp_headers s" "mp_links (push_free i p s) = (mp_links s)(p := bin_head (mp_bins s ! i))"
  "mp_bins (push_free i p s) = (mp_bins s)[i := \<lparr>bin_head = p, bin_count = bin_count (mp_bins s ! i) + 1\<rparr>]"
  "mp_classes (push_free i p s) = mp_classes s" "mp_base (push_free i p s) = mp_base s"
  "mp_arena_bytes (push_free i p s) = mp_arena_bytes s" "mp_bump (push_free i p s) = mp_bump s"
  "mp_live (push_free i p s) = mp_live s" "mp_escaped (push_free i p s) = mp_escaped s" "mp_raw (push_free i p s) = mp_raw s"
  by (simp_all add: push_free_def Let_def)

lemma free_ok_push:
  assumes f: "free_ok fls s" and h: "mp_headers s a = Some h" "h_magic h = MAGIC" and a: "0 < a"
    and i: "unat (h_size_class h) = i" "i < length (mp_bins s)"
  shows "free_ok (fls[i := (a + HDR) # fls ! i])
    (push_free i (a + HDR) (s\<lparr>mp_headers := (mp_headers s)(a \<mapsto> h\<lparr>h_refcount := r, h_magic := 0\<rparr>)\<rparr>))"
proof -
  let ?h = "h\<lparr>h_refcount := r, h_magic := 0\<rparr>" and ?fls = "fls[i := (a + HDR) # fls ! i]"
  let ?s = "push_free i (a + HDR) (s\<lparr>mp_headers := (mp_headers s)(a \<mapsto> ?h)\<rparr>)"
  have len: "length fls = length (mp_bins s)" using f by (simp add: free_ok_def)
  have old: "chain (mp_links s) (bin_head (mp_bins s ! j)) (fls ! j)" "distinct (fls ! j)"
    "bin_count (mp_bins s ! j) = of_nat (length (fls ! j))"
    "\<forall>p \<in> set (fls ! j). \<exists>h. HDR < p \<and> mp_headers s (header_of p) = Some h \<and> h_magic h = 0 \<and> unat (h_size_class h) = j"
    if "j < length fls" for j
    using f that by (simp_all add: free_ok_def)
  have fresh: "a + HDR \<notin> set (fls ! j)" if "j < length fls" for j
    using old(4) [OF that] h by force
  have keep: "\<exists>h. HDR < p \<and> mp_headers ?s (header_of p) = Some h \<and> h_magic h = 0 \<and> unat (h_size_class h) = j"
    if j: "j < length fls" and p: "p \<in> set (fls ! j)" for j p
  proof -
    obtain k where k: "HDR < p" "mp_headers s (header_of p) = Some k" "h_magic k = 0" "unat (h_size_class k) = j"
      using old(4) [OF j] p by blast
    then have "header_of p \<noteq> a" using h by auto
    then show ?thesis using k by auto
  qed
  have "chain (mp_links ?s) (bin_head (mp_bins ?s ! j)) (?fls ! j) \<and> distinct (?fls ! j) \<and>
      bin_count (mp_bins ?s ! j) = of_nat (length (?fls ! j)) \<and>
      (\<forall>p \<in> set (?fls ! j). \<exists>h. HDR < p \<and> mp_headers ?s (header_of p) = Some h \<and> h_magic h = 0 \<and> unat (h_size_class h) = j)"
    if "j < length ?fls" for j
    using that old [of j] fresh [of j] keep [of j] i a len
    by (cases "j = i") auto
  moreover have "b + HDR \<in> set (?fls ! unat (h_size_class k))" if "mp_headers ?s b = Some k" "h_magic k = 0" for b k
  proof (cases "b = a")
    case True
    then show ?thesis using that i len by auto
  next
    case False
    then have "b + HDR \<in> set (fls ! unat (h_size_class k))" using f that by (auto simp: free_ok_def)
    then show ?thesis using i len by (cases "unat (h_size_class k) = i") auto
  qed
  ultimately show ?thesis using len by (simp add: free_ok_def)
qed

lemma release_last_arena:
  assumes inv: "mpool_inv s" and p: "HDR < p" "mp_headers s (header_of p) = Some h" "h_magic h = MAGIC"
      "h_refcount h = 1" "h_size_class h \<noteq> ESCAPED"
  obtains s' where "release p s = MOk s'" "mpool_inv s'" "refs s' = (refs s)(p := None)"
    "mp_headers s' (header_of p) = Some (h\<lparr>h_refcount := 0, h_magic := 0\<rparr>)"
    "bin_head (mp_bins s' ! unat (h_size_class h)) = p"
proof -
  let ?a = "header_of p" and ?i = "unat (h_size_class h)" and ?h = "h\<lparr>h_refcount := 0, h_magic := 0\<rparr>"
  obtain fls where f: "free_ok fls s" and i: "geometry_ok s" "headers_ok s" "raw_ok s" "stats_ok s"
    using inv by (auto simp: mpool_inv_def)
  have ok: "header_ok s ?a h" by (rule header_okD [OF i(2) p(2)])
  then have idx: "?i < length (mp_bins s)" using p(5) i(1) by (simp add: header_ok_def arena_block_def geometry_ok_def)
  have a: "0 < ?a" by (rule header_pos [OF inv p(2)])
  let ?t = "s\<lparr>mp_headers := (mp_headers s)(?a \<mapsto> ?h)\<rparr>"
  let ?s = "(push_free ?i p ?t)\<lparr>mp_live := mp_live s - 1\<rparr>"
  have "release p s = MOk ?s"
    using p idx by (simp add: release_def check_magic_def recycle_to_bin_def push_free_def Let_def)
  have "header_ok s ?a ?h" using ok p(5) by (auto simp: header_ok_def arena_block_def)
  then have "headers_ok ?t" using headers_ok_upd [OF i(2) p(2)] by simp
  then have "headers_ok ?s" using header_ok_cong [of ?s ?t] by (simp add: headers_ok_def)
  moreover have "raw_ok ?t" using raw_ok_upd [OF i(3) p(2)] by simp
  then have "raw_ok ?s" by (simp add: raw_ok_def)
  moreover have "live_set ?s = live_set s - {?a}" by (auto simp: live_set_def)
  then have "stats_ok ?s"
    using i(4) card_live_remove [OF i(2), of ?a] p(2,3) by (simp add: stats_ok_def live_set_def)
  moreover have "free_ok (fls[?i := p # fls ! ?i]) ?s"
    using free_ok_push [OF f p(2,3) a refl idx, of 0] p(1) by (simp add: free_ok_def)
  moreover have "geometry_ok ?s" using i(1) by (simp add: geometry_ok_def)
  ultimately have "mpool_inv ?s" by (auto simp: mpool_inv_def)
  moreover have "refs ?s = (refs s)(p := None)"
    using refs_upd [OF p(1), of s "Some ?h"] refs_cong [of ?s ?t] by simp
  ultimately show ?thesis
    using that [OF \<open>release p s = MOk ?s\<close>] idx by simp
qed

lemma keys_without: "fst ` {p \<in> set xs. fst p \<noteq> a} = fst ` set xs - {a}"
  by auto

lemma release_last_escaped:
  assumes inv: "mpool_inv s" and p: "HDR < p" "mp_headers s (header_of p) = Some h" "h_magic h = MAGIC"
      "h_refcount h = 1" "h_size_class h = ESCAPED"
  obtains s' where "release p s = MOk s'" "mpool_inv s'" "refs s' = (refs s)(p := None)" "mp_headers s' (header_of p) = None"
proof -
  let ?a = "header_of p"
  obtain fls where f: "free_ok fls s" and i: "geometry_ok s" "headers_ok s" "raw_ok s" "stats_ok s"
    using inv by (auto simp: mpool_inv_def)
  have raw: "?a \<in> fst ` set (mp_raw s)" using header_okD [OF i(2) p(2)] p(5) by (simp add: header_ok_def)
  let ?s = "s\<lparr>mp_raw := del_key ?a (mp_raw s), mp_headers := (mp_headers s)(?a := None),
      mp_live := mp_live s - 1, mp_escaped := mp_escaped s - 1\<rparr>"
  have "release p s = MOk ?s"
    using p raw by (simp add: release_def check_magic_def operator_delete_def)
  have other: "h_size_class k = ESCAPED \<Longrightarrow> b \<in> fst ` set (mp_raw s)" "h_size_class k \<noteq> ESCAPED \<Longrightarrow> arena_block s b k"
    "h_magic k = MAGIC \<and> h_refcount k \<noteq> 0 \<or> h_magic k = 0 \<and> h_size_class k \<noteq> ESCAPED"
    if "mp_headers s b = Some k" for b k
    using header_okD [OF i(2) that] by (auto simp: header_ok_def)
  have "header_ok ?s b k" if "mp_headers s b = Some k" "b \<noteq> ?a" for b k
    using other [OF that(1)] that(2) by (cases "h_size_class k = ESCAPED") (auto simp: header_ok_def arena_block_def keys_without)
  then have "headers_ok ?s" using i(2) by (auto simp: headers_ok_def split: if_splits)
  moreover have "raw_ok ?s" using i(3) by (auto simp: raw_ok_def distinct_removeAll)
  moreover have "live_set ?s = live_set s - {?a}" by (auto simp: live_set_def)
  moreover have "Suc (length (del_key ?a (mp_raw s))) = length (mp_raw s)"
    using i(3) raw by (intro length_del_key_present) (simp_all add: raw_ok_def)
  then have "of_nat (length (mp_raw s)) - 1 = (of_nat (length (del_key ?a (mp_raw s))) :: u64)"
    by (metis add_diff_cancel_left' of_nat_Suc)
  ultimately have "stats_ok ?s"
    using i(4) card_live_remove [OF i(2), of ?a] p(2,3) by (simp add: stats_ok_def live_set_def)
  moreover have "free_ok fls ?s"
    using f p(2,3) unfolding free_ok_def by (fastforce split: if_splits)
  moreover have "geometry_ok ?s" using i(1) by (simp add: geometry_ok_def)
  ultimately have "mpool_inv ?s" using \<open>headers_ok ?s\<close> \<open>raw_ok ?s\<close> by (auto simp: mpool_inv_def)
  moreover have "refs ?s = (refs s)(p := None)"
    using refs_upd [OF p(1), of s None] refs_cong [of ?s "s\<lparr>mp_headers := (mp_headers s)(?a := None)\<rparr>"] by simp
  ultimately show ?thesis using that [OF \<open>release p s = MOk ?s\<close>] by simp
qed

section \<open>Handing a block out\<close>

abbreviation fresh_header :: "u32 \<Rightarrow> u32 \<Rightarrow> block_header" where
  "fresh_header idx slot_size \<equiv>
     \<lparr>h_magic = MAGIC, h_size_class = idx, h_slot_size = slot_size, h_padding = 0, h_refcount = 1\<rparr>"

lemma class_index:
  assumes "geometry_ok s" "i < length (mp_classes s)"
  shows "unat (of_nat i :: u32) = i" "(of_nat i :: u32) \<noteq> ESCAPED"
proof -
  have i: "i < unat ESCAPED" using assms by (simp add: geometry_ok_def)
  then have "i < 2 ^ 32" by (simp add: ESCAPED_def)
  then show u: "unat (of_nat i :: u32) = i" by (simp add: unat_of_nat)
  show "(of_nat i :: u32) \<noteq> ESCAPED" using i u by auto
qed

lemma card_live_insert:
  assumes "headers_ok s" "a \<notin> live_set s"
  shows "of_nat (card (live_set s)) + 1 = (of_nat (card (insert a (live_set s))) :: u64)"
  using assms live_set_finite by simp

lemma free_ok_pop:
  assumes f: "free_ok fls s" and i: "i < length fls" "fls ! i = p # ps" and k: "h_magic k = MAGIC"
    and s': "mp_headers s' = (mp_headers s)(header_of p \<mapsto> k)" "mp_links s' = mp_links s"
      "mp_bins s' = (mp_bins s)[i := \<lparr>bin_head = mp_links s p, bin_count = bin_count (mp_bins s ! i) - 1\<rparr>]"
  shows "free_ok (fls[i := ps]) s'"
proof -
  have len: "length fls = length (mp_bins s)" using f by (simp add: free_ok_def)
  have old: "chain (mp_links s) (bin_head (mp_bins s ! j)) (fls ! j)" "distinct (fls ! j)"
    "bin_count (mp_bins s ! j) = of_nat (length (fls ! j))"
    "\<forall>q \<in> set (fls ! j). \<exists>h. HDR < q \<and> mp_headers s (header_of q) = Some h \<and> h_magic h = 0 \<and> unat (h_size_class h) = j"
    if "j < length fls" for j
    using f that by (simp_all add: free_ok_def)
  obtain h where h: "HDR < p" "mp_headers s (header_of p) = Some h" "h_magic h = 0" "unat (h_size_class h) = i"
    using old(4) [OF i(1)] i(2) by auto
  have keep: "\<exists>h. HDR < q \<and> mp_headers s' (header_of q) = Some h \<and> h_magic h = 0 \<and> unat (h_size_class h) = j"
    if "j < length fls" "q \<in> set (fls ! j)" "q \<noteq> p" for j q
    using old(4) [OF that(1)] that(2,3) h(1) by (force simp: s'(1) header_of_def)
  have p_in: "p \<in> set (fls ! j) \<Longrightarrow> j = i" if "j < length fls" for j
    using old(4) [OF that] h by force
  have "chain (mp_links s') (bin_head (mp_bins s' ! j)) (fls[i := ps] ! j) \<and> distinct (fls[i := ps] ! j) \<and>
      bin_count (mp_bins s' ! j) = of_nat (length (fls[i := ps] ! j)) \<and>
      (\<forall>q \<in> set (fls[i := ps] ! j). \<exists>h. HDR < q \<and> mp_headers s' (header_of q) = Some h \<and> h_magic h = 0 \<and> unat (h_size_class h) = j)"
    if j: "j < length (fls[i := ps])" for j
  proof (cases "j = i")
    case True
    then show ?thesis using j old [OF i(1)] i len keep [OF i(1)] by (auto simp: s'(2,3))
  next
    case False
    then show ?thesis using j old [of j] keep [of j] p_in [of j] len by (auto simp: s'(2,3))
  qed
  moreover have "b + HDR \<in> set (fls[i := ps] ! unat (h_size_class m))" if "mp_headers s' b = Some m" "h_magic m = 0" for b m
  proof -
    have b: "b \<noteq> header_of p" using that k by (auto simp: s'(1))
    then have "b + HDR \<in> set (fls ! unat (h_size_class m))" using f that by (auto simp: free_ok_def s'(1))
    moreover have "b + HDR \<noteq> p" using b by auto
    ultimately show ?thesis using i by (cases "unat (h_size_class m) = i") auto
  qed
  ultimately show ?thesis using len by (simp add: free_ok_def s'(3))
qed

lemma allocate_reuse:
  assumes inv: "mpool_inv s" and i: "i < length (mp_classes s)" and head: "bin_head (mp_bins s ! i) = p" "p \<noteq> 0"
  defines "s' \<equiv> (init_header (header_of p) (of_nat i) (mp_classes s ! i) (snd (pop_free i s)))\<lparr>mp_live := mp_live s + 1\<rparr>"
  shows "mpool_inv s'" "refs s p = None" "refs s' = (refs s)(p \<mapsto> 1)" "HDR < p"
    "mp_headers s' = (mp_headers s)(header_of p \<mapsto> fresh_header (of_nat i) (mp_classes s ! i))" "mp_raw s' = mp_raw s"
proof -
  let ?a = "header_of p" and ?k = "fresh_header (of_nat i) (mp_classes s ! i)"
  obtain fls where f: "free_ok fls s" and g: "geometry_ok s" "headers_ok s" "raw_ok s" "stats_ok s"
    using inv by (auto simp: mpool_inv_def)
  have len: "length fls = length (mp_classes s)" using f g(1) by (simp add: free_ok_def geometry_ok_def)
  have ch: "chain (mp_links s) p (fls ! i)" using f i len head(1) by (auto simp: free_ok_def)
  then obtain ps where ps: "fls ! i = p # ps" using head(2) by (cases "fls ! i") auto
  then obtain h where h: "HDR < p" "mp_headers s ?a = Some h" "h_magic h = 0" "unat (h_size_class h) = i"
    using f i len unfolding free_ok_def by (metis list.set_intros(1))
  have ok: "header_ok s ?a h" by (rule header_okD [OF g(2) h(2)])
  then have sc: "h_size_class h \<noteq> ESCAPED" "h_slot_size h = mp_classes s ! i"
    using h(3,4) by (auto simp: header_ok_def arena_block_def)
  have idx: "of_nat i = h_size_class h" using h(4) by auto
  have s': "s' = s\<lparr>mp_bins := (mp_bins s)[i := \<lparr>bin_head = mp_links s p, bin_count = bin_count (mp_bins s ! i) - 1\<rparr>],
      mp_headers := (mp_headers s)(?a \<mapsto> ?k), mp_live := mp_live s + 1\<rparr>"
    using head by (simp add: s'_def init_header_def pop_free_def Let_def)
  show hd: "mp_headers s' = (mp_headers s)(?a \<mapsto> ?k)" and "mp_raw s' = mp_raw s" by (simp_all add: s')
  have "header_ok s ?a ?k" using ok sc idx h(4) by (auto simp: header_ok_def arena_block_def)
  then have "headers_ok (s\<lparr>mp_headers := (mp_headers s)(?a \<mapsto> ?k)\<rparr>)"
    using headers_ok_upd [OF g(2) h(2)] idx sc by simp
  then have "headers_ok s'"
    using header_ok_cong [of s' "s\<lparr>mp_headers := (mp_headers s)(?a \<mapsto> ?k)\<rparr>"] by (simp add: headers_ok_def s')
  moreover have "raw_ok s'" using raw_ok_upd [OF g(3) h(2), of ?k] idx by (simp add: raw_ok_def s')
  moreover have "live_set s' = insert ?a (live_set s)" by (auto simp: live_set_def s')
  then have "stats_ok s'"
    using g(4) card_live_insert [OF g(2), of ?a] h(2,3) by (simp add: stats_ok_def s' live_set_def)
  moreover have "free_ok (fls[i := ps]) s'"
    using i len by (intro free_ok_pop [OF f _ ps]) (simp_all add: s')
  moreover have "geometry_ok s'" using g(1) by (simp add: geometry_ok_def s')
  ultimately show "mpool_inv s'" by (auto simp: mpool_inv_def)
  show "refs s p = None" using h by (simp add: refs_def)
  show "refs s' = (refs s)(p \<mapsto> 1)"
    using refs_upd [OF h(1), of s "Some ?k"] refs_cong [of s' "s\<lparr>mp_headers := (mp_headers s)(?a \<mapsto> ?k)\<rparr>"] by (simp add: hd)
  show "HDR < p" by (rule h(1))
qed

lemma free_ok_fresh:
  assumes f: "free_ok fls s" and a: "mp_headers s a = None" and k: "h_magic k = MAGIC"
    and s': "mp_headers s' = (mp_headers s)(a \<mapsto> k)" "mp_links s' = mp_links s" "mp_bins s' = mp_bins s"
  shows "free_ok fls s'"
  using f a k unfolding free_ok_def s' by (fastforce split: if_splits)

lemma allocate_carve:
  assumes inv: "mpool_inv s" and i: "i < length (mp_classes s)" and c: "carve_from_arena (mp_classes s ! i) s = (p, s1)" "p \<noteq> 0"
  defines "s' \<equiv> (init_header (header_of p) (of_nat i) (mp_classes s ! i) s1)\<lparr>mp_live := mp_live s + 1\<rparr>"
  shows "mpool_inv s'" "refs s p = None" "refs s' = (refs s)(p \<mapsto> 1)" "HDR < p"
    "mp_headers s' = (mp_headers s)(header_of p \<mapsto> fresh_header (of_nat i) (mp_classes s ! i))" "mp_raw s' = mp_raw s"
proof -
  let ?c = "mp_classes s ! i"
  let ?a = "mp_base s + unat (mp_bump s)" and ?k = "fresh_header (of_nat i) ?c" and ?n = "round_up (of_nat HDR + ucast ?c) 16 :: u64"
  obtain fls where f: "free_ok fls s" and g: "geometry_ok s" "headers_ok s" "raw_ok s" "stats_ok s"
    using inv by (auto simp: mpool_inv_def)
  note n = need_bounds [of ?c]
  have b: "unat (mp_arena_bytes s) < 2 ^ 63" "unat (mp_bump s) \<le> unat (mp_arena_bytes s)" "0 < mp_base s"
    using g(1) by (simp_all add: geometry_ok_def word_le_nat_alt)
  have nb: "unat (mp_bump s + ?n) = unat (mp_bump s) + unat ?n"
    using b n(3) by (intro unat_add_lem [THEN iffD1]) simp
  have room: "unat (mp_bump s) + unat ?n \<le> unat (mp_arena_bytes s)" and p: "p = ?a + HDR" and s1: "s1 = s\<lparr>mp_bump := mp_bump s + ?n\<rparr>"
    using c nb by (auto simp: carve_from_arena_def Let_def word_le_nat_alt not_less split: if_splits)
  have s': "s' = s\<lparr>mp_bump := mp_bump s + ?n, mp_headers := (mp_headers s)(?a \<mapsto> ?k), mp_live := mp_live s + 1\<rparr>"
    by (simp add: s'_def init_header_def s1 p)
  show hd: "mp_headers s' = (mp_headers s)(header_of p \<mapsto> ?k)" and "mp_raw s' = mp_raw s" by (simp_all add: s' p)
  have below: "b + HDR + slot_bytes k \<le> ?a" if "mp_headers s b = Some k" "h_size_class k \<noteq> ESCAPED" for b k
    using header_okD [OF g(2) that(1)] that(2) by (auto simp: header_ok_def arena_block_def)
  have none: "mp_headers s ?a = None"
  proof (rule ccontr)
    assume "mp_headers s ?a \<noteq> None"
    then obtain k where k: "mp_headers s ?a = Some k" by blast
    show False
    proof (cases "h_size_class k = ESCAPED")
      case True
      then obtain m where "(?a, m) \<in> set (mp_raw s)"
        using header_okD [OF g(2) k] by (auto simp: header_ok_def)
      then have "HDR \<le> m" "\<not> overlaps ?a m (mp_base s) (unat (mp_arena_bytes s))" using g(3) by (auto simp: raw_ok_def)
      then show False using room n(1) by (auto simp: overlaps_def HDR_def)
    next
      case False
      then show False using below [OF k] by (simp add: HDR_def)
    qed
  qed
  have mono: "header_ok s' b k" if "mp_headers s b = Some k" for b k
    using header_okD [OF g(2) that] nb by (auto simp: header_ok_def arena_block_def s')
  have "header_ok s' ?a ?k"
    using class_index [OF g(1) i] i n(1) nb by (auto simp: header_ok_def arena_block_def s')
  then have "headers_ok s'"
    using g(2) mono none below unfolding headers_ok_def s' by (auto split: if_splits) fastforce+
  moreover have "raw_ok s'" using g(3) none by (fastforce simp: raw_ok_def s')
  moreover have "live_set s' = insert ?a (live_set s)" by (auto simp: live_set_def s')
  then have "stats_ok s'"
    using g(4) card_live_insert [OF g(2), of ?a] none by (simp add: stats_ok_def s' live_set_def)
  moreover have "free_ok fls s'" by (rule free_ok_fresh [OF f none, of ?k]) (simp_all add: s')
  moreover have "geometry_ok s'" using g(1) room nb by (simp add: geometry_ok_def s' word_le_nat_alt)
  ultimately show "mpool_inv s'" by (auto simp: mpool_inv_def)
  show hp: "HDR < p" using b(3) p by simp
  show "refs s p = None" using none by (simp add: refs_def p)
  show "refs s' = (refs s)(p \<mapsto> 1)"
    using refs_upd [OF hp, of s "Some ?k"] refs_cong [of s' "s\<lparr>mp_headers := (mp_headers s)(header_of p \<mapsto> ?k)\<rparr>"] by (simp add: hd)
qed

lemma allocate_escaped_ok:
  assumes inv: "mpool_inv s" and fits: "unat bytes + HDR < 2 ^ 64" and al: "allocate_escaped answer bytes s = MOk (p, s')"
  shows "mpool_inv s'" "refs s p = None" "refs s' = (refs s)(p \<mapsto> 1)" "HDR < p"
    "mp_headers s' = (mp_headers s)(header_of p \<mapsto> fresh_header ESCAPED (ucast bytes))"
    "mp_raw s' = (header_of p, HDR + unat bytes) # mp_raw s"
proof -
  let ?n = "HDR + unat bytes" and ?k = "fresh_header ESCAPED (ucast bytes)"
  obtain fls where f: "free_ok fls s" and g: "geometry_ok s" "headers_ok s" "raw_ok s" "stats_ok s"
    using inv by (auto simp: mpool_inv_def)
  have n: "unat (of_nat HDR + bytes) = ?n" using fits by (simp add: unat_word_ariths HDR_def)
  obtain a where a: "answer = Some a" "a \<noteq> 0" "\<not> overlaps a ?n (mp_base s) (unat (mp_arena_bytes s))"
      "\<forall>(b, m) \<in> set (mp_raw s). \<not> overlaps a ?n b (max 1 m)" and p: "p = a + HDR"
    and s': "s' = s\<lparr>mp_raw := (a, ?n) # mp_raw s, mp_headers := (mp_headers s)(a \<mapsto> ?k),
        mp_live := mp_live s + 1, mp_escaped := mp_escaped s + 1\<rparr>"
    using al n by (auto simp: allocate_escaped_def operator_new_def init_header_def Let_def HDR_def
        split: option.splits if_splits)
  show hd: "mp_headers s' = (mp_headers s)(header_of p \<mapsto> ?k)" and "mp_raw s' = (header_of p, ?n) # mp_raw s"
    by (simp_all add: s' p)
  have raw: "0 < b \<and> HDR \<le> m \<and> \<not> overlaps b m (mp_base s) (unat (mp_arena_bytes s)) \<and> b \<noteq> a \<and> \<not> overlaps a ?n b m"
    if "(b, m) \<in> set (mp_raw s)" for b m
    using that g(3) a(4) by (auto simp: raw_ok_def overlaps_def HDR_def)
  have none: "mp_headers s a = None"
  proof (rule ccontr)
    assume "mp_headers s a \<noteq> None"
    then obtain k where k: "mp_headers s a = Some k" by blast
    show False
    proof (cases "h_size_class k = ESCAPED")
      case True
      then show False using header_okD [OF g(2) k] raw by (fastforce simp: header_ok_def)
    next
      case False
      then have "arena_block s a k" using header_okD [OF g(2) k] by (simp add: header_ok_def)
      then show False using a(3) g(1) by (auto simp: arena_block_def overlaps_def HDR_def geometry_ok_def word_le_nat_alt)
    qed
  qed
  have mono: "header_ok s' b k" if "mp_headers s b = Some k" for b k
    using header_okD [OF g(2) that] by (auto simp: header_ok_def arena_block_def s')
  moreover have "header_ok s' a ?k" by (simp add: header_ok_def s')
  ultimately have "headers_ok s'"
    using g(2) none unfolding headers_ok_def s' by (auto split: if_splits)
  moreover have "raw_ok s'"
    using g(3) raw none a(2,3) unfolding raw_ok_def s' by (fastforce simp: HDR_def overlaps_def)
  moreover have "live_set s' = insert a (live_set s)" by (auto simp: live_set_def s')
  then have "stats_ok s'"
    using g(4) card_live_insert [OF g(2), of a] none by (simp add: stats_ok_def s' live_set_def)
  moreover have "free_ok fls s'" by (rule free_ok_fresh [OF f none, of ?k]) (simp_all add: s')
  moreover have "geometry_ok s'" using g(1) by (simp add: geometry_ok_def s')
  ultimately show "mpool_inv s'" by (auto simp: mpool_inv_def)
  show hp: "HDR < p" using a(2) p by simp
  show "refs s p = None" using none by (simp add: refs_def p)
  show "refs s' = (refs s)(p \<mapsto> 1)"
    using refs_upd [OF hp, of s "Some ?k"] refs_cong [of s' "s\<lparr>mp_headers := (mp_headers s)(header_of p \<mapsto> ?k)\<rparr>"] by (simp add: hd)
qed

text \<open>The three ways \<open>allocate\<close> finds a block.\<close>

lemma allocate_cases:
  assumes inv: "mpool_inv s" and al: "allocate answer bytes s = MOk (p, s')"
  obtains (escaped) "allocate_escaped answer bytes s = MOk (p, s')"
  | (reused) i where "i < length (mp_classes s)" "i = pick_class s bytes" "bin_head (mp_bins s ! i) = p" "p \<noteq> 0"
      "s' = (init_header (header_of p) (of_nat i) (mp_classes s ! i) (snd (pop_free i s)))\<lparr>mp_live := mp_live s + 1\<rparr>"
  | (carved) i s1 where "i < length (mp_classes s)" "i = pick_class s bytes" "carve_from_arena (mp_classes s ! i) s = (p, s1)" "p \<noteq> 0"
      "s' = (init_header (header_of p) (of_nat i) (mp_classes s ! i) s1)\<lparr>mp_live := mp_live s + 1\<rparr>"
proof -
  let ?i = "pick_class s bytes"
  show thesis
  proof (cases "?i \<ge> length (mp_classes s) \<or> round_up_to_class s bytes = 0")
    case True
    then show thesis using al escaped by (simp add: allocate_def)
  next
    case False
    then have i: "?i < length (mp_classes s)" by simp
    show thesis
    proof (cases "bin_head (mp_bins s ! ?i) = 0")
      case True
      obtain q s1 where c: "carve_from_arena (mp_classes s ! ?i) s = (q, s1)" by (metis surj_pair)
      then have "q = 0 \<Longrightarrow> s1 = s" "mp_live s1 = mp_live s"
        by (auto simp: carve_from_arena_def Let_def HDR_def split: if_splits)
      then show thesis
        using al False True c i escaped carved [OF i refl]
        by (cases "q = 0") (auto simp: allocate_def pop_free_def Let_def)
    next
      case nz: False
      have "mp_live (snd (pop_free ?i s)) = mp_live s" by (simp add: pop_free_def Let_def)
      then show thesis
        using al False nz i reused [OF i refl] by (auto simp: allocate_def pop_free_def Let_def)
    qed
  qed
qed

lemma usable_class:
  "mp_headers s (header_of p) = Some (fresh_header idx c) \<Longrightarrow> idx \<noteq> ESCAPED \<Longrightarrow> usable s p = unat c"
  by (simp add: usable_def)

lemma allocate_ok:
  assumes inv: "mpool_inv s" and fits: "unat bytes + HDR < 2 ^ 64" and al: "allocate answer bytes s = MOk (p, s')"
  shows "mpool_inv s'" "refs s p = None" "refs s' = (refs s)(p \<mapsto> 1)" "HDR < p" "unat bytes \<le> usable s' p"
    "q \<noteq> p \<Longrightarrow> refs s q = Some n \<Longrightarrow> usable s' q = usable s q"
proof -
  have g: "geometry_ok s" using inv by (simp add: mpool_inv_def)
  have main: "mpool_inv s' \<and> refs s p = None \<and> refs s' = (refs s)(p \<mapsto> 1) \<and> HDR < p \<and> unat bytes \<le> usable s' p \<and>
      (q \<noteq> p \<longrightarrow> HDR < q \<longrightarrow> usable s' q = usable s q)"
    using inv al
  proof (cases rule: allocate_cases)
    case escaped
    note e = allocate_escaped_ok [OF inv fits escaped]
    have "usable s' p = unat bytes" by (simp add: usable_def e(5,6))
    moreover have "q \<noteq> p \<Longrightarrow> HDR < q \<Longrightarrow> header_of q \<noteq> header_of p" using e(4) by (auto simp: header_of_def)
    ultimately show ?thesis using e by (auto simp: usable_def split: option.split)
  next
    case (reused i)
    note e = allocate_reuse [OF inv reused(1,3,4), folded reused(5)]
    have "usable s' p = unat (mp_classes s ! i)"
      using usable_class [of s' p "of_nat i"] class_index [OF g reused(1)] e(5) by simp
    moreover have "unat bytes \<le> unat (mp_classes s ! i)" using pick_class_fits(1) [of s bytes] reused(1,2) by simp
    moreover have "q \<noteq> p \<Longrightarrow> HDR < q \<Longrightarrow> header_of q \<noteq> header_of p" using e(4) by (auto simp: header_of_def)
    ultimately show ?thesis using e by (auto simp: usable_def split: option.split)
  next
    case (carved i s1)
    note e = allocate_carve [OF inv carved(1,3,4), folded carved(5)]
    have "usable s' p = unat (mp_classes s ! i)"
      using usable_class [of s' p "of_nat i"] class_index [OF g carved(1)] e(5) by simp
    moreover have "unat bytes \<le> unat (mp_classes s ! i)" using pick_class_fits(1) [of s bytes] carved(1,2) by simp
    moreover have "q \<noteq> p \<Longrightarrow> HDR < q \<Longrightarrow> header_of q \<noteq> header_of p" using e(4) by (auto simp: header_of_def)
    ultimately show ?thesis using e by (auto simp: usable_def split: option.split)
  qed
  show "mpool_inv s'" "refs s p = None" "refs s' = (refs s)(p \<mapsto> 1)" "HDR < p" "unat bytes \<le> usable s' p" using main by auto
  show "usable s' q = usable s q" if "q \<noteq> p" "refs s q = Some n"
    using main that refs_SomeD [OF that(2)] by blast
qed

text \<open>Two blocks in use never share a byte, headers included.\<close>

lemma live_disjoint:
  assumes inv: "mpool_inv s" and p: "refs s p = Some n" and q: "refs s q = Some m" and "p \<noteq> q"
  shows "\<not> overlaps (header_of p) (HDR + usable s p) (header_of q) (HDR + usable s q)"
proof -
  obtain h where h: "HDR < p" "mp_headers s (header_of p) = Some h" using refs_SomeD [OF p] by blast
  obtain k where k: "HDR < q" "mp_headers s (header_of q) = Some k" using refs_SomeD [OF q] by blast
  have g: "geometry_ok s" "headers_ok s" "raw_ok s" using inv by (auto simp: mpool_inv_def)
  have ne: "header_of p \<noteq> header_of q" using h(1) k(1) \<open>p \<noteq> q\<close> by (auto simp: header_of_def)
  have arena: "mp_base s \<le> header_of x \<and> header_of x + (HDR + usable s x) \<le> mp_base s + unat (mp_arena_bytes s) \<and>
      usable s x = slot_bytes j"
    if "mp_headers s (header_of x) = Some j" "h_size_class j \<noteq> ESCAPED" for x j
    using header_okD [OF g(2) that(1)] that g(1)
    by (auto simp: header_ok_def arena_block_def usable_def geometry_ok_def word_le_nat_alt)
  have raw: "(header_of x, HDR + usable s x) \<in> set (mp_raw s)"
    if x: "mp_headers s (header_of x) = Some j" "h_size_class j = ESCAPED" for x j
  proof -
    obtain l where l: "(header_of x, l) \<in> set (mp_raw s)" using header_okD [OF g(2) x(1)] x(2) by (auto simp: header_ok_def)
    then have "map_of (mp_raw s) (header_of x) = Some l" "HDR \<le> l" using g(3) by (auto simp: raw_ok_def)
    then show ?thesis using l x by (simp add: usable_def)
  qed
  have sep: "\<not> overlaps a l b l'" if "(a, l) \<in> set (mp_raw s)" "(b, l') \<in> set (mp_raw s)" "a \<noteq> b" for a l b l'
    using g(3) that unfolding raw_ok_def by fastforce
  have out: "\<not> overlaps a l (mp_base s) (unat (mp_arena_bytes s))" if "(a, l) \<in> set (mp_raw s)" for a l
    using g(3) that unfolding raw_ok_def by fastforce
  have ord: "a + HDR + slot_bytes j \<le> b"
    if "mp_headers s a = Some j" "mp_headers s b = Some j'" "h_size_class j \<noteq> ESCAPED" "h_size_class j' \<noteq> ESCAPED" "a < b" for a b j j'
    using g(2) that unfolding headers_ok_def by blast
  consider "h_size_class h = ESCAPED" "h_size_class k = ESCAPED" | "h_size_class h = ESCAPED" "h_size_class k \<noteq> ESCAPED"
    | "h_size_class h \<noteq> ESCAPED" "h_size_class k = ESCAPED" | "h_size_class h \<noteq> ESCAPED" "h_size_class k \<noteq> ESCAPED" by blast
  then show ?thesis
  proof cases
    case 1
    then show ?thesis using sep [OF raw [OF h(2)] raw [OF k(2)] ne] by simp
  next
    case 2
    then show ?thesis using out [OF raw [OF h(2)]] arena [OF k(2)] by (auto simp: overlaps_def)
  next
    case 3
    then show ?thesis using out [OF raw [OF k(2)]] arena [OF h(2)] by (auto simp: overlaps_def)
  next
    case 4
    then show ?thesis
      using arena [OF h(2)] arena [OF k(2)] ord [OF h(2) k(2)] ord [OF k(2) h(2)] ne
      by (cases "header_of p < header_of q") (auto simp: overlaps_def)
  qed
qed

section \<open>Reachable pools\<close>

datatype pool_op = PAlloc "nat option" u64 | PRetain nat | PRelease nat

fun pool_step :: "pool_op \<Rightarrow> mpool \<Rightarrow> (nat \<times> mpool) mres" where
  "pool_step (PAlloc answer bytes) s = allocate answer bytes s"
| "pool_step (PRetain p) s = bind_mres (retain p s) (\<lambda>s'. MOk (p, s'))"
| "pool_step (PRelease p) s = bind_mres (release p s) (\<lambda>s'. MOk (p, s'))"

text \<open>
  A client keeps to the contract when it retains and releases only blocks it holds, holds fewer than
  $2^{32}$ references to a block, and asks for no more bytes than fit a 64-bit size with the header.
\<close>

fun legal_op :: "pool_op \<Rightarrow> (nat \<Rightarrow> nat option) \<Rightarrow> bool" where
  "legal_op (PAlloc answer bytes) r \<longleftrightarrow> unat bytes + HDR < 2 ^ 64"
| "legal_op (PRetain p) r \<longleftrightarrow> (\<exists>n. r p = Some n \<and> n + 1 < 2 ^ 32)"
| "legal_op (PRelease p) r \<longleftrightarrow> r p \<noteq> None"

text \<open>What an operation that answered \<open>p\<close> does to the reference counts.\<close>

fun spec_refs :: "pool_op \<Rightarrow> nat \<Rightarrow> (nat \<Rightarrow> nat option) \<Rightarrow> nat \<Rightarrow> nat option" where
  "spec_refs (PAlloc answer bytes) p r = r(p \<mapsto> 1)"
| "spec_refs (PRetain _) p r = r(p := map_option Suc (r p))"
| "spec_refs (PRelease _) p r = r(p := (if r p = Some 1 then None else map_option (\<lambda>n. n - 1) (r p)))"

inductive mpool_reach :: "mpool \<Rightarrow> bool" where
  start: "\<lbrakk>0 < base; unat arena_bytes < 2 ^ 62; length cs \<le> unat ESCAPED\<rbrakk> \<Longrightarrow> mpool_reach (mpool_new base arena_bytes cs)"
| step: "\<lbrakk>mpool_reach s; legal_op op (refs s); pool_step op s = MOk (p, s')\<rbrakk> \<Longrightarrow> mpool_reach s'"

lemma arena_size:
  fixes classes :: "u32 list"
  assumes "unat arena_bytes < 2 ^ 62"
  defines "cnt \<equiv> arena_bytes div arena_unit classes"
  shows "unat ((if cnt = 0 then 1 else cnt) * arena_unit classes) < 2 ^ 63"
proof -
  define c :: u32 where "c = (if classes = [] then 64 else last classes)"
  have u: "arena_unit classes = round_up (of_nat HDR + ucast c) 16" by (simp add: arena_unit_def c_def)
  have unit: "unat (arena_unit classes) < 2 ^ 33" unfolding u by (rule need_bounds(3))
  have "unat cnt * unat (arena_unit classes) \<le> unat arena_bytes" by (simp add: cnt_def unat_div_distrib)
  moreover from this have "unat (cnt * arena_unit classes) = unat cnt * unat (arena_unit classes)"
    using assms(1) by (intro unat_mult_lem [THEN iffD1]) simp
  ultimately have "unat (cnt * arena_unit classes) \<le> unat arena_bytes" by simp
  then show ?thesis using unit assms(1) by (auto split: if_split)
qed

lemma normalize_classes_ok:
  assumes "length cs \<le> unat ESCAPED"
  defines "ncs \<equiv> normalize_classes cs"
  shows "ncs \<noteq> []" "sorted ncs" "0 \<notin> set ncs" "length ncs \<le> unat ESCAPED"
proof -
  have len: "length (remdups_adj (sort (filter (\<lambda>c. c > 0) cs))) \<le> length cs"
    by (metis length_filter_le length_sort order_trans remdups_adj_length)
  show "ncs \<noteq> []" by (simp add: ncs_def normalize_classes_def Let_def)
  show "sorted ncs" by (simp add: ncs_def normalize_classes_def Let_def sorted_remdups_adj)
  show "0 \<notin> set ncs" by (auto simp: ncs_def normalize_classes_def Let_def)
  show "length ncs \<le> unat ESCAPED"
    using len assms(1) by (auto simp: ncs_def normalize_classes_def Let_def ESCAPED_def)
qed

lemma mpool_new_inv:
  assumes "0 < base" "unat arena_bytes < 2 ^ 62" "length cs \<le> unat ESCAPED"
  shows "mpool_inv (mpool_new base arena_bytes cs)" "refs (mpool_new base arena_bytes cs) = (\<lambda>_. None)"
proof -
  let ?s = "mpool_new base arena_bytes cs" and ?c = "normalize_classes cs"
  have "geometry_ok ?s"
    using normalize_classes_ok [OF assms(3)] arena_size [OF assms(2), of ?c] assms(1)
    by (auto simp: geometry_ok_def mpool_new_def Let_def)
  moreover have "free_ok (replicate (length ?c) []) ?s" by (simp add: free_ok_def mpool_new_def Let_def)
  ultimately show "mpool_inv ?s"
    by (auto simp: mpool_inv_def headers_ok_def raw_ok_def stats_ok_def live_set_def mpool_new_def Let_def)
  show "refs ?s = (\<lambda>_. None)" by (simp add: refs_def mpool_new_def Let_def fun_eq_iff)
qed

lemma release_ok:
  assumes inv: "mpool_inv s" and p: "refs s p = Some n"
  obtains s' where "release p s = MOk s'" "mpool_inv s'" "refs s' = spec_refs (PRelease p) p (refs s)"
proof (cases "n = 1")
  case True
  obtain h where h: "HDR < p" "mp_headers s (header_of p) = Some h" "h_magic h = MAGIC" "n = unat (h_refcount h)"
    using refs_SomeD [OF p] by blast
  have one: "h_refcount h = 1" using h(4) True by (simp add: word_unat_eq_iff)
  show thesis
  proof (cases "h_size_class h = ESCAPED")
    case True
    obtain s' where s': "release p s = MOk s'" "mpool_inv s'" "refs s' = (refs s)(p := None)"
      by (rule release_last_escaped [OF inv h(1-3) one True])
    show thesis by (rule that [OF s'(1,2)]) (use s'(3) p \<open>n = 1\<close> in simp)
  next
    case False
    obtain s' where s': "release p s = MOk s'" "mpool_inv s'" "refs s' = (refs s)(p := None)"
      by (rule release_last_arena [OF inv h(1-3) one False])
    show thesis by (rule that [OF s'(1,2)]) (use s'(3) p \<open>n = 1\<close> in simp)
  qed
next
  case False
  then show thesis using release_shared [OF inv p False] that p by auto
qed

lemma pool_step_ok:
  assumes inv: "mpool_inv s" and op: "legal_op op (refs s)" and st: "pool_step op s = MOk (p, s')"
  shows "mpool_inv s'" "refs s' = spec_refs op p (refs s)"
proof -
  have "mpool_inv s' \<and> refs s' = spec_refs op p (refs s)"
  proof (cases op)
    case (PAlloc answer bytes)
    then show ?thesis using allocate_ok [OF inv, of bytes answer p s'] op st by auto
  next
    case (PRetain q)
    then obtain n where n: "refs s q = Some n" "n + 1 < 2 ^ 32" using op by auto
    obtain t where "retain q s = MOk t" "mpool_inv t" "refs t = (refs s)(q \<mapsto> n + 1)" by (rule retain_ok [OF inv n])
    then show ?thesis using st PRetain n by simp
  next
    case (PRelease q)
    then obtain n where n: "refs s q = Some n" using op by auto
    obtain t where "release q s = MOk t" "mpool_inv t" "refs t = spec_refs (PRelease q) q (refs s)"
      by (rule release_ok [OF inv n])
    then show ?thesis using st PRelease by simp
  qed
  then show "mpool_inv s'" "refs s' = spec_refs op p (refs s)" by auto
qed

lemma mpool_reach_inv: "mpool_reach s \<Longrightarrow> mpool_inv s"
proof (induction rule: mpool_reach.induct)
  case (start base arena_bytes cs)
  then show ?case by (rule mpool_new_inv(1))
next
  case (step s op p s')
  then show ?case using pool_step_ok(1) by blast
qed

text \<open>When the environment answers \<open>operator new\<close> legally, allocation cannot fail.\<close>

lemma allocate_escaped_outcome:
  assumes "unat bytes + HDR < 2 ^ 64"
  shows "allocate_escaped answer bytes s \<in> {MBadAlloc, MIllegal} \<or> (\<exists>p s'. allocate_escaped answer bytes s = MOk (p, s'))"
proof -
  have "\<not> unat (of_nat HDR + bytes :: u64) < HDR" using assms by (simp add: unat_word_ariths HDR_def)
  then show ?thesis by (auto simp: allocate_escaped_def operator_new_def Let_def split: option.split)
qed

lemma allocate_outcome:
  assumes "unat bytes + HDR < 2 ^ 64"
  shows "allocate answer bytes s \<in> {MBadAlloc, MIllegal} \<or> (\<exists>p s'. allocate answer bytes s = MOk (p, s'))"
  using allocate_escaped_outcome [OF assms, of answer]
  by (auto simp: allocate_def Let_def split: prod.split if_splits)

end
