(* ===== verification/Pool_Contract.thy ===== *)
theory Pool_Contract
  imports Memory_Pool
begin

text \<open>
  What clients of \<open>MemoryPool\<close> rely on, as the locale \<open>counted_store\<close>, its interpretation on the model of
  the theory \<open>Memory_Pool\<close>, and the properties of the pool that hold in every state a client can reach.
\<close>

lemma usable_release:
  assumes "release p s = MOk s'" "refs s' q = Some m"
  shows "usable s' q = usable s q"
proof -
  obtain k where k: "HDR < q" "mp_headers s' (header_of q) = Some k" "h_magic k = MAGIC" using refs_SomeD [OF assms(2)] by blast
  show ?thesis
    using assms(1) k
    by (auto simp: release_def recycle_to_bin_def operator_delete_def usable_def Let_def split: if_splits option.splits)
qed

section \<open>The contract a client of the pool relies on\<close>

locale counted_store =
  fixes inv :: "'s \<Rightarrow> bool" and refs :: "'s \<Rightarrow> nat \<Rightarrow> nat option" and usable :: "'s \<Rightarrow> nat \<Rightarrow> nat"
    and alloc :: "nat option \<Rightarrow> u64 \<Rightarrow> 's \<Rightarrow> (nat \<times> 's) mres"
    and retain release :: "nat \<Rightarrow> 's \<Rightarrow> 's mres"
  assumes alloc_law: "\<lbrakk>inv s; unat b + HDR < 2 ^ 64; alloc answer b s = MOk (p, s')\<rbrakk> \<Longrightarrow>
      inv s' \<and> p \<noteq> 0 \<and> refs s p = None \<and> refs s' = (refs s)(p \<mapsto> 1) \<and> unat b \<le> usable s' p"
    and alloc_keeps: "\<lbrakk>inv s; unat b + HDR < 2 ^ 64; alloc answer b s = MOk (p, s'); refs s q = Some n\<rbrakk> \<Longrightarrow> usable s' q = usable s q"
    and retain_law: "\<lbrakk>inv s; refs s p = Some n; n + 1 < 2 ^ 32\<rbrakk> \<Longrightarrow>
      \<exists>s'. retain p s = MOk s' \<and> inv s' \<and> refs s' = (refs s)(p \<mapsto> n + 1)"
    and release_law: "\<lbrakk>inv s; refs s p = Some n\<rbrakk> \<Longrightarrow>
      \<exists>s'. release p s = MOk s' \<and> inv s' \<and> refs s' = (refs s)(p := if n = 1 then None else Some (n - 1))"
    and release_keeps: "\<lbrakk>release p s = MOk s'; refs s' q = Some m\<rbrakk> \<Longrightarrow> usable s' q = usable s q"
    and disjoint_law: "\<lbrakk>inv s; refs s p = Some n; refs s q = Some m; p \<noteq> q\<rbrakk> \<Longrightarrow> \<not> overlaps p (usable s p) q (usable s q)"
    and positive_law: "inv s \<Longrightarrow> refs s p = Some n \<Longrightarrow> 0 < n"

lemma refs_positive:
  assumes "mpool_inv s" "refs s p = Some n"
  shows "0 < n"
proof -
  obtain h where h: "mp_headers s (header_of p) = Some h" "h_magic h = MAGIC" "n = unat (h_refcount h)"
    using refs_SomeD [OF assms(2)] by blast
  have "header_ok s (header_of p) h" using assms(1) h(1) header_okD by (auto simp: mpool_inv_def)
  then show ?thesis using h(2,3) by (auto simp: header_ok_def unat_gt_0)
qed

lemma refs_above_header: "refs s p = Some n \<Longrightarrow> HDR < p"
  by (simp add: refs_def split: if_splits)

interpretation mp: counted_store mpool_inv refs usable allocate retain release
proof
  fix s s' :: mpool and b :: u64 and answer p q n m
  show "mpool_inv s' \<and> p \<noteq> 0 \<and> refs s p = None \<and> refs s' = (refs s)(p \<mapsto> 1) \<and> unat b \<le> usable s' p"
    if "mpool_inv s" "unat b + HDR < 2 ^ 64" "allocate answer b s = MOk (p, s')"
    using allocate_ok(1-5) [OF that] by auto
  show "usable s' q = usable s q"
    if "mpool_inv s" "unat b + HDR < 2 ^ 64" "allocate answer b s = MOk (p, s')" "refs s q = Some n"
    using allocate_ok(2,6) [OF that(1-3)] that(4) by force
  show "\<exists>s'. retain p s = MOk s' \<and> mpool_inv s' \<and> refs s' = (refs s)(p \<mapsto> n + 1)"
    if "mpool_inv s" "refs s p = Some n" "n + 1 < 2 ^ 32"
    by (rule retain_ok [OF that]) blast
  show "\<exists>s'. release p s = MOk s' \<and> mpool_inv s' \<and> refs s' = (refs s)(p := if n = 1 then None else Some (n - 1))"
    if "mpool_inv s" "refs s p = Some n"
    by (rule release_ok [OF that]) (use that(2) in auto)
  show "usable s' q = usable s q" if "release p s = MOk s'" "refs s' q = Some m"
    using that by (rule usable_release)
  show "\<not> overlaps p (usable s p) q (usable s q)"
    if "mpool_inv s" "refs s p = Some n" "refs s q = Some m" "p \<noteq> q"
  proof -
    have "HDR < p" "HDR < q" using refs_above_header [OF that(2)] refs_above_header [OF that(3)] by simp_all
    then show ?thesis using live_disjoint [OF that] unfolding overlaps_def header_of_def by linarith
  qed
  show "0 < n" if "mpool_inv s" "refs s p = Some n" using that by (rule refs_positive)
qed

section \<open>Properties\<close>

definition example_pool :: mpool where
  "example_pool = mpool_new 4096 1024 [16]"

definition example_pool1 :: mpool where
  "example_pool1 = example_pool\<lparr>mp_bump := 48, mp_live := 1, mp_headers := [4096 \<mapsto> fresh_header 0 16]\<rparr>"

definition example_pool2 :: mpool where
  "example_pool2 = example_pool\<lparr>mp_bump := 96, mp_live := 2,
     mp_headers := [4096 \<mapsto> fresh_header 0 16, 4144 \<mapsto> fresh_header 0 16]\<rparr>"

lemma example_numbers:
  "normalize_classes [16] = [16]" "arena_unit [16] = 48" "round_up 48 16 = 48"
  by code_simp+

lemmas pool_eval = allocate_def mpool_new_def example_numbers Let_def round_up_to_class_def pick_class_def
  pop_free_def carve_from_arena_def HDR_def init_header_def header_of_def

lemma example_allocations:
  "allocate None 10 example_pool = MOk (4128, example_pool1)"
  "allocate None 16 example_pool1 = MOk (4176, example_pool2)"
  by (simp_all add: example_pool2_def example_pool1_def example_pool_def pool_eval)

lemma example_reach: "mpool_reach example_pool" "mpool_reach example_pool1" "mpool_reach example_pool2"
proof -
  show s: "mpool_reach example_pool"
    unfolding example_pool_def by (rule mpool_reach.start) (simp_all add: ESCAPED_def)
  show s1: "mpool_reach example_pool1"
    by (rule mpool_reach.step [OF s, of "PAlloc None 10"]) (simp_all add: example_allocations HDR_def)
  show "mpool_reach example_pool2"
    by (rule mpool_reach.step [OF s1, of "PAlloc None 16"]) (simp_all add: example_allocations HDR_def)
qed

text \<open>When the pool itself can serve a request: a size class has a free slot, or the arena has room for one.\<close>

definition pool_has_slot :: "mpool \<Rightarrow> u64 \<Rightarrow> bool" where
  "pool_has_slot s bytes \<longleftrightarrow> (let i = pick_class s bytes
     in i < length (mp_classes s) \<and>
        (bin_head (mp_bins s ! i) \<noteq> 0 \<or> mp_bump s + round_up (of_nat HDR + ucast (mp_classes s ! i)) 16 \<le> mp_arena_bytes s))"

lemma need_nonzero:
  assumes "mpool_inv s" "pick_class s bytes < length (mp_classes s)"
  shows "round_up_to_class s bytes \<noteq> 0"
proof -
  have "0 \<notin> set (mp_classes s)" using assms(1) by (simp add: mpool_inv_def geometry_ok_def)
  then have "mp_classes s ! pick_class s bytes \<noteq> 0" using assms(2) by (metis nth_mem)
  then have "unat (ucast (mp_classes s ! pick_class s bytes) :: u64) \<noteq> 0" by (simp add: unat_eq_0)
  then show ?thesis using pick_class_fits(2) [of s bytes] assms(2) by (metis unat_0)
qed

lemma allocate_without_slot:
  assumes "mpool_inv s" "\<not> pool_has_slot s bytes"
  shows "allocate answer bytes s = allocate_escaped answer bytes s"
  using assms
  by (auto simp: allocate_def pool_has_slot_def pop_free_def carve_from_arena_def Let_def not_le not_less)

lemma allocate_with_slot:
  assumes "mpool_inv s" "pool_has_slot s bytes"
  shows "\<exists>p s'. allocate answer bytes s = MOk (p, s') \<and> mp_raw s' = mp_raw s"
  using assms need_nonzero [OF assms(1), of bytes]
  by (auto simp: allocate_def pool_has_slot_def pop_free_def carve_from_arena_def init_header_def HDR_def Let_def not_le not_less)

lemma escaped_fails:
  assumes "unat bytes + HDR < 2 ^ 64"
  shows "allocate_escaped answer bytes s = MBadAlloc \<Longrightarrow> answer = None"
    and "allocate_escaped answer bytes s = MIllegal \<Longrightarrow> operator_new answer (HDR + unat bytes) s = MIllegal"
proof -
  have n: "unat (of_nat HDR + bytes) = HDR + unat bytes" using assms by (simp add: HDR_def unat_word_ariths)
  show "allocate_escaped answer bytes s = MBadAlloc \<Longrightarrow> answer = None"
    by (cases answer) (auto simp: allocate_escaped_def operator_new_def Let_def split: if_splits)
  show "allocate_escaped answer bytes s = MIllegal \<Longrightarrow> operator_new answer (HDR + unat bytes) s = MIllegal"
    unfolding n [symmetric] by (cases "operator_new answer (unat (of_nat HDR + bytes)) s") (auto simp: allocate_escaped_def Let_def split: if_splits)
qed

text \<open>
  C19. The pool implements reference-counted blocks.  In every pool reached by a client that keeps to the
  contract, the next legal call neither trips the magic assertion nor runs into undefined behaviour.  It fails only when
  an allocation finds no slot in the pool, so that it has to go to \<open>operator new\<close>, and \<open>operator new\<close> has no memory
  (or would answer with a block that overlaps memory in use, which it never does); an allocation that finds a slot does not
  call \<open>operator new\<close>.  When the call returns, the reference counts have changed exactly as specified: a fresh block with
  count 1 that was not in use, with at least the requested bytes; one more; one less, and none after the last release.
\<close>

theorem mpool_refines_refcounts:
  assumes "mpool_reach s" "legal_op op (refs s)"
  shows "case pool_step op s of
      MOk (p, s') \<Rightarrow> refs s' = spec_refs op p (refs s) \<and>
        (\<forall>answer bytes. op = PAlloc answer bytes \<longrightarrow> refs s p = None \<and> unat bytes \<le> usable s' p \<and>
           (pool_has_slot s bytes \<longrightarrow> mp_raw s' = mp_raw s))
    | MBadAlloc \<Rightarrow> (\<exists>bytes. op = PAlloc None bytes \<and> \<not> pool_has_slot s bytes)
    | MIllegal \<Rightarrow> (\<exists>a bytes. op = PAlloc (Some a) bytes \<and> \<not> pool_has_slot s bytes \<and>
        operator_new (Some a) (HDR + unat bytes) s = MIllegal)
    | _ \<Rightarrow> False"
proof -
  have inv: "mpool_inv s" by (rule mpool_reach_inv [OF assms(1)])
  show ?thesis
  proof (cases op)
    case (PAlloc answer bytes)
    have fits: "unat bytes + HDR < 2 ^ 64" using assms(2) PAlloc by simp
    have slot: "\<not> pool_has_slot s bytes" if "allocate answer bytes s \<in> {MBadAlloc, MIllegal}"
      using allocate_with_slot [OF inv, of bytes answer] that by auto
    consider "allocate answer bytes s = MBadAlloc" | "allocate answer bytes s = MIllegal"
      | p s' where "allocate answer bytes s = MOk (p, s')"
      using allocate_outcome [OF fits, of answer s] by blast
    then show ?thesis
    proof cases
      case 1
      then show ?thesis using PAlloc slot allocate_without_slot [OF inv slot] escaped_fails(1) [OF fits] by simp
    next
      case 2
      then have "operator_new answer (HDR + unat bytes) s = MIllegal"
        using slot allocate_without_slot [OF inv slot, of answer] escaped_fails(2) [OF fits, of answer s] by simp
      then show ?thesis using PAlloc 2 slot by (cases answer) (simp_all add: operator_new_def)
    next
      case (3 p s')
      then show ?thesis using allocate_ok(2,3,5) [OF inv fits 3] PAlloc allocate_with_slot [OF inv, of bytes answer] by auto
    qed
  next
    case (PRetain p)
    then obtain n where n: "refs s p = Some n" "n + 1 < 2 ^ 32" using assms(2) by auto
    obtain t where "retain p s = MOk t" "refs t = (refs s)(p \<mapsto> n + 1)" using mp.retain_law [OF inv n] by blast
    then show ?thesis using PRetain n by simp
  next
    case (PRelease p)
    then obtain n where n: "refs s p = Some n" using assms(2) by auto
    obtain t where "release p s = MOk t" "refs t = spec_refs (PRelease p) p (refs s)" by (rule release_ok [OF inv n])
    then show ?thesis using PRelease by simp
  qed
qed

theorem mpool_refines_refcounts_witness:
  "pool_step (PAlloc None 16) example_pool1 = MOk (4176, example_pool2) \<and>
   refs example_pool2 = spec_refs (PAlloc None 16) 4176 (refs example_pool1) \<and> 16 \<le> usable example_pool2 4176"
  using mpool_refines_refcounts [OF example_reach(2), of "PAlloc None 16"]
  by (simp add: example_allocations HDR_def)

text \<open>
  C20. Blocks in use never overlap: in every pool reached by a client that keeps to the contract, the
  bytes of two different blocks that are still referenced, headers included, are disjoint, wherever
  they came from (carved, recycled or escaped).
\<close>

theorem mpool_blocks_disjoint:
  assumes "mpool_reach s" "refs s p = Some n" "refs s q = Some m" "p \<noteq> q"
  shows "\<not> overlaps (header_of p) (HDR + usable s p) (header_of q) (HDR + usable s q)"
  using live_disjoint [OF mpool_reach_inv [OF assms(1)] assms(2-4)] .

theorem mpool_blocks_disjoint_witness: "\<not> overlaps 4096 48 4144 48"
  using mpool_blocks_disjoint [OF example_reach(3), of 4128 1 4176 1]
  by (simp add: refs_def usable_def header_of_def HDR_def example_pool2_def ESCAPED_def)

text \<open>
  C21. A double free is caught, and a released slot is reused first.  When the last reference to a block of
  a size class is released, the next \<open>release\<close> or \<open>retain\<close> of it fails the magic assertion, and the
  next allocation of that class returns that very block without touching the arena.
\<close>

theorem mpool_double_free_caught:
  assumes "mpool_reach s" "refs s p = Some 1" "mp_headers s (header_of p) = Some h" "h_size_class h \<noteq> ESCAPED"
  shows "\<exists>s'. release p s = MOk s' \<and> refs s' p = None \<and> release p s' = MAssert \<and> retain p s' = MAssert \<and>
    (pick_class s' bytes = unat (h_size_class h) \<longrightarrow>
       (\<exists>s''. allocate answer bytes s' = MOk (p, s'') \<and> mp_bump s'' = mp_bump s'))"
proof -
  have inv: "mpool_inv s" by (rule mpool_reach_inv [OF assms(1)])
  have h: "HDR < p" by (rule refs_above_header [OF assms(2)])
  then have "h_magic h = MAGIC" "unat (h_refcount h) = 1"
    using assms(2,3) by (simp_all add: refs_def split: if_splits)
  then have h: "HDR < p" "h_magic h = MAGIC" "h_refcount h = 1" using h by (simp_all add: word_unat_eq_iff)
  obtain s' where s': "release p s = MOk s'" "mpool_inv s'" "refs s' = (refs s)(p := None)"
      "mp_headers s' (header_of p) = Some (h\<lparr>h_refcount := 0, h_magic := 0\<rparr>)"
      "bin_head (mp_bins s' ! unat (h_size_class h)) = p"
    by (rule release_last_arena [OF inv h(1) assms(3) h(2,3) assms(4)])
  have "header_ok s' (header_of p) (h\<lparr>h_refcount := 0, h_magic := 0\<rparr>)"
    using s'(2,4) header_okD by (auto simp: mpool_inv_def)
  then have idx: "unat (h_size_class h) < length (mp_classes s')" using assms(4) by (simp add: header_ok_def arena_block_def)
  moreover have "round_up_to_class s' bytes \<noteq> 0" if "pick_class s' bytes = unat (h_size_class h)"
    using need_nonzero [OF s'(2)] idx that by simp
  ultimately show ?thesis
    using s' h(1) by (auto simp: release_def retain_def check_magic_def allocate_def pop_free_def init_header_def Let_def)
qed

theorem mpool_double_free_caught_witness:
  "\<exists>s'. release 4128 example_pool1 = MOk s' \<and> release 4128 s' = MAssert"
  using mpool_double_free_caught [OF example_reach(2), of 4128 "fresh_header 0 16"]
  by (force simp: refs_def header_of_def HDR_def example_pool1_def ESCAPED_def)

lemma distinct_concat_by_nth:
  assumes "\<And>i. i < length xss \<Longrightarrow> distinct (xss ! i)"
    and "\<And>i j. i < length xss \<Longrightarrow> j < length xss \<Longrightarrow> i \<noteq> j \<Longrightarrow> set (xss ! i) \<inter> set (xss ! j) = {}"
  shows "distinct (concat xss)"
  using assms
proof (induction xss)
  case (Cons xs xss)
  have "distinct (concat xss)"
    using Cons.prems(1) [of "Suc _"] Cons.prems(2) [of "Suc _" "Suc _"] by (intro Cons.IH) auto
  moreover have "set xs \<inter> set (concat xss) = {}"
    using Cons.prems(2) [of 0 "Suc _"] by (fastforce simp: in_set_conv_nth)
  ultimately show ?case using Cons.prems(1) [of 0] by simp
qed simp

lemma sum_bin_counts:
  assumes "\<forall>i < length bs. bin_count (bs ! i) = of_nat (length (fls ! i))" "length fls = length bs"
  shows "sum_list (map bin_count bs) = of_nat (length (concat (fls :: nat list list)))"
proof -
  have "map bin_count bs = map (\<lambda>xs. of_nat (length xs)) fls" using assms by (intro nth_equalityI) auto
  moreover have "sum_list (map (\<lambda>xs. of_nat (length xs)) fls) = (of_nat (length (concat fls)) :: u64)" for fls :: "nat list list"
    by (induction fls) simp_all
  ultimately show ?thesis by simp
qed

lemma free_slots_counted:
  assumes f: "free_ok fls s" and h: "headers_ok s" and len: "length (mp_classes s) = length (mp_bins s)"
  shows "length (concat fls) = card {a. \<exists>h. mp_headers s a = Some h \<and> h_magic h = 0}"
proof -
  have slots: "\<exists>h. HDR < p \<and> mp_headers s (header_of p) = Some h \<and> h_magic h = 0 \<and> unat (h_size_class h) = i"
    if "i < length fls" "p \<in> set (fls ! i)" for i p
    using f that by (simp add: free_ok_def)
  have d: "distinct (concat fls)"
  proof (rule distinct_concat_by_nth)
    show "distinct (fls ! i)" if "i < length fls" for i using f that by (simp add: free_ok_def)
    show "set (fls ! i) \<inter> set (fls ! j) = {}" if "i < length fls" "j < length fls" "i \<noteq> j" for i j
      using slots [OF that(1)] slots [OF that(2)] that(3) by fastforce
  qed
  have st: "set (concat fls) = (\<lambda>a. a + HDR) ` {a. \<exists>h. mp_headers s a = Some h \<and> h_magic h = 0}"
  proof (intro equalityI subsetI)
    fix p assume "p \<in> set (concat fls)"
    then obtain i where "i < length fls" "p \<in> set (fls ! i)" by (metis UN_E in_set_conv_nth set_concat)
    from slots [OF this] show "p \<in> (\<lambda>a. a + HDR) ` {a. \<exists>h. mp_headers s a = Some h \<and> h_magic h = 0}"
      by (intro image_eqI [of _ _ "header_of p"]) auto
  next
    fix p assume "p \<in> (\<lambda>a. a + HDR) ` {a. \<exists>h. mp_headers s a = Some h \<and> h_magic h = 0}"
    then obtain a k where a: "p = a + HDR" "mp_headers s a = Some k" "h_magic k = 0" by blast
    then have "arena_block s a k" using header_okD [OF h a(2)] by (auto simp: header_ok_def)
    then have "unat (h_size_class k) < length fls" using f len by (simp add: arena_block_def free_ok_def)
    moreover have "p \<in> set (fls ! unat (h_size_class k))" using f a by (simp add: free_ok_def)
    ultimately show "p \<in> set (concat fls)" by (metis UN_I nth_mem set_concat)
  qed
  have "card ((\<lambda>a. a + HDR) ` A) = card A" for A by (rule card_image) (simp add: inj_on_def)
  then show ?thesis unfolding distinct_card [OF d, symmetric] st .
qed

text \<open>
  C22. The statistics are exact: \<open>live\<close> is the number of blocks in use, \<open>escaped\<close> the number of blocks from
  \<open>operator new\<close>, and \<open>recycled\<close> the number of blocks in the free lists (as 64-bit counters).
\<close>

theorem mpool_stats_exact:
  assumes "mpool_reach s"
  shows "stats s = \<lparr>ps_live = of_nat (card {p. refs s p \<noteq> None}),
    ps_recycled = of_nat (card {a. \<exists>h. mp_headers s a = Some h \<and> h_magic h = 0}),
    ps_escaped = of_nat (length (mp_raw s)), ps_overflow_dropped = 0\<rparr>"
proof -
  have inv: "mpool_inv s" by (rule mpool_reach_inv [OF assms])
  then obtain fls where f: "free_ok fls s" and g: "geometry_ok s" "headers_ok s" "stats_ok s" by (auto simp: mpool_inv_def)
  have "{p. refs s p \<noteq> None} = (\<lambda>a. a + HDR) ` live_set s"
  proof (intro equalityI subsetI)
    fix p assume "p \<in> {p. refs s p \<noteq> None}"
    then show "p \<in> (\<lambda>a. a + HDR) ` live_set s"
      by (intro image_eqI [of _ _ "header_of p"]) (auto simp: refs_def live_set_def split: if_splits option.splits)
  next
    fix p assume "p \<in> (\<lambda>a. a + HDR) ` live_set s"
    then show "p \<in> {p. refs s p \<noteq> None}" using header_pos [OF inv] by (fastforce simp: refs_def live_set_def)
  qed
  then have "card {p. refs s p \<noteq> None} = card (live_set s)" by (simp add: card_image inj_on_def)
  moreover have "sum_list (map bin_count (mp_bins s)) = of_nat (length (concat fls))"
    using f by (intro sum_bin_counts) (simp_all add: free_ok_def)
  ultimately show ?thesis
    using g free_slots_counted [OF f g(2)] by (simp add: stats_def stats_ok_def geometry_ok_def)
qed

theorem mpool_stats_exact_witness: "stats example_pool2 = \<lparr>ps_live = of_nat (card {p. refs example_pool2 p \<noteq> None}),
    ps_recycled = of_nat (card {a. \<exists>h. mp_headers example_pool2 a = Some h \<and> h_magic h = 0}),
    ps_escaped = 0, ps_overflow_dropped = 0\<rparr>"
  using mpool_stats_exact [OF example_reach(3)] by (simp add: example_pool2_def example_pool_def mpool_new_def Let_def)

text \<open>
  C23. A request of \<open>SIZE_MAX - 31\<close> bytes or more wraps around when the header is added: \<open>operator new\<close>
  is asked for fewer than 32 bytes, and if it answers, the header is written past the end of the block it
  returned (undefined behaviour), in any pool whose size classes are 32-bit numbers.
\<close>

theorem mpool_huge_request_overflows:
  assumes "2 ^ 64 \<le> unat bytes + HDR"
    and "operator_new answer (unat bytes + HDR - 2 ^ 64) s = MOk (a, s')"
  shows "allocate answer bytes s = MUndefined \<and> unat bytes + HDR - 2 ^ 64 < HDR"
proof -
  have small: "unat bytes < 2 ^ 64" using unsigned_less [of bytes, where 'a = nat] by simp
  have n: "unat (of_nat HDR + bytes) = unat bytes + HDR - 2 ^ 64"
    using assms(1) small by (simp add: unat_word_ariths HDR_def mod_if)
  have "pick_class s bytes \<ge> length (mp_classes s)"
  proof (rule ccontr)
    assume "\<not> pick_class s bytes \<ge> length (mp_classes s)"
    then have "unat bytes \<le> unat (mp_classes s ! pick_class s bytes)" using pick_class_fits(1) by simp
    moreover have "unat (mp_classes s ! pick_class s bytes) < 2 ^ 32"
      using unsigned_less [of "mp_classes s ! pick_class s bytes", where 'a = nat] by simp
    ultimately show False using assms(1) by (simp add: HDR_def)
  qed
  then show ?thesis
    using assms(2) n small by (simp add: allocate_def allocate_escaped_def Let_def HDR_def)
qed

theorem mpool_huge_request_overflows_witness:
  "allocate (Some 100000) (- 1) example_pool = MUndefined"
  using mpool_huge_request_overflows [of "- 1" "Some 100000" example_pool]
  by (simp add: HDR_def operator_new_def overlaps_def example_pool_def mpool_new_def example_numbers Let_def unsigned_minus_1_eq_mask mask_eq_exp_minus_1)

end
