(* ===== verification/Pool_Ptr.thy ===== *)
theory Pool_Ptr
  imports Pool_Contract Monitor
begin

text \<open>
  \<open>PoolPtr\<close>, \<open>make_pool\<close> and \<open>destroy_pool\<close> of \<open>src/muses/memory_pool.hpp\<close>: handles that share a block of one
  pool.  A program holds a list of handle variables; copying, moving, assigning, resetting and destroying
  them goes through the pool's \<open>retain\<close> and \<open>release\<close>.  The object a handle points to is opaque; whether
  its constructor throws is an argument of \<open>make_pool\<close>.
\<close>

section \<open>Counting references, against the pool's contract\<close>

context counted_store
begin

definition counted :: "(nat \<Rightarrow> nat) \<Rightarrow> 's \<Rightarrow> bool" where
  "counted cnt s \<longleftrightarrow> inv s \<and> (\<forall>p. refs s p = (if cnt p = 0 then None else Some (cnt p)))"

lemma counted_retain:
  assumes "counted cnt s" "0 < cnt p" "cnt p + 1 < 2 ^ 32"
  shows "\<exists>s'. retain p s = MOk s' \<and> counted (cnt(p := cnt p + 1)) s'"
proof -
  have i: "inv s" and r: "refs s q = (if cnt q = 0 then None else Some (cnt q))" for q
    using assms(1) by (simp_all add: counted_def)
  obtain s' where "retain p s = MOk s'" "inv s'" "refs s' = (refs s)(p \<mapsto> cnt p + 1)"
    using retain_law [OF i, of p "cnt p"] r assms(2,3) by auto
  then show ?thesis using r by (auto simp: counted_def)
qed

lemma counted_release:
  assumes "counted cnt s" "0 < cnt p"
  shows "\<exists>s'. release p s = MOk s' \<and> counted (cnt(p := cnt p - 1)) s'"
proof -
  have i: "inv s" and r: "refs s q = (if cnt q = 0 then None else Some (cnt q))" for q
    using assms(1) by (simp_all add: counted_def)
  obtain s' where "release p s = MOk s'" "inv s'" "refs s' = (refs s)(p := if cnt p = 1 then None else Some (cnt p - 1))"
    using release_law [OF i, of p "cnt p"] r assms(2) by auto
  then show ?thesis using r assms(2) by (auto simp: counted_def)
qed

lemma counted_alloc:
  assumes "counted cnt s" "unat b + HDR < 2 ^ 64" "alloc answer b s = MOk (p, s')"
  shows "counted (cnt(p := 1)) s' \<and> cnt p = 0 \<and> p \<noteq> 0"
proof -
  have i: "inv s" and r: "refs s q = (if cnt q = 0 then None else Some (cnt q))" for q
    using assms(1) by (simp_all add: counted_def)
  have "inv s'" "p \<noteq> 0" "refs s p = None" "refs s' = (refs s)(p \<mapsto> 1)" using alloc_law [OF i assms(2,3)] by auto
  moreover from this(3) have "cnt p = 0" using r [of p] by (auto split: if_splits)
  ultimately show ?thesis using r by (auto simp: counted_def)
qed

end

section \<open>Handles\<close>

record pool_ptr =
  pp_ptr :: nat
  pp_pool :: bool

definition pp_null :: pool_ptr where
  "pp_null = \<lparr>pp_ptr = 0, pp_pool = False\<rparr>"

definition pp_take :: "nat \<Rightarrow> pool_ptr" where
  "pp_take p = \<lparr>pp_ptr = p, pp_pool = True\<rparr>"

definition pp_held :: "pool_ptr \<Rightarrow> bool" where
  "pp_held h \<longleftrightarrow> pp_pool h \<and> pp_ptr h \<noteq> 0"

text \<open>The copy constructor yields a handle with the same fields, after retaining the block.\<close>

definition pp_copy :: "pool_ptr \<Rightarrow> mpool \<Rightarrow> (pool_ptr \<times> mpool) mres" where
  "pp_copy other s =
     (if pp_held other then bind_mres (retain (pp_ptr other) s) (\<lambda>s'. MOk (other, s')) else MOk (other, s))"

text \<open>The move constructor: the new handle, and what is left of the old one.\<close>

definition pp_move :: "pool_ptr \<Rightarrow> pool_ptr \<times> pool_ptr" where
  "pp_move other = (other, pp_null)"

definition pp_reset :: "pool_ptr \<Rightarrow> mpool \<Rightarrow> (pool_ptr \<times> mpool) mres" where
  "pp_reset h s =
     (if pp_held h then bind_mres (release (pp_ptr h) s) (\<lambda>s'. MOk (pp_null, s')) else MOk (pp_null, s))"

definition pp_copy_assign :: "nat \<Rightarrow> nat \<Rightarrow> pool_ptr list \<Rightarrow> mpool \<Rightarrow> (pool_ptr list \<times> mpool) mres" where
  "pp_copy_assign i j hs s =
     (if i = j then MOk (hs, s)
      else bind_mres (pp_reset (hs ! i) s) (\<lambda>(h0, s1).
        if pp_held (hs ! j)
        then bind_mres (retain (pp_ptr (hs ! j)) s1) (\<lambda>s2. MOk (hs[i := hs ! j], s2))
        else MOk (hs[i := hs ! j], s1)))"

definition pp_move_assign :: "nat \<Rightarrow> nat \<Rightarrow> pool_ptr list \<Rightarrow> mpool \<Rightarrow> (pool_ptr list \<times> mpool) mres" where
  "pp_move_assign i j hs s =
     (if i = j then MOk (hs, s)
      else bind_mres (pp_reset (hs ! i) s) (\<lambda>(h0, s1). MOk (hs[i := hs ! j, j := pp_null], s1)))"

text \<open>\<open>make_pool\<close> with the size of the object; a constructor that throws gives the block back.\<close>

definition make_pool :: "nat option \<Rightarrow> u64 \<Rightarrow> bool \<Rightarrow> mpool \<Rightarrow> (pool_ptr option \<times> mpool) mres" where
  "make_pool answer object_bytes throws s =
     bind_mres (allocate answer object_bytes s) (\<lambda>(mem, s1).
       if throws then bind_mres (release mem s1) (\<lambda>s2. MOk (None, s2))
       else MOk (Some (pp_take mem), s1))"

definition destroy_pool :: "pool_ptr \<Rightarrow> mpool \<Rightarrow> (pool_ptr \<times> mpool) mres" where
  "destroy_pool h s = (if pp_ptr h \<noteq> 0 then pp_reset h s else MOk (h, s))"

section \<open>Programs over handles\<close>

datatype handle_op =
    HMake "nat option" u64 bool
  | HCopy nat
  | HMove nat
  | HCopyAssign nat nat
  | HMoveAssign nat nat
  | HReset nat
  | HDestroy nat

fun handle_step :: "handle_op \<Rightarrow> pool_ptr list \<times> mpool \<Rightarrow> (pool_ptr list \<times> mpool) mres" where
  "handle_step (HMake answer bytes throws) (hs, s) =
     bind_mres (make_pool answer bytes throws s) (\<lambda>(h, s'). MOk (case h of None \<Rightarrow> hs | Some h \<Rightarrow> hs @ [h], s'))"
| "handle_step (HCopy i) (hs, s) = bind_mres (pp_copy (hs ! i) s) (\<lambda>(h, s'). MOk (hs @ [h], s'))"
| "handle_step (HMove i) (hs, s) = (case pp_move (hs ! i) of (h, old) \<Rightarrow> MOk (hs[i := old] @ [h], s))"
| "handle_step (HCopyAssign i j) (hs, s) = pp_copy_assign i j hs s"
| "handle_step (HMoveAssign i j) (hs, s) = pp_move_assign i j hs s"
| "handle_step (HReset i) (hs, s) = bind_mres (pp_reset (hs ! i) s) (\<lambda>(h, s'). MOk (hs[i := h], s'))"
| "handle_step (HDestroy i) (hs, s) = bind_mres (destroy_pool (hs ! i) s) (\<lambda>(h, s'). MOk (hs[i := h], s'))"

fun handle_op_ok :: "handle_op \<Rightarrow> pool_ptr list \<Rightarrow> bool" where
  "handle_op_ok (HMake answer bytes throws) hs \<longleftrightarrow> unat bytes + HDR < 2 ^ 64"
| "handle_op_ok (HCopy i) hs \<longleftrightarrow> i < length hs"
| "handle_op_ok (HMove i) hs \<longleftrightarrow> i < length hs"
| "handle_op_ok (HCopyAssign i j) hs \<longleftrightarrow> i < length hs \<and> j < length hs"
| "handle_op_ok (HMoveAssign i j) hs \<longleftrightarrow> i < length hs \<and> j < length hs"
| "handle_op_ok (HReset i) hs \<longleftrightarrow> i < length hs"
| "handle_op_ok (HDestroy i) hs \<longleftrightarrow> i < length hs"

text \<open>How many handles hold a block, and the invariant: that is its reference count.\<close>

definition owns :: "nat \<Rightarrow> pool_ptr \<Rightarrow> bool" where
  "owns p h \<longleftrightarrow> pp_held h \<and> pp_ptr h = p"

definition handles :: "pool_ptr list \<Rightarrow> nat \<Rightarrow> nat" where
  "handles hs p = count_pc (owns p) hs"

definition handles_inv :: "pool_ptr list \<times> mpool \<Rightarrow> bool" where
  [muses_inv]: "handles_inv c \<longleftrightarrow> (case c of (hs, s) \<Rightarrow>
     mp.counted (handles hs) s \<and> (\<forall>h \<in> set hs. pp_ptr h \<noteq> 0 \<longrightarrow> pp_pool h))"

lemma owns_null [simp]: "\<not> owns p pp_null" "pp_ptr pp_null = 0" "\<not> pp_held pp_null"
  by (simp_all add: owns_def pp_null_def pp_held_def)

lemma handles_update:
  assumes "i < length hs"
  shows "handles (hs[i := h]) p + of_bool (owns p (hs ! i)) = handles hs p + of_bool (owns p h)"
  using count_pc_update [OF assms, of "owns p" h] by (simp add: handles_def)

lemma handles_append: "handles (hs @ [h]) p = handles hs p + of_bool (owns p h)"
  by (simp add: handles_def count_pc_def)

lemma handles_le: "handles hs p \<le> length hs"
  by (simp add: handles_def count_pc_def)

lemma handles_pos: "i < length hs \<Longrightarrow> pp_held (hs ! i) \<Longrightarrow> 0 < handles hs (pp_ptr (hs ! i))"
  unfolding handles_def by (rule count_pc_pos) (simp_all add: owns_def)

lemma handles_drop:
  assumes "i < length hs"
  shows "handles (hs[i := pp_null]) =
    (if pp_held (hs ! i) then (handles hs)(pp_ptr (hs ! i) := handles hs (pp_ptr (hs ! i)) - 1) else handles hs)"
proof
  fix p
  show "handles (hs[i := pp_null]) p = (if pp_held (hs ! i)
      then (handles hs)(pp_ptr (hs ! i) := handles hs (pp_ptr (hs ! i)) - 1) else handles hs) p"
    using handles_update [OF assms, of pp_null p] by (auto simp: owns_def)
qed

lemma handles_fill:
  assumes "i < length hs" "hs ! i = pp_null"
  shows "handles (hs[i := h]) = (if pp_held h then (handles hs)(pp_ptr h := handles hs (pp_ptr h) + 1) else handles hs)"
proof
  fix p
  show "handles (hs[i := h]) p = (if pp_held h then (handles hs)(pp_ptr h := handles hs (pp_ptr h) + 1) else handles hs) p"
    using handles_update [OF assms(1), of h p] assms(2) by (auto simp: owns_def)
qed

text \<open>Resetting a handle in place.\<close>

lemma reset_inv:
  assumes inv: "handles_inv (hs, s)" and i: "i < length hs"
  obtains s' where "pp_reset (hs ! i) s = MOk (pp_null, s')" "handles_inv (hs[i := pp_null], s')"
proof -
  have c: "mp.counted (handles hs) s" and w: "\<forall>h \<in> set (hs[i := pp_null]). pp_ptr h \<noteq> 0 \<longrightarrow> pp_pool h"
    using inv set_update_subset_insert [of hs i pp_null] by (auto simp: handles_inv_def)
  show thesis
  proof (cases "pp_held (hs ! i)")
    case True
    obtain s' where "release (pp_ptr (hs ! i)) s = MOk s'"
        "mp.counted ((handles hs)(pp_ptr (hs ! i) := handles hs (pp_ptr (hs ! i)) - 1)) s'"
      using mp.counted_release [OF c handles_pos [OF i True]] by blast
    then show thesis using that [of s'] True w handles_drop [OF i] by (simp add: pp_reset_def handles_inv_def)
  next
    case False
    then show thesis using that [of s] c w handles_drop [OF i] by (simp add: pp_reset_def handles_inv_def)
  qed
qed

lemma handles_copy:
  "handles (hs @ [h]) = (if pp_held h then (handles hs)(pp_ptr h := handles hs (pp_ptr h) + 1) else handles hs)"
proof
  fix p
  show "handles (hs @ [h]) p = (if pp_held h then (handles hs)(pp_ptr h := handles hs (pp_ptr h) + 1) else handles hs) p"
    by (auto simp: handles_append owns_def)
qed

lemma copy_inv:
  assumes inv: "handles_inv (hs, s)" and i: "i < length hs" and few: "length hs + 1 < 2 ^ 32"
  obtains s' where "pp_copy (hs ! i) s = MOk (hs ! i, s')" "handles_inv (hs @ [hs ! i], s')"
proof -
  have c: "mp.counted (handles hs) s" and w: "\<forall>h \<in> set (hs @ [hs ! i]). pp_ptr h \<noteq> 0 \<longrightarrow> pp_pool h"
    using inv i by (auto simp: handles_inv_def)
  show thesis
  proof (cases "pp_held (hs ! i)")
    case True
    have "handles hs (pp_ptr (hs ! i)) + 1 < 2 ^ 32" using handles_le [of hs "pp_ptr (hs ! i)"] few by linarith
    from mp.counted_retain [OF c handles_pos [OF i True] this]
    obtain s' where "retain (pp_ptr (hs ! i)) s = MOk s'"
        "mp.counted ((handles hs)(pp_ptr (hs ! i) := handles hs (pp_ptr (hs ! i)) + 1)) s'" by blast
    then show thesis using that [of s'] True w handles_copy [of hs "hs ! i"] by (simp add: pp_copy_def handles_inv_def)
  next
    case False
    then show thesis using that [of s] c w handles_copy [of hs "hs ! i"] by (simp add: pp_copy_def handles_inv_def)
  qed
qed

lemma assign_inv:
  assumes inv: "handles_inv (hs, s)" and ij: "i < length hs" "j < length hs" "i \<noteq> j" and few: "length hs + 1 < 2 ^ 32"
  obtains s' where "pp_copy_assign i j hs s = MOk (hs[i := hs ! j], s')" "handles_inv (hs[i := hs ! j], s')"
proof -
  let ?g = "hs[i := pp_null]" and ?h = "hs ! j"
  obtain s1 where r: "pp_reset (hs ! i) s = MOk (pp_null, s1)" "handles_inv (?g, s1)" by (rule reset_inv [OF inv ij(1)])
  have c: "mp.counted (handles ?g) s1" using r(2) by (simp add: handles_inv_def)
  have w: "\<forall>h \<in> set (hs[i := ?h]). pp_ptr h \<noteq> 0 \<longrightarrow> pp_pool h"
    using inv ij(2) set_update_subset_insert [of hs i ?h] by (auto simp: handles_inv_def)
  have f: "handles (hs[i := ?h]) = (if pp_held ?h then (handles ?g)(pp_ptr ?h := handles ?g (pp_ptr ?h) + 1) else handles ?g)"
    using handles_fill [of i ?g ?h] ij by simp
  show thesis
  proof (cases "pp_held ?h")
    case True
    have "0 < handles ?g (pp_ptr ?h)" using handles_pos [of j ?g] True ij by simp
    moreover have "handles ?g (pp_ptr ?h) + 1 < 2 ^ 32" using handles_le [of ?g "pp_ptr ?h"] few by simp
    ultimately obtain s' where "retain (pp_ptr ?h) s1 = MOk s'"
        "mp.counted ((handles ?g)(pp_ptr ?h := handles ?g (pp_ptr ?h) + 1)) s'"
      using mp.counted_retain [OF c] by blast
    then show thesis using that [of s'] True w f r(1) ij(3) by (simp add: pp_copy_assign_def handles_inv_def)
  next
    case False
    then show thesis using that [of s1] c w f r(1) ij(3) by (simp add: pp_copy_assign_def handles_inv_def)
  qed
qed

lemma move_inv:
  assumes inv: "handles_inv (hs, s)" and i: "i < length hs"
  shows "handles_inv (hs[i := pp_null] @ [hs ! i], s)"
proof -
  have "handles (hs[i := pp_null] @ [hs ! i]) p = handles hs p" for p
    using handles_update [OF i, of pp_null p] by (simp add: handles_append)
  then have "handles (hs[i := pp_null] @ [hs ! i]) = handles hs" by blast
  moreover have "\<forall>h \<in> set (hs[i := pp_null] @ [hs ! i]). pp_ptr h \<noteq> 0 \<longrightarrow> pp_pool h"
    using inv i set_update_subset_insert [of hs i pp_null] by (auto simp: handles_inv_def)
  ultimately show ?thesis using inv by (simp add: handles_inv_def)
qed

lemma move_assign_inv:
  assumes inv: "handles_inv (hs, s)" and ij: "i < length hs" "j < length hs" "i \<noteq> j"
  obtains s' where "pp_move_assign i j hs s = MOk (hs[i := hs ! j, j := pp_null], s')"
    "handles_inv (hs[i := hs ! j, j := pp_null], s')"
proof -
  let ?g = "hs[i := pp_null]" and ?k = "hs[i := hs ! j, j := pp_null]"
  obtain s1 where r: "pp_reset (hs ! i) s = MOk (pp_null, s1)" "handles_inv (?g, s1)" by (rule reset_inv [OF inv ij(1)])
  have "handles ?k p = handles ?g p" for p
    using handles_update [of i hs "hs ! j" p] handles_update [of j "hs[i := hs ! j]" pp_null p]
      handles_update [of i hs pp_null p] ij by simp
  then have "handles ?k = handles ?g" by blast
  moreover have "set ?k \<subseteq> insert pp_null (set hs)"
    using set_update_subset_insert [of "hs[i := hs ! j]" j pp_null] set_update_subset_insert [of hs i "hs ! j"]
      nth_mem [OF ij(2)] by blast
  then have "\<forall>h \<in> set ?k. pp_ptr h \<noteq> 0 \<longrightarrow> pp_pool h" using inv by (auto simp: handles_inv_def)
  ultimately have "handles_inv (?k, s1)" using r(2) by (simp add: handles_inv_def)
  then show thesis using that [of s1] r(1) ij(3) by (simp add: pp_move_assign_def)
qed

lemma make_pool_inv:
  assumes inv: "handles_inv (hs, s)" and b: "unat bytes + HDR < 2 ^ 64"
  shows "case handle_step (HMake answer bytes throws) (hs, s) of MOk c \<Rightarrow> handles_inv c | r \<Rightarrow> r = MBadAlloc \<or> r = MIllegal"
proof -
  have c: "mp.counted (handles hs) s" and w: "\<forall>h \<in> set hs. pp_ptr h \<noteq> 0 \<longrightarrow> pp_pool h"
    using inv by (simp_all add: handles_inv_def)
  consider "allocate answer bytes s = MBadAlloc" | "allocate answer bytes s = MIllegal"
    | p s1 where "allocate answer bytes s = MOk (p, s1)"
    using allocate_outcome [OF b, of answer s] by blast
  then show ?thesis
  proof cases
    case (3 p s1)
    have a: "mp.counted ((handles hs)(p := 1)) s1" "handles hs p = 0" "p \<noteq> 0" using mp.counted_alloc [OF c b 3] by auto
    have held: "pp_held (pp_take p)" "pp_ptr (pp_take p) = p" using a(3) by (simp_all add: pp_held_def pp_take_def)
    have new: "handles_inv (hs @ [pp_take p], s1)"
      using a w handles_copy [of hs "pp_take p"] held by (simp add: handles_inv_def pp_held_def)
    obtain s2 where r: "release p s1 = MOk s2" "mp.counted (((handles hs)(p := 1))(p := 0)) s2"
      using mp.counted_release [OF a(1), of p] by auto
    have "((handles hs)(p := 1))(p := 0) = handles hs" using a(2) by auto
    then have "handles_inv (hs, s2)" using r(2) w by (simp add: handles_inv_def)
    then show ?thesis using 3 r(1) new by (simp add: make_pool_def)
  qed (simp_all add: make_pool_def)
qed

lemma handle_step_inv:
  assumes inv: "handles_inv (hs, s)" and op: "handle_op_ok op hs" and few: "length hs + 1 < 2 ^ 32"
  shows "case handle_step op (hs, s) of
      MOk c \<Rightarrow> handles_inv c | r \<Rightarrow> (\<exists>answer bytes throws. op = HMake answer bytes throws) \<and> (r = MBadAlloc \<or> r = MIllegal)"
proof (cases op)
  case (HMake answer bytes throws)
  then show ?thesis
    using make_pool_inv [OF inv, of bytes answer throws] op by (auto split: mres.splits)
next
  case (HCopy i)
  then obtain s' where "pp_copy (hs ! i) s = MOk (hs ! i, s')" "handles_inv (hs @ [hs ! i], s')"
    using copy_inv [OF inv _ few, of i] op by auto
  then show ?thesis using HCopy by simp
next
  case (HMove i)
  then show ?thesis using move_inv [OF inv, of i] op by (simp add: pp_move_def)
next
  case (HCopyAssign i j)
  show ?thesis
  proof (cases "i = j")
    case False
    then obtain s' where "pp_copy_assign i j hs s = MOk (hs[i := hs ! j], s')" "handles_inv (hs[i := hs ! j], s')"
      using assign_inv [OF inv _ _ _ few, of i j] op HCopyAssign by auto
    then show ?thesis using HCopyAssign by simp
  qed (use HCopyAssign inv in \<open>simp add: pp_copy_assign_def\<close>)
next
  case (HMoveAssign i j)
  show ?thesis
  proof (cases "i = j")
    case False
    then obtain s' where "pp_move_assign i j hs s = MOk (hs[i := hs ! j, j := pp_null], s')"
        "handles_inv (hs[i := hs ! j, j := pp_null], s')"
      using move_assign_inv [OF inv, of i j] op HMoveAssign by auto
    then show ?thesis using HMoveAssign by simp
  qed (use HMoveAssign inv in \<open>simp add: pp_move_assign_def\<close>)
next
  case (HReset i)
  then obtain s' where "pp_reset (hs ! i) s = MOk (pp_null, s')" "handles_inv (hs[i := pp_null], s')"
    using reset_inv [OF inv, of i] op by auto
  then show ?thesis using HReset by simp
next
  case (HDestroy i)
  then have i: "i < length hs" using op by simp
  show ?thesis
  proof (cases "pp_ptr (hs ! i) = 0")
    case True
    then show ?thesis using HDestroy inv i by (simp add: destroy_pool_def)
  next
    case False
    obtain s' where "pp_reset (hs ! i) s = MOk (pp_null, s')" "handles_inv (hs[i := pp_null], s')" by (rule reset_inv [OF inv i])
    then show ?thesis using HDestroy False by (simp add: destroy_pool_def)
  qed
qed

inductive handle_reach :: "pool_ptr list \<times> mpool \<Rightarrow> bool" where
  start: "\<lbrakk>0 < base; unat arena_bytes < 2 ^ 62; length cs \<le> unat ESCAPED\<rbrakk> \<Longrightarrow> handle_reach ([], mpool_new base arena_bytes cs)"
| step: "\<lbrakk>handle_reach (hs, s); handle_op_ok op hs; length hs + 1 < 2 ^ 32; handle_step op (hs, s) = MOk c\<rbrakk> \<Longrightarrow> handle_reach c"

lemma handle_reach_inv: "handle_reach c \<Longrightarrow> handles_inv c"
proof (induction rule: handle_reach.induct)
  case (start base arena_bytes cs)
  then show ?case
    using mpool_new_inv [of base arena_bytes cs] by (simp add: handles_inv_def mp.counted_def handles_def count_pc_def)
next
  case (step hs s op c)
  then show ?case using handle_step_inv [of hs s op] by simp
qed

text \<open>
  C24. Handles own what they point to.  In every program over \<open>PoolPtr\<close> handles (creation with or without a
  throwing constructor, copy, move, both assignments, self-assignment included, reset and destruction, in
  any order), the reference count of every block is the number of handles that hold it, so a block is
  freed exactly when its last handle goes and no handle dangles; and the next operation neither asserts
  nor is undefined, but can only fail for lack of memory while creating an object.
\<close>

theorem handles_own_blocks:
  assumes "handle_reach (hs, s)"
  shows "refs s p = (if handles hs p = 0 then None else Some (handles hs p)) \<and>
    (handle_op_ok op hs \<and> length hs + 1 < 2 ^ 32 \<longrightarrow>
      (case handle_step op (hs, s) of
         MOk c \<Rightarrow> handle_reach c
       | r \<Rightarrow> (\<exists>answer bytes throws. op = HMake answer bytes throws) \<and> (r = MBadAlloc \<or> r = MIllegal)))"
proof -
  have inv: "handles_inv (hs, s)" by (rule handle_reach_inv [OF assms])
  then have "refs s p = (if handles hs p = 0 then None else Some (handles hs p))"
    by (simp add: handles_inv_def mp.counted_def)
  moreover have "case handle_step op (hs, s) of MOk c \<Rightarrow> handle_reach c
      | r \<Rightarrow> (\<exists>answer bytes throws. op = HMake answer bytes throws) \<and> (r = MBadAlloc \<or> r = MIllegal)"
    if "handle_op_ok op hs" "length hs + 1 < 2 ^ 32"
    using handle_step_inv [OF inv that] handle_reach.step [OF assms that] by (simp split: mres.splits)
  ultimately show ?thesis by blast
qed

lemma handle_example: "handle_reach ([pp_take 4128], example_pool1)"
proof -
  have "handle_reach ([], example_pool)"
    unfolding example_pool_def by (rule handle_reach.start) (simp_all add: ESCAPED_def)
  then show ?thesis
    by (rule handle_reach.step [of _ _ "HMake None 10 False"]) (simp_all add: make_pool_def example_allocations HDR_def)
qed

theorem handles_own_blocks_witness: "refs example_pool1 4128 = Some (handles [pp_take 4128] 4128) \<and> handles [pp_take 4128] 4128 = 1"
  using handles_own_blocks [OF handle_example, of 4128]
  by (simp add: handles_def count_pc_def owns_def pp_take_def pp_held_def)

end
