(* ===== verification/Pooled_Buffer.thy ===== *)
theory Pooled_Buffer
  imports Pool_Contract
begin

text \<open>
  \<open>PooledBuffer\<close> of \<open>src/muses/memory_pool.hpp\<close>: a growable byte buffer in a block of the pool.  The bytes of
  the user regions are a memory of their own (\<open>nat \<Rightarrow> u8\<close>): by the disjointness of blocks in use, what the
  pool writes (headers, and link words of free slots) never falls into a block in use.
\<close>

section \<open>Memory\<close>

definition write_bytes :: "nat \<Rightarrow> u8 list \<Rightarrow> (nat \<Rightarrow> u8) \<Rightarrow> nat \<Rightarrow> u8" where
  "write_bytes a bs m = (\<lambda>x. if a \<le> x \<and> x < a + length bs then bs ! (x - a) else m x)"

definition read_bytes :: "nat \<Rightarrow> nat \<Rightarrow> (nat \<Rightarrow> u8) \<Rightarrow> u8 list" where
  "read_bytes a n m = map m [a..<a + n]"

lemma length_read [simp]: "length (read_bytes a n m) = n"
  by (simp add: read_bytes_def)

lemma read_write_same [simp]: "length bs = n \<Longrightarrow> read_bytes a n (write_bytes a bs m) = bs"
  by (rule nth_equalityI) (simp_all add: read_bytes_def write_bytes_def)

lemma read_write_disjoint:
  assumes "a + n \<le> b \<or> b + length bs \<le> a"
  shows "read_bytes a n (write_bytes b bs m) = read_bytes a n m"
  using assms by (intro nth_equalityI) (auto simp: read_bytes_def write_bytes_def)

lemma write_nothing [simp]: "write_bytes a [] m = m"
  by (rule ext) (auto simp: write_bytes_def)

lemma read_append: "read_bytes a (n + k) m = read_bytes a n m @ read_bytes (a + n) k m"
  unfolding read_bytes_def by (metis add.assoc le_add1 map_append upt_add_eq_append)

section \<open>The buffer\<close>

record pbuf =
  pb_pool :: bool
  pb_data :: nat
  pb_cap :: u64
  pb_len :: u64
  pb_scan :: u64

definition pb_default :: pbuf where
  "pb_default = \<lparr>pb_pool = False, pb_data = 0, pb_cap = 0, pb_len = 0, pb_scan = 0\<rparr>"

definition release_pool_block :: "pbuf \<Rightarrow> mpool \<Rightarrow> (pbuf \<times> mpool) mres" where
  "release_pool_block b s =
     bind_mres (if pb_pool b \<and> pb_data b \<noteq> 0 then release (pb_data b) s else MOk s)
       (\<lambda>s'. MOk (b\<lparr>pb_data := 0, pb_cap := 0\<rparr>, s'))"

definition reserve :: "nat option \<Rightarrow> u64 \<Rightarrow> pbuf \<Rightarrow> mpool \<Rightarrow> (nat \<Rightarrow> u8) \<Rightarrow> (pbuf \<times> mpool \<times> (nat \<Rightarrow> u8)) mres" where
  "reserve answer need b s m =
     (if need \<le> pb_cap b then MOk (b, s, m)
      else if \<not> pb_pool b then MUndefined
      else bind_mres (allocate answer need s) (\<lambda>(fresh, s1).
        if fresh = 0 then MOk (b, s1, m)
        else
          let saved_len = pb_len b;
              m' = (if pb_data b \<noteq> 0 \<and> saved_len > 0
                    then write_bytes fresh (read_bytes (pb_data b) (unat saved_len) m) m else m)
          in bind_mres (release_pool_block b s1) (\<lambda>(b', s2).
               MOk (b'\<lparr>pb_data := fresh, pb_cap := need, pb_len := saved_len\<rparr>, s2, m'))))"

definition pb_new :: "nat option \<Rightarrow> u64 \<Rightarrow> mpool \<Rightarrow> (nat \<Rightarrow> u8) \<Rightarrow> (pbuf \<times> mpool \<times> (nat \<Rightarrow> u8)) mres" where
  "pb_new answer initial_cap s m = reserve answer initial_cap (pb_default\<lparr>pb_pool := True\<rparr>) s m"

text \<open>The doubling loop of \<open>append\<close>; it runs forever when the doubling wraps to zero.\<close>

fun grow_loop :: "nat \<Rightarrow> u64 \<Rightarrow> u64 \<Rightarrow> u64 outcome" where
  "grow_loop 0 newcap want = Spinning"
| "grow_loop (Suc fuel) newcap want = (if newcap < want then grow_loop fuel (newcap * 2) want else Ret newcap)"

text \<open>\<open>append\<close> of the bytes \<open>src\<close>, which lie outside the buffer; \<open>None\<close> when the doubling loop does not end.\<close>

definition append_bytes ::
  "nat option \<Rightarrow> u8 list \<Rightarrow> pbuf \<Rightarrow> mpool \<Rightarrow> (nat \<Rightarrow> u8) \<Rightarrow> (bool \<times> pbuf \<times> mpool \<times> (nat \<Rightarrow> u8)) mres option" where
  "append_bytes answer src b s m =
     (let n = of_nat (length src); want = pb_len b + n;
          copy = (\<lambda>(b, s, m). MOk (True, b\<lparr>pb_len := pb_len b + n\<rparr>, s, write_bytes (pb_data b + unat (pb_len b)) src m))
      in if want > pb_cap b then
           (case grow_loop 65 (if pb_cap b = 0 then 4096 else pb_cap b) want of
              Ret newcap \<Rightarrow> Some (bind_mres (reserve answer newcap b s m) (\<lambda>(b', s', m').
                if pb_len b' + n > pb_cap b' then MOk (False, b', s', m') else copy (b', s', m')))
            | _ \<Rightarrow> None)
         else Some (copy (b, s, m)))"

definition reset_for_reuse :: "pbuf \<Rightarrow> pbuf" where
  "reset_for_reuse b = b\<lparr>pb_len := 0, pb_scan := 0\<rparr>"

definition set_size :: "u64 \<Rightarrow> pbuf \<Rightarrow> pbuf" where
  "set_size n b = b\<lparr>pb_len := n\<rparr>"

definition set_scan_pos :: "u64 \<Rightarrow> pbuf \<Rightarrow> pbuf" where
  "set_scan_pos p b = b\<lparr>pb_scan := p\<rparr>"

text \<open>The move constructor and the move assignment (of different objects): the target, and what is left of the source.\<close>

definition pb_move :: "pbuf \<Rightarrow> pbuf \<times> pbuf" where
  "pb_move other = (other, pb_default)"

definition pb_move_assign :: "pbuf \<Rightarrow> pbuf \<Rightarrow> mpool \<Rightarrow> (pbuf \<times> pbuf \<times> mpool) mres" where
  "pb_move_assign b other s = bind_mres (release_pool_block b s) (\<lambda>(b', s'). MOk (other, pb_default, s'))"

definition pb_destroy :: "pbuf \<Rightarrow> mpool \<Rightarrow> mpool mres" where
  "pb_destroy b s = bind_mres (release_pool_block b s) (\<lambda>(b', s'). MOk s')"

section \<open>Contents\<close>

definition contents :: "pbuf \<Rightarrow> (nat \<Rightarrow> u8) \<Rightarrow> u8 list" where
  [muses_abs]: "contents b m = read_bytes (pb_data b) (unat (pb_len b)) m"

definition pb_inv :: "pbuf \<Rightarrow> mpool \<Rightarrow> bool" where
  [muses_inv]: "pb_inv b s \<longleftrightarrow> mpool_inv s \<and> pb_pool b \<and> pb_len b \<le> pb_cap b \<and>
     (if pb_data b = 0 then pb_cap b = 0 else refs s (pb_data b) = Some 1 \<and> unat (pb_cap b) \<le> usable s (pb_data b))"

lemma doubled:
  fixes c :: u64
  assumes "unat c < 2 ^ 63"
  shows "unat (c * 2) = 2 * unat c" "c \<noteq> 0 \<Longrightarrow> c * 2 \<noteq> 0"
proof -
  show d: "unat (c * 2) = 2 * unat c" using assms by (simp add: unat_word_ariths)
  then show "c * 2 \<noteq> 0" if "c \<noteq> 0" using that by (metis mult_eq_0_iff unat_0 unat_eq_0 zero_neq_numeral)
qed

lemma want_unat:
  fixes n :: u64
  assumes "unat n + k \<le> 2 ^ 62"
  shows "unat (n + of_nat k) = unat n + k"
  using assms by (simp add: unat_word_ariths unat_of_nat)

lemma grow_loop_ok:
  assumes "newcap \<noteq> 0" "unat want \<le> 2 ^ 62" "unat newcap < 2 ^ 63" "unat want \<le> 2 ^ fuel * unat newcap"
  shows "\<exists>c. grow_loop (Suc fuel) newcap want = Ret c \<and> want \<le> c \<and> newcap \<le> c \<and> unat c < 2 ^ 63"
  using assms
proof (induction fuel arbitrary: newcap)
  case 0
  then show ?case by (simp add: word_le_nat_alt word_less_nat_alt)
next
  case (Suc fuel)
  show ?case
  proof (cases "newcap < want")
    case True
    then have lt: "unat newcap < unat want" by (simp add: word_less_nat_alt)
    then have d: "unat (newcap * 2) = 2 * unat newcap" "newcap * 2 \<noteq> 0"
      using Suc.prems(1,2) doubled [of newcap] by simp_all
    have "unat (newcap * 2) < 2 ^ 63" using d(1) lt Suc.prems(2) by simp
    moreover have "unat want \<le> 2 ^ fuel * unat (newcap * 2)" using Suc.prems(4) d(1) by (simp add: mult.commute mult.left_commute)
    ultimately obtain c where c: "grow_loop (Suc fuel) (newcap * 2) want = Ret c" "want \<le> c" "newcap * 2 \<le> c" "unat c < 2 ^ 63"
      using Suc.IH [of "newcap * 2"] Suc.prems(2) d(2) by blast
    moreover have "newcap \<le> newcap * 2" using d(1) by (simp add: word_le_nat_alt)
    ultimately show ?thesis using True by (intro exI [of _ c]) auto
  next
    case False
    then show ?thesis using Suc.prems by auto
  qed
qed

text \<open>Exchanging a block for a larger one, against the pool's contract.\<close>

context counted_store
begin

lemma exchange:
  assumes i: "inv s" and b: "unat b + HDR < 2 ^ 64" and al: "alloc answer b s = MOk (p, s1)" and old: "refs s old = Some 1"
  shows "\<exists>s2. release old s1 = MOk s2 \<and> inv s2 \<and> p \<noteq> 0 \<and> p \<noteq> old \<and> refs s2 = (refs s)(p \<mapsto> 1, old := None) \<and>
    unat b \<le> usable s2 p \<and> (\<forall>q n. refs s q = Some n \<longrightarrow> q \<noteq> old \<longrightarrow> usable s2 q = usable s q)"
proof -
  have a: "inv s1" "p \<noteq> 0" "refs s p = None" "refs s1 = (refs s)(p \<mapsto> 1)" "unat b \<le> usable s1 p"
    using alloc_law [OF i b al] by auto
  have po: "p \<noteq> old" using a(3) old by auto
  obtain s2 where s2: "release old s1 = MOk s2" "inv s2" "refs s2 = (refs s1)(old := None)"
    using release_law [OF a(1), of old 1] a(4) old po by auto
  have "usable s2 p = usable s1 p" using release_keeps [OF s2(1), of p 1] s2(3) a(4) po by simp
  moreover have "usable s2 q = usable s q" if "refs s q = Some n" "q \<noteq> old" for q n
  proof -
    have "refs s2 q = Some n" using that a(3,4) s2(3) by auto
    then show ?thesis using release_keeps [OF s2(1)] alloc_keeps [OF i b al that(1)] by simp
  qed
  ultimately show ?thesis using a s2 po by auto
qed

text \<open>Writing inside a block does not change the bytes of any other.\<close>

lemma write_elsewhere:
  assumes "inv s" "refs s p = Some n" "refs s q = Some k" "p \<noteq> q" "p \<le> a" "a + length bs \<le> p + usable s p"
  shows "read_bytes q (usable s q) (write_bytes a bs m) = read_bytes q (usable s q) m"
proof -
  have "q + usable s q \<le> p \<or> p + usable s p \<le> q"
    using disjoint_law [OF assms(1-4)] unfolding overlaps_def by linarith
  then show ?thesis using assms(5,6) by (intro read_write_disjoint) linarith
qed

end

text \<open>The bytes of every block but the buffer's own.\<close>

definition others_kept :: "nat \<Rightarrow> mpool \<Rightarrow> (nat \<Rightarrow> u8) \<Rightarrow> mpool \<Rightarrow> (nat \<Rightarrow> u8) \<Rightarrow> bool" where
  "others_kept d s m s' m' \<longleftrightarrow>
     (\<forall>q n. refs s q = Some n \<and> q \<noteq> d \<longrightarrow> refs s' q = Some n \<and> usable s' q = usable s q \<and>
        read_bytes q (usable s q) m' = read_bytes q (usable s q) m)"

lemma others_kept_trans:
  assumes "others_kept d s m s1 m1" "others_kept e s1 m1 s2 m2" "refs s e = None"
  shows "others_kept d s m s2 m2"
  unfolding others_kept_def
proof (intro allI impI)
  fix q n assume q: "refs s q = Some n \<and> q \<noteq> d"
  then have "q \<noteq> e" using assms(3) by auto
  moreover have "refs s1 q = Some n \<and> usable s1 q = usable s q \<and> read_bytes q (usable s q) m1 = read_bytes q (usable s q) m"
    using assms(1) q unfolding others_kept_def by blast
  ultimately show "refs s2 q = Some n \<and> usable s2 q = usable s q \<and> read_bytes q (usable s q) m2 = read_bytes q (usable s q) m"
    using assms(2) unfolding others_kept_def by metis
qed

lemma reserve_ok:
  assumes inv: "pb_inv b s" and need: "unat need + HDR < 2 ^ 64" "pb_cap b < need" and al: "allocate answer need s = MOk (fresh, s1)"
  obtains b' s2 m' where "reserve answer need b s m = MOk (b', s2, m')" "pb_inv b' s2" "contents b' m' = contents b m"
    "pb_cap b' = need" "pb_len b' = pb_len b" "pb_scan b' = pb_scan b" "others_kept (pb_data b) s m s2 m'"
    "refs s (pb_data b') = None"
proof -
  have i: "mpool_inv s" "pb_pool b" "unat (pb_len b) \<le> unat (pb_cap b)" using inv by (auto simp: pb_inv_def word_le_nat_alt)
  have lt: "unat (pb_cap b) < unat need" "\<not> need \<le> pb_cap b" using need(2) by (auto simp: word_less_nat_alt word_le_nat_alt)
  have f: "fresh \<noteq> 0" "refs s fresh = None" using mp.alloc_law [OF i(1) need(1) al] by auto
  obtain s2 where s2: "release_pool_block b s1 = MOk (b\<lparr>pb_data := 0, pb_cap := 0\<rparr>, s2)" "mpool_inv s2"
      "refs s2 fresh = Some 1" "unat need \<le> usable s2 fresh"
      "\<And>q n. refs s q = Some n \<Longrightarrow> q \<noteq> pb_data b \<Longrightarrow> refs s2 q = Some n \<and> usable s2 q = usable s q"
  proof (cases "pb_data b = 0")
    case True
    have "refs s1 q = Some n" if "refs s q = Some n" for q n
      using mp.alloc_law [OF i(1) need(1) al] that by (cases "q = fresh") auto
    then show ?thesis
      using that [of s1] mp.alloc_law [OF i(1) need(1) al] mp.alloc_keeps [OF i(1) need(1) al] True
      by (simp add: release_pool_block_def)
  next
    case False
    then have old: "refs s (pb_data b) = Some 1" using inv by (simp add: pb_inv_def)
    from mp.exchange [OF i(1) need(1) al old] obtain s2 where x:
      "release (pb_data b) s1 = MOk s2" "mpool_inv s2" "fresh \<noteq> pb_data b" "refs s2 = (refs s)(fresh \<mapsto> 1, pb_data b := None)"
      "unat need \<le> usable s2 fresh" "\<forall>q n. refs s q = Some n \<longrightarrow> q \<noteq> pb_data b \<longrightarrow> usable s2 q = usable s q" by blast
    have "refs s2 q = Some n" if "refs s q = Some n" "q \<noteq> pb_data b" for q n
      using x(4) that f(2) by (cases "q = fresh") auto
    then show ?thesis using that [of s2] x False i(2) by (simp add: release_pool_block_def)
  qed
  define m' where "m' = (if pb_data b \<noteq> 0 \<and> pb_len b > 0
    then write_bytes fresh (read_bytes (pb_data b) (unat (pb_len b)) m) m else m)"
  let ?b = "b\<lparr>pb_data := fresh, pb_cap := need\<rparr>"
  have r: "reserve answer need b s m = MOk (?b, s2, m')"
    using lt i(2) al f(1) s2(1) by (simp add: reserve_def m'_def Let_def)
  have "pb_data b = 0 \<Longrightarrow> pb_len b = 0" using inv by (auto simp: pb_inv_def)
  then have c: "contents ?b m' = contents b m"
    by (cases "pb_len b = 0") (auto simp: contents_def m'_def word_gt_0 read_bytes_def [of _ 0])
  have k: "others_kept (pb_data b) s m s2 m'"
    unfolding others_kept_def
  proof (intro allI impI)
    fix q n assume q: "refs s q = Some n \<and> q \<noteq> pb_data b"
    then have q2: "refs s2 q = Some n" "usable s2 q = usable s q" using s2(5) by auto
    have "fresh \<noteq> q" using q f(2) by auto
    then have "read_bytes q (usable s q) m' = read_bytes q (usable s q) m"
      using mp.write_elsewhere [OF s2(2,3) q2(1)] q2(2) s2(4) i(3) lt(1) by (simp add: m'_def)
    then show "refs s2 q = Some n \<and> usable s2 q = usable s q \<and> read_bytes q (usable s q) m' = read_bytes q (usable s q) m"
      using q2 by simp
  qed
  have "pb_inv ?b s2" using i lt s2(2-4) f(1) by (simp add: pb_inv_def word_le_nat_alt)
  then show ?thesis using that [OF r _ c _ _ _ k] f(2) by simp
qed

lemma copy_ok:
  fixes m :: "nat \<Rightarrow> u8"
  assumes inv: "pb_inv b s" and room: "unat (pb_len b) + length src \<le> unat (pb_cap b)"
  defines "b' \<equiv> b\<lparr>pb_len := pb_len b + of_nat (length src)\<rparr>" and "m' \<equiv> write_bytes (pb_data b + unat (pb_len b)) src m"
  shows "pb_inv b' s" "contents b' m' = contents b m @ src" "others_kept (pb_data b) s m s m'"
proof -
  have len: "unat (pb_len b + of_nat (length src)) = unat (pb_len b) + length src"
    using room unsigned_less [of "pb_cap b", where 'a = nat] by (simp add: unat_word_ariths unat_of_nat)
  show "pb_inv b' s" using inv room len by (auto simp: pb_inv_def b'_def word_le_nat_alt)
  show "contents b' m' = contents b m @ src"
    by (simp add: contents_def b'_def m'_def len read_append read_write_disjoint)
  have "read_bytes q (usable s q) m' = read_bytes q (usable s q) m" if "refs s q = Some n" "q \<noteq> pb_data b" for q n
  proof (cases "pb_data b = 0")
    case True
    then have "src = []" using inv room by (auto simp: pb_inv_def)
    then show ?thesis by (simp add: m'_def)
  next
    case False
    then have "refs s (pb_data b) = Some 1" "unat (pb_cap b) \<le> usable s (pb_data b)" "mpool_inv s" using inv by (auto simp: pb_inv_def)
    then show ?thesis using mp.write_elsewhere [of s "pb_data b" 1 q n "pb_data b + unat (pb_len b)" src m] that room
      by (simp add: m'_def)
  qed
  then show "others_kept (pb_data b) s m s m'" by (auto simp: others_kept_def)
qed

text \<open>
  The doubling loop of \<open>append\<close> ends, within 65 rounds, whenever the wanted size is at most \<open>2^63\<close>; the capacity
  it finds is large enough, and less than twice the wanted size unless the old capacity was large enough already.
\<close>

lemma pooled_growth_terminates:
  assumes "newcap \<noteq> 0" "unat want \<le> 2 ^ 63"
  shows "\<exists>c. grow_loop 65 newcap want = Ret c \<and> want \<le> c \<and> (c = newcap \<or> unat c < 2 * unat want)"
proof -
  have "\<exists>c. grow_loop (Suc fuel) newcap want = Ret c \<and> want \<le> c \<and> (c = newcap \<or> unat c < 2 * unat want)"
    if "newcap \<noteq> 0" "unat want \<le> 2 ^ fuel * unat newcap" for fuel and newcap :: u64
    using that
  proof (induction fuel arbitrary: newcap)
    case 0
    then show ?case by (simp add: word_le_nat_alt word_less_nat_alt)
  next
    case (Suc fuel)
    show ?case
    proof (cases "newcap < want")
      case True
      then have d: "unat (newcap * 2) = 2 * unat newcap" "newcap * 2 \<noteq> 0"
        using Suc.prems(1) assms(2) doubled by (auto simp: word_less_nat_alt)
      have "unat want \<le> 2 ^ fuel * unat (newcap * 2)" using Suc.prems(2) d(1) by (simp add: mult.commute mult.left_commute)
      then obtain c where "grow_loop (Suc fuel) (newcap * 2) want = Ret c" "want \<le> c" "c = newcap * 2 \<or> unat c < 2 * unat want"
        using Suc.IH [of "newcap * 2"] d(2) by blast
      then show ?thesis using True d(1) by (intro exI [of _ c]) (auto simp: word_less_nat_alt)
    qed auto
  qed
  from this [of newcap 64] have "unat want \<le> 2 ^ 64 * unat newcap \<Longrightarrow> ?thesis" using assms(1) by simp
  moreover have "1 \<le> unat newcap" using assms(1) by (simp add: Suc_le_eq unat_gt_0)
  ultimately show ?thesis using assms(2) by simp
qed

text \<open>
  C25. \<open>append\<close> on a buffer that holds less than \<open>2^62\<close> bytes either fails in the allocator or puts the new bytes after
  the ones the buffer had, grown or not: the buffer stays well-formed and keeps its scan position, the bytes, the reference
  counts and the sizes of all other blocks of the pool are unchanged, and the pool is not touched at all when the bytes fit
  into the block the buffer has.
\<close>

theorem pooled_append:
  assumes inv: "pb_inv b s" and few: "unat (pb_len b) + length src \<le> 2 ^ 62" and cap: "unat (pb_cap b) < 2 ^ 63"
  shows "\<exists>r. append_bytes answer src b s m = Some r \<and>
    (case r of
       MOk (ok, b', s', m') \<Rightarrow> ok \<and> pb_inv b' s' \<and> contents b' m' = contents b m @ src \<and> pb_scan b' = pb_scan b \<and>
         others_kept (pb_data b) s m s' m' \<and> (unat (pb_len b) + length src \<le> unat (pb_cap b) \<longrightarrow> s' = s)
     | MBadAlloc \<Rightarrow> True
     | MIllegal \<Rightarrow> True
     | _ \<Rightarrow> False)"
proof (cases "unat (pb_len b) + length src \<le> unat (pb_cap b)")
  case True
  then show ?thesis using copy_ok [OF inv True] want_unat [OF few] by (simp add: append_bytes_def Let_def word_less_nat_alt)
next
  case False
  let ?want = "pb_len b + of_nat (length src)" and ?old = "if pb_cap b = 0 then 4096 else pb_cap b"
  have w: "unat ?want = unat (pb_len b) + length src" "pb_cap b < ?want"
    using want_unat [OF few] False by (auto simp: word_less_nat_alt)
  have "unat ?want \<le> 2 ^ 64 * unat ?old"
  proof -
    have "1 \<le> unat ?old" by (simp add: Suc_le_eq unat_gt_0)
    then show ?thesis using few w(1) by simp
  qed
  moreover have "unat ?old < 2 ^ 63" using cap by simp
  ultimately obtain c where c: "grow_loop 65 ?old ?want = Ret c" "?want \<le> c" "unat c < 2 ^ 63"
    using grow_loop_ok [of ?old ?want 64] few w(1) by (auto split: if_splits)
  have small: "unat c + HDR < 2 ^ 64" "pb_cap b < c" using c(2,3) w(2) by (simp_all add: HDR_def)
  have app: "append_bytes answer src b s m = Some (bind_mres (reserve answer c b s m) (\<lambda>(b', s', m').
      if pb_len b' + of_nat (length src) > pb_cap b' then MOk (False, b', s', m')
      else MOk (True, b'\<lparr>pb_len := pb_len b' + of_nat (length src)\<rparr>, s', write_bytes (pb_data b' + unat (pb_len b')) src m')))"
    using c(1) w(2) by (simp add: append_bytes_def Let_def cong: if_cong)
  consider (fails) "allocate answer c s \<in> {MBadAlloc, MIllegal}" | (grown) p s1 where "allocate answer c s = MOk (p, s1)"
    using allocate_outcome [OF small(1)] by blast
  then show ?thesis
  proof cases
    case fails
    then show ?thesis using app small(2) inv by (auto simp: reserve_def pb_inv_def)
  next
    case grown
    obtain b1 s2 m1 where r: "reserve answer c b s m = MOk (b1, s2, m1)" "pb_inv b1 s2" "contents b1 m1 = contents b m"
      "pb_cap b1 = c" "pb_len b1 = pb_len b" "pb_scan b1 = pb_scan b" "others_kept (pb_data b) s m s2 m1" "refs s (pb_data b1) = None"
      by (rule reserve_ok [OF inv small grown])
    have room: "unat (pb_len b1) + length src \<le> unat (pb_cap b1)" using c(2) w(1) r(4,5) by (simp add: word_le_nat_alt)
    note cp = copy_ok [OF r(2) room]
    have "others_kept (pb_data b) s m s2 (write_bytes (pb_data b1 + unat (pb_len b1)) src m1)"
      by (rule others_kept_trans [OF r(7) cp(3) r(8)])
    then show ?thesis using app r(1-6) cp(1,2) c(2) False by (simp add: not_less)
  qed
qed

theorem pooled_append_witness:
  "\<exists>b' s' m'. append_bytes None [1, 2] (pb_default\<lparr>pb_pool := True, pb_data := 4128, pb_cap := 10\<rparr>) example_pool1 (\<lambda>_. 0) =
     Some (MOk (True, b', s', m')) \<and> contents b' m' = [1, 2] \<and> s' = example_pool1"
proof -
  let ?b = "pb_default\<lparr>pb_pool := True, pb_data := 4128, pb_cap := 10\<rparr>"
  have "pb_inv ?b example_pool1"
    using mpool_reach_inv [OF example_reach(2)]
    by (simp add: pb_inv_def pb_default_def refs_def usable_def header_of_def HDR_def ESCAPED_def example_pool1_def)
  then show ?thesis
    using pooled_append [of ?b example_pool1 "[1, 2]" None "\<lambda>_. 0"]
    by (simp add: pb_default_def append_bytes_def Let_def contents_def [of "\<lparr>pb_pool = True, pb_data = 4128, pb_cap = 10, pb_len = 0, pb_scan = 0\<rparr>"] read_bytes_def [of _ 0])
qed

end
