(* ===== verification/Http_Handler.thy ===== *)
theory Http_Handler
  imports Lru_Cache "HOL-Library.Sublist"
begin

text \<open>
  The static-file handler of \<open>src/muses/net_components/http_handler.hpp\<close>: \<open>HttpInfo\<close>, \<open>HttpResponse\<close> and
  \<open>HttpContext\<close>.  Bytes are characters and a \<open>std::string\<close> is a list of them.

  An \<open>istringstream\<close> is the text not yet read and its two state bits; \<open>std::getline\<close>, \<open>get\<close> and \<open>tellg\<close> set and
  test the bits as the standard says: a call on a stream that is not good fails at once and leaves the string as it
  was, reaching the end sets \<open>eofbit\<close>, and extracting nothing sets \<open>failbit\<close>.

  The file system is a parameter \<open>fsys\<close>: \<open>canonical\<close> and \<open>weakly_canonical\<close> (\<open>None\<close>: the error code is set),
  \<open>exists\<close> (\<open>None\<close>: it throws), and what opening a path for reading gives (the position \<open>tellg\<close> reports at the end, a
  signed 64-bit number, and the bytes \<open>read\<close> can deliver).  A string of the size that \<open>tellg\<close> reports throws
  \<open>std::length_error\<close> above \<open>max_size()\<close> and \<open>std::bad_alloc\<close> above the memory there is; both bounds are parameters too.
  All other strings are assumed to fit into memory.  The log calls are left out.
\<close>

section \<open>Library calls\<close>

datatype exn = OutOfRange | FilesystemError | LengthError | BadAlloc

datatype 'r call = Returns 'r | Throws exn | CallUndefined

primrec bind_call :: "'r call \<Rightarrow> ('r \<Rightarrow> 's call) \<Rightarrow> 's call" where
  "bind_call (Returns r) f = f r"
| "bind_call (Throws e) f = Throws e"
| "bind_call CallUndefined f = CallUndefined"

lemma bind_call_Returns:
  assumes "bind_call x f = Returns r"
  obtains y where "x = Returns y" "f y = Returns r"
  using assms by (cases x) auto

abbreviation CR :: char where "CR \<equiv> CHR 0x0D"
abbreviation LF :: char where "LF \<equiv> CHR 0x0A"
abbreviation SP :: char where "SP \<equiv> CHR '' ''"

record istream =
  is_rest :: string
  is_eof :: bool
  is_fail :: bool

definition istringstream :: "string \<Rightarrow> istream" where
  "istringstream s = \<lparr>is_rest = s, is_eof = False, is_fail = False\<rparr>"

definition is_good :: "istream \<Rightarrow> bool" where
  "is_good st \<longleftrightarrow> \<not> is_eof st \<and> \<not> is_fail st"

text \<open>\<open>std::getline(stream, s, delim)\<close>: whether the stream is not failed afterwards, the stream, and the string.\<close>

definition getline :: "istream \<Rightarrow> string \<Rightarrow> char \<Rightarrow> bool \<times> istream \<times> string" where
  "getline st s delim =
     (if \<not> is_good st then (False, st\<lparr>is_fail := True\<rparr>, s)
      else
        let line = takeWhile (\<lambda>c. c \<noteq> delim) (is_rest st); rest = dropWhile (\<lambda>c. c \<noteq> delim) (is_rest st)
        in if rest = [] then (line \<noteq> [], \<lparr>is_rest = [], is_eof = True, is_fail = (line = [])\<rparr>, line)
           else (True, st\<lparr>is_rest := tl rest\<rparr>, line))"

text \<open>\<open>stream.get()\<close>.\<close>

definition stream_get :: "istream \<Rightarrow> istream" where
  "stream_get st =
     (if \<not> is_good st then st\<lparr>is_fail := True\<rparr>
      else if is_rest st = [] then st\<lparr>is_eof := True, is_fail := True\<rparr>
      else st\<lparr>is_rest := tl (is_rest st)\<rparr>)"

text \<open>\<open>std::string::find\<close>; \<open>None\<close> is \<open>npos\<close>.\<close>

fun str_find :: "string \<Rightarrow> string \<Rightarrow> nat option" where
  "str_find pat [] = (if pat = [] then Some 0 else None)"
| "str_find pat (c # cs) = (if prefix pat (c # cs) then Some 0 else map_option Suc (str_find pat cs))"

text \<open>\<open>std::string::substr(pos)\<close>.\<close>

definition substr_from :: "string \<Rightarrow> nat \<Rightarrow> string call" where
  "substr_from s pos = (if pos \<le> length s then Returns (drop pos s) else Throws OutOfRange)"

text \<open>\<open>std::format\<close> of an unsigned or nonnegative integer.\<close>

fun decimal :: "nat \<Rightarrow> string" where
  "decimal n = (if n < 10 then [char_of (48 + n)] else decimal (n div 10) @ [char_of (48 + n mod 10)])"

declare decimal.simps [simp del]

text \<open>
  \<open>std::mismatch\<close> with a single iterator into the second range: what is left of both ranges, or undefined when the
  second range ends first.
\<close>

fun mismatch :: "'a list \<Rightarrow> 'a list \<Rightarrow> ('a list \<times> 'a list) call" where
  "mismatch [] ys = Returns ([], ys)"
| "mismatch (x # xs) [] = CallUndefined"
| "mismatch (x # xs) (y # ys) = (if x = y then mismatch xs ys else Returns (x # xs, y # ys))"

text \<open>\<open>fs::path\<close>: \<open>operator/\<close>, and the elements that its iterators visit.\<close>

definition path_append :: "string \<Rightarrow> string \<Rightarrow> string" where
  "path_append p q =
     (if q \<noteq> [] \<and> hd q = CHR ''/'' then q
      else if p \<noteq> [] \<and> last p \<noteq> CHR ''/'' then p @ ''/'' @ q
      else p @ q)"

function path_names :: "string \<Rightarrow> string list" where
  "path_names s =
     (if s = [] then []
      else if hd s = CHR ''/'' then
        (let s' = dropWhile (\<lambda>c. c = CHR ''/'') s in if s' = [] then [[]] else path_names s')
      else takeWhile (\<lambda>c. c \<noteq> CHR ''/'') s # path_names (dropWhile (\<lambda>c. c \<noteq> CHR ''/'') s))"
  by pat_completeness auto
termination
proof (relation "measure length", goal_cases)
  case (2 s x)
  then show ?case by (cases s) (auto simp: less_Suc_eq_le length_dropWhile_le)
next
  case (3 s)
  then show ?case by (cases s) (auto simp: less_Suc_eq_le length_dropWhile_le)
qed simp

declare path_names.simps [simp del]

definition path_elems :: "string \<Rightarrow> string list" where
  "path_elems s =
     (if s \<noteq> [] \<and> hd s = CHR ''/''
      then ''/'' # path_names (dropWhile (\<lambda>c. c = CHR ''/'') s)
      else path_names s)"

record fsys =
  fs_canonical :: "string \<Rightarrow> string option"
  fs_weakly_canonical :: "string \<Rightarrow> string option"
  fs_exists :: "string \<Rightarrow> bool option"
  fs_open :: "string \<Rightarrow> (u64 \<times> string) option"
  fs_max_size :: nat
  fs_memory :: nat

section \<open>Requests\<close>

record http_info =
  http_method :: string
  url :: string
  version :: string
  headers :: "string \<Rightarrow> string option"
  body :: string

definition wants_keep_alive :: "http_info \<Rightarrow> bool" where
  "wants_keep_alive info =
     (case headers info ''Connection'' of
        Some v \<Rightarrow> str_find ''close'' v = None
      | None \<Rightarrow> version info = ''HTTP/1.1'')"

definition stream_left :: "istream \<Rightarrow> nat" where
  "stream_left st = length (is_rest st) + (if is_good st then 1 else 0)"

lemma getline_shrinks: "getline st s d = (True, st', l) \<Longrightarrow> stream_left st' < stream_left st"
proof (cases "dropWhile (\<lambda>c. c \<noteq> d) (is_rest st)")
  case (Cons a rest)
  then have "length (a # rest) \<le> length (is_rest st)" by (metis length_dropWhile_le)
  moreover assume "getline st s d = (True, st', l)"
  ultimately show ?thesis using Cons by (auto simp: getline_def is_good_def stream_left_def split: if_splits)
qed (auto simp: getline_def is_good_def stream_left_def Let_def split: if_splits)

text \<open>One header line, without its line feed: \<open>line[pos + 1]\<close> is the terminating null at the end of the line.\<close>

definition parse_header :: "string \<Rightarrow> (string \<Rightarrow> string option) \<Rightarrow> (string \<Rightarrow> string option) call" where
  "parse_header line0 hs =
     (let line = (if line0 \<noteq> [] \<and> last line0 = CR then butlast line0 else line0);
          pos = (case str_find '': '' line of None \<Rightarrow> str_find '':'' line | Some p \<Rightarrow> Some p)
      in case pos of
           None \<Rightarrow> Returns hs
         | Some p \<Rightarrow>
             bind_call (substr_from line (if p + 1 < length line \<and> line ! (p + 1) = SP then p + 2 else p + 1)) (\<lambda>val.
               Returns (hs(take p line \<mapsto> val))))"

function header_loop :: "istream \<Rightarrow> string \<Rightarrow> (string \<Rightarrow> string option) \<Rightarrow> (istream \<times> (string \<Rightarrow> string option)) call" where
  "header_loop st line hs =
     (case getline st line LF of
        (ok, st', line') \<Rightarrow>
          if \<not> ok then Returns (st', hs)
          else if line' = [CR] \<or> line' = [] then Returns (st', hs)
          else bind_call (parse_header line' hs) (\<lambda>hs'. header_loop st' line' hs'))"
  by pat_completeness auto
termination
proof (relation "measure (\<lambda>(st, line, hs). stream_left st)", goal_cases)
  case (2 st line hs x xa st' line' hs')
  then show ?case using getline_shrinks [of st line LF st' line'] by simp
qed simp

declare header_loop.simps [simp del]

definition no_request :: http_info where
  "no_request = \<lparr>http_method = [], url = [], version = [], headers = Map.empty, body = []\<rparr>"

definition parse_request :: "string \<Rightarrow> http_info call" where
  "parse_request request =
     (case getline (istringstream request) [] SP of (ok, st1, m) \<Rightarrow>
      let info1 = no_request\<lparr>http_method := m\<rparr> in
      if \<not> ok then Returns info1
      else case getline st1 [] SP of (ok, st2, u) \<Rightarrow>
      let info2 = info1\<lparr>url := u\<rparr> in
      if \<not> ok then Returns info2
      else case getline st2 [] CR of (ok, st3, ver) \<Rightarrow>
      if \<not> ok then Returns info2
      else bind_call (header_loop (stream_get st3) [] Map.empty) (\<lambda>(st4, hs).
        let info3 = info2\<lparr>version := ver, headers := hs\<rparr> in
        Returns (if is_good st4 \<and> is_rest st4 \<noteq> [] then info3\<lparr>body := is_rest st4\<rparr> else info3)))"

section \<open>Responses\<close>

record http_response =
  response :: string
  keep_alive :: bool

definition read_file :: "fsys \<Rightarrow> string \<Rightarrow> (bool \<times> string) call" where
  "read_file fs file_path =
     (case fs_open fs file_path of
        None \<Rightarrow> Returns (False, [])
      | Some (sz, data) \<Rightarrow>
          if sint sz \<le> 0 then Returns (True, [])
          else if unat sz > fs_max_size fs then Throws LengthError
          else if unat sz > fs_memory fs then Throws BadAlloc
          else Returns (True, take (unat sz) data @ replicate (unat sz - length data) (char_of (0::nat))))"

definition file_cache :: "(string, string) lru" where
  "file_cache = lru_new 256"

text \<open>\<open>find_last_of\<close> of one character.\<close>

definition find_last :: "char \<Rightarrow> string \<Rightarrow> nat option" where
  "find_last c s =
     (case dropWhile (\<lambda>x. x \<noteq> c) (rev s) of [] \<Rightarrow> None | _ # before \<Rightarrow> Some (length before))"

definition get_content_type :: "string \<Rightarrow> string" where
  "get_content_type file_path =
     (case find_last CHR ''.'' file_path of
        None \<Rightarrow> ''application/octet-stream''
      | Some dot \<Rightarrow>
          let ext = drop dot file_path in
          if ext = ''.html'' \<or> ext = ''.htm'' then ''text/html; charset=utf-8''
          else if ext = ''.css'' then ''text/css; charset=utf-8''
          else if ext = ''.js'' then ''application/javascript; charset=utf-8''
          else if ext = ''.jpg'' \<or> ext = ''.jpeg'' then ''image/jpeg''
          else if ext = ''.png'' then ''image/png''
          else if ext = ''.gif'' then ''image/gif''
          else if ext = ''.svg'' then ''image/svg+xml''
          else if ext = ''.json'' then ''application/json''
          else if ext = ''.txt'' then ''text/plain; charset=utf-8''
          else ''application/octet-stream'')"

abbreviation crlf :: string where "crlf \<equiv> [CR, LF]"

definition build_response :: "nat \<Rightarrow> string \<Rightarrow> string \<Rightarrow> string \<Rightarrow> bool \<Rightarrow> string" where
  "build_response status status_text content_type bdy alive =
     ''HTTP/1.1 '' @ decimal status @ '' '' @ status_text @ crlf @
     ''Content-Type: '' @ content_type @ crlf @
     ''Content-Length: '' @ decimal (length bdy) @ crlf @
     ''Connection: '' @ (if alive then ''keep-alive'' else ''close'') @ crlf @
     crlf @ bdy"

text \<open>The bytes, the flag \<open>*ok\<close>, and the cache.\<close>

definition send_response ::
  "fsys \<Rightarrow> string \<Rightarrow> bool \<Rightarrow> (string, string) lru \<Rightarrow> (string \<times> bool \<times> (string, string) lru) call" where
  "send_response fs file_path alive c =
     (case lru_get file_path c of
        None \<Rightarrow> CallUndefined
      | Some (Some cached, c1) \<Rightarrow>
          Returns (build_response 200 ''OK'' (get_content_type file_path) cached alive, True, c1)
      | Some (None, c1) \<Rightarrow>
          bind_call (read_file fs file_path) (\<lambda>(exists, content).
             if \<not> exists then
               Returns (build_response 500 ''Internal Server Error'' ''text/plain'' ''500 Error'' False, exists, c1)
             else case lru_put file_path content c1 of
                    None \<Rightarrow> CallUndefined
                  | Some c2 \<Rightarrow>
                      Returns (build_response 200 ''OK'' (get_content_type file_path) content alive, exists, c2)))"

definition send_404 :: "fsys \<Rightarrow> bool \<Rightarrow> string call" where
  "send_404 fs alive =
     bind_call (read_file fs ''./statics/404.html'') (\<lambda>(exists, content). Returns
       (build_response 404 ''Not Found'' ''text/html; charset=utf-8'' (if exists then content else ''404 Not Found'') alive))"

definition send_405 :: "fsys \<Rightarrow> bool \<Rightarrow> string call" where
  "send_405 fs alive =
     bind_call (read_file fs ''./statics/405.html'') (\<lambda>(exists, content). Returns
       (build_response 405 ''Method Not Allowed'' ''text/html; charset=utf-8''
          (if exists then content else ''405 Method Not Allowed'') alive))"

datatype resolve_error = NoStaticsRoot | InvalidPath | TraversalBlocked | NotFound

definition resolve_safe_path :: "fsys \<Rightarrow> string \<Rightarrow> (resolve_error + string) call" where
  "resolve_safe_path fs u =
     (case fs_canonical fs ''./statics'' of
        None \<Rightarrow> Returns (Inl NoStaticsRoot)
      | Some root \<Rightarrow>
          let rel = (if u = ''/'' then ''/index.html'' else u) in
          bind_call (substr_from rel 1) (\<lambda>tail.
            case fs_weakly_canonical fs (path_append root tail) of
              None \<Rightarrow> Returns (Inl InvalidPath)
            | Some target \<Rightarrow>
                bind_call (mismatch (path_elems root) (path_elems target)) (\<lambda>(root_it, target_it).
                  if root_it \<noteq> [] then Returns (Inl TraversalBlocked)
                  else case fs_exists fs target of
                         None \<Rightarrow> Throws FilesystemError
                       | Some False \<Rightarrow> Returns (Inl NotFound)
                       | Some True \<Rightarrow> Returns (Inr target))))"

definition handle_request ::
  "fsys \<Rightarrow> string \<Rightarrow> (string, string) lru \<Rightarrow> (http_response \<times> (string, string) lru) call" where
  "handle_request fs request c =
     bind_call (parse_request request) (\<lambda>info.
       let alive = wants_keep_alive info in
       if http_method info = [] then
         Returns (\<lparr>response = build_response 400 ''Bad Request'' ''text/plain'' ''400 Bad Request'' False, keep_alive = False\<rparr>, c)
       else if http_method info \<noteq> ''GET'' then
         bind_call (send_405 fs alive) (\<lambda>resp. Returns (\<lparr>response = resp, keep_alive = alive\<rparr>, c))
       else bind_call (resolve_safe_path fs (url info)) (\<lambda>resolved.
         case resolved of
           Inl e \<Rightarrow> bind_call (send_404 fs alive) (\<lambda>resp. Returns (\<lparr>response = resp, keep_alive = alive\<rparr>, c))
         | Inr p \<Rightarrow>
             bind_call (send_response fs p alive c) (\<lambda>(resp, ok, c').
               Returns (\<lparr>response = resp, keep_alive = (if ok then alive else False)\<rparr>, c'))))"

section \<open>Parsing what is printed\<close>

definition render_headers :: "(string \<times> string) list \<Rightarrow> string" where
  "render_headers hs = concat (map (\<lambda>(k, v). k @ '': '' @ v @ crlf) hs)"

definition render_request :: "string \<Rightarrow> string \<Rightarrow> string \<Rightarrow> (string \<times> string) list \<Rightarrow> string \<Rightarrow> string" where
  "render_request m u v hs b = m @ '' '' @ u @ '' '' @ v @ crlf @ render_headers hs @ crlf @ b"

lemma is_good_istringstream [simp]: "is_good (istringstream s)" "is_rest (istringstream s) = s"
  by (simp_all add: is_good_def istringstream_def)

lemma is_good_rest [simp]: "is_good (st\<lparr>is_rest := r\<rparr>) = is_good st"
  by (simp add: is_good_def)

lemma getline_hit:
  assumes "is_good st" "is_rest st = l @ d # r" "d \<notin> set l"
  shows "getline st s d = (True, st\<lparr>is_rest := r\<rparr>, l)"
proof -
  have "takeWhile (\<lambda>c. c \<noteq> d) (l @ d # r) = l" using assms(3) by (induction l) auto
  moreover have "dropWhile (\<lambda>c. c \<noteq> d) (l @ d # r) = d # r" using assms(3) by (induction l) auto
  ultimately show ?thesis using assms(1,2) by (simp add: getline_def)
qed

lemma find_after: "CHR '':'' \<notin> set k \<Longrightarrow> str_find '': '' (k @ '': '' @ v) = Some (length k)"
  by (induction k) auto

lemma parse_header_line:
  assumes "CHR '':'' \<notin> set k"
  shows "parse_header (k @ '': '' @ v @ [CR]) hs = Returns (hs(k \<mapsto> v))"
proof -
  have "butlast (k @ '': '' @ v @ [CR]) = k @ '': '' @ v" by (simp add: butlast_append)
  then show ?thesis using find_after [OF assms, of v] by (simp add: parse_header_def substr_from_def nth_append)
qed

lemma header_loop_rendered:
  assumes "is_good st" "is_rest st = render_headers hs @ crlf @ b"
    and "\<forall>(k, v) \<in> set hs. CHR '':'' \<notin> set k \<and> LF \<notin> set k \<and> LF \<notin> set v"
  shows "header_loop st line h0 = Returns (st\<lparr>is_rest := b\<rparr>, h0 ++ map_of (rev hs))"
  using assms
proof (induction hs arbitrary: st line h0)
  case Nil
  then have "getline st line LF = (True, st\<lparr>is_rest := b\<rparr>, [CR])" by (intro getline_hit) (auto simp: render_headers_def)
  then show ?case by (subst header_loop.simps) simp
next
  case (Cons kv hs)
  obtain k v where kv: "kv = (k, v)" by (cases kv)
  let ?l = "k @ '': '' @ v @ [CR]" and ?st = "st\<lparr>is_rest := render_headers hs @ crlf @ b\<rparr>"
  have "getline st line LF = (True, ?st, ?l)"
    using Cons.prems kv by (intro getline_hit) (auto simp: render_headers_def)
  moreover have "parse_header ?l h0 = Returns (h0(k \<mapsto> v))" using Cons.prems(3) kv by (intro parse_header_line) auto
  moreover have "header_loop ?st ?l (h0(k \<mapsto> v)) = Returns (?st\<lparr>is_rest := b\<rparr>, h0(k \<mapsto> v) ++ map_of (rev hs))"
    using Cons.prems by (intro Cons.IH) auto
  ultimately show ?case by (subst header_loop.simps) (simp add: kv)
qed

lemma parse_rendered:
  assumes "SP \<notin> set m" "SP \<notin> set u" "CR \<notin> set v"
    and "\<forall>(k, v) \<in> set hs. CHR '':'' \<notin> set k \<and> LF \<notin> set k \<and> LF \<notin> set v"
  shows "parse_request (render_request m u v hs b) =
    Returns \<lparr>http_method = m, url = u, version = v, headers = map_of (rev hs), body = b\<rparr>"
proof -
  let ?s = "istringstream (render_request m u v hs b)"
  let ?r1 = "u @ '' '' @ v @ crlf @ render_headers hs @ crlf @ b" and ?r2 = "v @ crlf @ render_headers hs @ crlf @ b"
  let ?r3 = "LF # render_headers hs @ crlf @ b" and ?r4 = "render_headers hs @ crlf @ b"
  have g: "getline ?s [] SP = (True, ?s\<lparr>is_rest := ?r1\<rparr>, m)"
    "getline (?s\<lparr>is_rest := ?r1\<rparr>) [] SP = (True, ?s\<lparr>is_rest := ?r2\<rparr>, u)"
    "getline (?s\<lparr>is_rest := ?r2\<rparr>) [] CR = (True, ?s\<lparr>is_rest := ?r3\<rparr>, v)"
    using getline_hit [of ?s m SP ?r1] getline_hit [of "?s\<lparr>is_rest := ?r1\<rparr>" u SP ?r2]
      getline_hit [of "?s\<lparr>is_rest := ?r2\<rparr>" v CR ?r3] assms(1-3) by (simp_all add: render_request_def)
  have "stream_get (?s\<lparr>is_rest := ?r3\<rparr>) = ?s\<lparr>is_rest := ?r4\<rparr>" by (simp add: stream_get_def)
  moreover have "header_loop (?s\<lparr>is_rest := ?r4\<rparr>) [] Map.empty = Returns (?s\<lparr>is_rest := b\<rparr>, map_of (rev hs))"
    using header_loop_rendered [of "?s\<lparr>is_rest := ?r4\<rparr>" hs b "[]" Map.empty] assms(4) by simp
  ultimately show ?thesis using g by (simp add: parse_request_def no_request_def Let_def)
qed

lemma set_decimal: "set (decimal n) \<subseteq> set ''0123456789''"
proof (induction n rule: decimal.induct)
  case (1 n)
  have d: "char_of (48 + k) \<in> set ''0123456789''" if "k < 10" for k :: nat
  proof -
    have "list_all (\<lambda>k. char_of (48 + k) \<in> set ''0123456789'') [0..<10::nat]" by code_simp
    then show ?thesis using that by (simp add: list_all_iff del: upt_rec_numeral)
  qed
  show ?case
  proof (cases "n < 10")
    case True
    then show ?thesis using d by (simp add: decimal.simps [of n])
  next
    case False
    have "n mod 10 < 10" by simp
    from d [OF this] 1 False show ?thesis by (simp add: decimal.simps [of n])
  qed
qed

lemma build_is_render:
  "build_response status txt ct b alive = render_request ''HTTP/1.1'' (decimal status) txt
     [(''Content-Type'', ct), (''Content-Length'', decimal (length b)),
      (''Connection'', if alive then ''keep-alive'' else ''close'')] b"
  by (simp add: build_response_def render_request_def render_headers_def)

lemma parse_response:
  assumes "CR \<notin> set txt" "LF \<notin> set ct"
  shows "parse_request (build_response status txt ct b alive) =
    Returns \<lparr>http_method = ''HTTP/1.1'', url = decimal status, version = txt,
      headers = [''Connection'' \<mapsto> if alive then ''keep-alive'' else ''close'', ''Content-Length'' \<mapsto> decimal (length b),
        ''Content-Type'' \<mapsto> ct], body = b\<rparr>"
  unfolding build_is_render
  using set_decimal [of status] set_decimal [of "length b"] assms
  by (subst parse_rendered) auto

section \<open>Cached files\<close>

text \<open>What a cache holds, when every value stored under a key satisfies a relation.\<close>

context cache
begin

definition covered :: "('k \<Rightarrow> 'v \<Rightarrow> bool) \<Rightarrow> 'c \<Rightarrow> bool" where
  "covered R c \<longleftrightarrow> (\<forall>k v. peek c k = Some v \<longrightarrow> R k v)"

lemma get_covered:
  assumes "inv c" "covered R c"
  obtains c' where "get k c = Some (peek c k, c')" "inv c'" "covered R c'"
  using assms get_law [of c k] by (auto simp: covered_def)

lemma put_covered:
  assumes "inv c" "covered R c" "R k v"
  obtains c' where "put k v c = Some c'" "inv c'" "covered R c'"
proof -
  from put_law [OF assms(1), of k v] obtain c' where c': "put k v c = Some c'" "inv c'"
    "\<forall>k' v'. peek c' k' = Some v' \<longrightarrow> (if k' = k then v' = v else peek c k' = Some v')"
    by blast
  have "R k' v'" if "peek c' k' = Some v'" for k' v'
    using c'(3) assms(2,3) that by (cases "k' = k") (auto simp: covered_def)
  with c'(1,2) show ?thesis by (intro that) (auto simp: covered_def)
qed

end

section \<open>Calls that return\<close>

lemma str_find_bound: "str_find pat s = Some p \<Longrightarrow> p + length pat \<le> length s"
proof (induction s arbitrary: p)
  case (Cons c cs)
  then show ?case by (fastforce split: if_splits dest: prefix_length_le)
qed (auto split: if_splits)

lemma parse_header_returns: "\<exists>hs'. parse_header line hs = Returns hs'"
proof -
  have "p < length l" if "(case str_find '': '' l of None \<Rightarrow> str_find '':'' l | Some p \<Rightarrow> Some p) = Some p" for l p
    using that str_find_bound [of _ l] by (auto split: option.splits) fastforce+
  note bound = this
  have "\<exists>hs'. (case (case str_find '': '' l of None \<Rightarrow> str_find '':'' l | Some p \<Rightarrow> Some p) of
      None \<Rightarrow> Returns hs
    | Some p \<Rightarrow> bind_call (substr_from l (if p + 1 < length l \<and> l ! (p + 1) = SP then p + 2 else p + 1)) (\<lambda>val.
        Returns (hs(take p l \<mapsto> val)))) = Returns hs'" for l
    using bound [of l]
    by (cases "case str_find '': '' l of None \<Rightarrow> str_find '':'' l | Some p \<Rightarrow> Some p") (auto simp: substr_from_def Suc_le_eq)
  then show ?thesis unfolding parse_header_def Let_def by blast
qed

lemma header_loop_returns: "\<exists>st' hs'. header_loop st line hs = Returns (st', hs')"
proof (induction st line hs rule: header_loop.induct)
  case (1 st line hs)
  obtain ok st' line' where g: "getline st line LF = (ok, st', line')" by (cases "getline st line LF")
  obtain hs' where "parse_header line' hs = Returns hs'" using parse_header_returns by blast
  then show ?case using g 1 [OF g [symmetric] refl] by (subst header_loop.simps) auto
qed

lemma parse_request_returns: "\<exists>info. parse_request request = Returns info"
proof -
  have "\<exists>r. bind_call (header_loop st l hs) (\<lambda>(st4, hs). Returns (f st4 hs)) = Returns r" for st l hs and f :: "_ \<Rightarrow> _ \<Rightarrow> http_info"
    using header_loop_returns [of st l hs] by auto
  then show ?thesis by (auto simp: parse_request_def Let_def split: prod.split)
qed

lemma read_file_defined: "read_file fs p \<noteq> CallUndefined"
  by (simp add: read_file_def split: option.split)

lemma send_response_miss:
  assumes "lru_inv c" "lru_peek c p = None"
  shows "\<exists>c1. lru_get p c = Some (None, c1) \<and> lru_inv c1 \<and>
    send_response fs p alive c = bind_call (read_file fs p) (\<lambda>(exists, content).
      if \<not> exists then Returns (build_response 500 ''Internal Server Error'' ''text/plain'' ''500 Error'' False, False, c1)
      else case lru_put p content c1 of
             None \<Rightarrow> CallUndefined
           | Some c2 \<Rightarrow> Returns (build_response 200 ''OK'' (get_content_type p) content alive, True, c2))"
proof -
  obtain c1 where c1: "lru_get p c = Some (lru_peek c p, c1)" "lru_inv c1" using lru.get_law [OF assms(1)] by blast
  then show ?thesis using assms(2) by (cases "read_file fs p") (auto simp: send_response_def cong: option.case_cong)
qed

text \<open>\<open>send_response\<close> returns, unless the file is not cached and reading it throws.\<close>

lemma send_response_outcome:
  assumes "lru_inv c"
  shows "(\<exists>r. send_response fs p alive c = Returns r) \<and> \<not> (lru_peek c p = None \<and> (\<exists>e. read_file fs p = Throws e)) \<or>
    (\<exists>e. send_response fs p alive c = Throws e \<and> lru_peek c p = None \<and> read_file fs p = Throws e)"
proof (cases "lru_peek c p")
  case None
  obtain c1 where c1: "lru_inv c1" "send_response fs p alive c = bind_call (read_file fs p) (\<lambda>(exists, content).
      if \<not> exists then Returns (build_response 500 ''Internal Server Error'' ''text/plain'' ''500 Error'' False, False, c1)
      else case lru_put p content c1 of
             None \<Rightarrow> CallUndefined
           | Some c2 \<Rightarrow> Returns (build_response 200 ''OK'' (get_content_type p) content alive, True, c2))"
    using send_response_miss [OF assms None, of fs alive] by blast
  show ?thesis
  proof (cases "read_file fs p")
    case (Returns r)
    obtain ok v where r: "r = (ok, v)" by (cases r)
    obtain c2 where "lru_put p v c1 = Some c2" using lru.put_law [OF c1(1)] by blast
    then have "\<exists>r. send_response fs p alive c = Returns r" using c1(2) Returns r by (cases ok) auto
    then show ?thesis using Returns by simp
  next
    case (Throws e)
    then show ?thesis using None c1(2) by simp
  next
    case CallUndefined
    then show ?thesis using read_file_defined by blast
  qed
next
  case (Some v)
  then show ?thesis using lru.get_law [OF assms, of p] by (auto simp: send_response_def)
qed

section \<open>Correctness\<close>

text \<open>
  C28. Parsing recovers every part of a well-formed request: for a method and a URL without blanks, a version without
  carriage return, header names without colons, and header lines without line feeds, \<open>parse_request\<close> of the printed
  request gives the method, the URL, the version, the last value of every header, and the body unchanged, whatever
  bytes the body has.
\<close>

theorem http_parse_roundtrip:
  assumes "SP \<notin> set m" "SP \<notin> set u" "CR \<notin> set v"
    and "\<forall>(k, x) \<in> set hs. CHR '':'' \<notin> set k \<and> LF \<notin> set k \<and> LF \<notin> set x"
  shows "parse_request (render_request m u v hs b) =
    Returns \<lparr>http_method = m, url = u, version = v, headers = map_of (rev hs), body = b\<rparr>"
  by (rule parse_rendered [OF assms])

theorem http_parse_roundtrip_witness:
  "\<exists>info. parse_request (render_request ''GET'' ''/a'' ''HTTP/1.1'' [(''Host'', ''x'')] ''hi'') = Returns info \<and>
     headers info ''Host'' = Some ''x'' \<and> body info = ''hi''"
  using http_parse_roundtrip [of "''GET''" "''/a''" "''HTTP/1.1''" "[(''Host'', ''x'')]" "''hi''"] by simp

lemma content_type_clean: "LF \<notin> set (get_content_type p)"
  by (simp add: get_content_type_def Let_def split: option.split)

definition framed :: "string \<Rightarrow> bool \<Rightarrow> bool" where
  "framed resp alive \<longleftrightarrow> (\<exists>info. parse_request resp = Returns info \<and> http_method info = ''HTTP/1.1'' \<and>
     url info \<in> decimal ` {200, 400, 404, 405, 500} \<and>
     headers info ''Content-Length'' = Some (decimal (length (body info))) \<and> wants_keep_alive info = alive)"

lemma build_framed:
  assumes "CR \<notin> set txt" "LF \<notin> set ct" "status \<in> {200, 400, 404, 405, 500}"
  shows "framed (build_response status txt ct b alive) alive"
  unfolding framed_def parse_response [OF assms(1,2)] using assms(3) by (auto simp: wants_keep_alive_def)

lemma send_response_framed:
  assumes "send_response fs p alive c = Returns (resp, ok, c')"
  shows "framed resp (if ok then alive else False)"
  using assms
  by (auto simp: send_response_def content_type_clean intro!: build_framed split: option.splits prod.splits if_splits
      elim!: bind_call_Returns)

text \<open>
  C27. Every response \<open>handle_request\<close> returns is a correctly framed HTTP/1.1 response: its status is 200, 400, 404,
  405 or 500, its \<open>Content-Length\<close> is the number of bytes that follow the empty line, and its \<open>Connection\<close> header
  agrees with the keep-alive decision handed to the reactor.
\<close>

theorem http_responses_framed:
  assumes "handle_request fs request c = Returns (r, c')"
  shows "framed (response r) (keep_alive r)"
proof -
  obtain info where info: "parse_request request = Returns info" using parse_request_returns by blast
  show ?thesis
  proof (cases "http_method info = ''GET''")
    case True
    then obtain resolved where res: "resolve_safe_path fs (url info) = Returns resolved"
      using assms info by (cases "resolve_safe_path fs (url info)") (auto simp: handle_request_def Let_def)
    show ?thesis
    proof (cases resolved)
      case (Inl e)
      then show ?thesis using assms info True res
        by (auto simp: handle_request_def send_404_def Let_def intro!: build_framed elim!: bind_call_Returns)
    next
      case (Inr p)
      then obtain resp ok where "send_response fs p (wants_keep_alive info) c = Returns (resp, ok, c')"
        and "r = \<lparr>response = resp, keep_alive = (if ok then wants_keep_alive info else False)\<rparr>"
        using assms info True res
        by (cases "send_response fs p (wants_keep_alive info) c") (auto simp: handle_request_def)
      then show ?thesis using send_response_framed by fastforce
    qed
  next
    case False
    then show ?thesis using assms info
      by (auto simp: handle_request_def send_405_def Let_def intro!: build_framed split: if_splits elim!: bind_call_Returns)
  qed
qed

theorem http_responses_framed_witness:
  "\<exists>r. handle_request undefined [] file_cache = Returns (r, file_cache) \<and> framed (response r) (keep_alive r) \<and> \<not> keep_alive r"
proof -
  have "parse_request [] = Returns no_request"
    by (simp add: parse_request_def getline_def istringstream_def is_good_def no_request_def)
  then have "handle_request undefined [] file_cache = Returns
      (\<lparr>response = build_response 400 ''Bad Request'' ''text/plain'' ''400 Bad Request'' False, keep_alive = False\<rparr>, file_cache)"
    by (simp add: handle_request_def no_request_def)
  from http_responses_framed [OF this] this show ?thesis by auto
qed

section \<open>Path safety\<close>

lemma mismatch_returns: "mismatch xs ys = Returns ([], zs) \<longleftrightarrow> ys = xs @ zs"
proof (induction xs ys rule: mismatch.induct)
  case (3 x xs y ys)
  then show ?case by (auto split: if_splits)
qed auto

lemma resolve_inside:
  assumes "resolve_safe_path fs u = Returns (Inr p)"
  shows "\<exists>root. fs_canonical fs ''./statics'' = Some root \<and> prefix (path_elems root) (path_elems p) \<and> fs_exists fs p = Some True"
  using assms
  by (auto simp: resolve_safe_path_def Let_def substr_from_def prefix_def mismatch_returns
      split: option.splits if_splits bool.splits call.splits elim!: bind_call_Returns)

text \<open>
  A sequence of requests, each with the file system as it is at the time; \<open>None\<close> when a request does not return.
\<close>

fun http_run :: "(fsys \<times> string) list \<Rightarrow> (string, string) lru \<Rightarrow> (http_response list \<times> (string, string) lru) option" where
  "http_run [] c = Some ([], c)"
| "http_run ((fs, request) # qs) c =
     (case handle_request fs request c of
        Returns (r, c1) \<Rightarrow> (case http_run qs c1 of None \<Rightarrow> None | Some (rs, c2) \<Rightarrow> Some (r # rs, c2))
      | _ \<Rightarrow> None)"

text \<open>The files under the root that exist when a request arrives, and what one of the file systems had in such a file.\<close>

definition servable :: "fsys \<Rightarrow> string \<Rightarrow> bool" where
  "servable fs p \<longleftrightarrow> (\<exists>root. fs_canonical fs ''./statics'' = Some root \<and> prefix (path_elems root) (path_elems p) \<and>
     fs_exists fs p = Some True)"

definition had_content :: "fsys list \<Rightarrow> string \<Rightarrow> string \<Rightarrow> bool" where
  "had_content past p v \<longleftrightarrow> (\<exists>fs \<in> set past. read_file fs p = Returns (True, v))"

text \<open>The error pages: fixed texts, and for 404 and 405 the content of the page of that name, if there is one.\<close>

definition page_or :: "fsys \<Rightarrow> string \<Rightarrow> string \<Rightarrow> string \<Rightarrow> bool" where
  "page_or fs p text b \<longleftrightarrow> (\<exists>v. read_file fs p = Returns (True, v) \<and> b = v) \<or> fs_open fs p = None \<and> b = text"

definition is_error_page :: "fsys \<Rightarrow> string \<Rightarrow> bool" where
  "is_error_page fs resp \<longleftrightarrow>
     resp = build_response 400 ''Bad Request'' ''text/plain'' ''400 Bad Request'' False \<or>
     resp = build_response 500 ''Internal Server Error'' ''text/plain'' ''500 Error'' False \<or>
     (\<exists>b alive. page_or fs ''./statics/404.html'' ''404 Not Found'' b \<and>
        resp = build_response 404 ''Not Found'' ''text/html; charset=utf-8'' b alive) \<or>
     (\<exists>b alive. page_or fs ''./statics/405.html'' ''405 Method Not Allowed'' b \<and>
        resp = build_response 405 ''Method Not Allowed'' ''text/html; charset=utf-8'' b alive)"

definition is_file_page :: "fsys list \<Rightarrow> fsys \<Rightarrow> string \<Rightarrow> bool" where
  "is_file_page past fs resp \<longleftrightarrow> (\<exists>p v alive. servable fs p \<and> had_content past p v \<and>
     resp = build_response 200 ''OK'' (get_content_type p) v alive)"

lemma file_pageI:
  assumes "servable fs p" "had_content past p v"
  shows "is_file_page past fs (build_response 200 ''OK'' (get_content_type p) v alive)"
  using assms unfolding is_file_page_def by blast

lemma read_file_page: "read_file fs p = Returns (exists, v) \<Longrightarrow> page_or fs p text (if exists then v else text)"
  by (auto simp: page_or_def read_file_def split: option.splits if_splits)

lemma send_404_page: "send_404 fs alive = Returns resp \<Longrightarrow> is_error_page fs resp"
  unfolding is_error_page_def send_404_def by (auto elim!: bind_call_Returns intro: read_file_page)

lemma send_405_page: "send_405 fs alive = Returns resp \<Longrightarrow> is_error_page fs resp"
  unfolding is_error_page_def send_405_def by (auto elim!: bind_call_Returns intro: read_file_page)

lemma bad_request_page: "is_error_page fs (build_response 400 ''Bad Request'' ''text/plain'' ''400 Bad Request'' False)"
  by (simp add: is_error_page_def)

lemma handle_request_cases:
  assumes h: "handle_request fs request c = Returns (r, c')" and info: "parse_request request = Returns info"
  obtains (simple) "is_error_page fs (response r)" "c' = c"
  | (found) p alive ok where "resolve_safe_path fs (url info) = Returns (Inr p)" "send_response fs p alive c = Returns (response r, ok, c')"
proof (cases "http_method info = ''GET''")
  case True
  then obtain resolved where res: "resolve_safe_path fs (url info) = Returns resolved"
    using h info by (cases "resolve_safe_path fs (url info)") (auto simp: handle_request_def Let_def)
  show ?thesis
  proof (cases resolved)
    case (Inl e)
    then have "send_404 fs (wants_keep_alive info) = Returns (response r)" "c' = c"
      using h info True res by (auto simp: handle_request_def Let_def elim!: bind_call_Returns)
    then show ?thesis by (intro simple) (auto intro: send_404_page)
  next
    case (Inr p)
    then obtain ok where "send_response fs p (wants_keep_alive info) c = Returns (response r, ok, c')"
      using h info True res by (auto simp: handle_request_def Let_def elim!: bind_call_Returns)
    with res Inr show ?thesis by (intro found) auto
  qed
next
  case False
  then have "send_405 fs (wants_keep_alive info) = Returns (response r) \<or>
      response r = build_response 400 ''Bad Request'' ''text/plain'' ''400 Bad Request'' False" "c' = c"
    using h info by (auto simp: handle_request_def Let_def split: if_splits elim!: bind_call_Returns)
  then show ?thesis by (intro simple) (auto intro: send_405_page bad_request_page)
qed

lemma handle_request_served:
  assumes "handle_request fs request c = Returns (r, c')" "lru_inv c" "lru.covered (had_content past) c"
  shows "(is_error_page fs (response r) \<or> is_file_page (past @ [fs]) fs (response r)) \<and>
    lru_inv c' \<and> lru.covered (had_content (past @ [fs])) c'"
proof -
  obtain info where info: "parse_request request = Returns info" using parse_request_returns by blast
  have cov: "lru.covered (had_content (past @ [fs])) c" using assms(3) by (auto simp: lru.covered_def had_content_def)
  consider (simple) "is_error_page fs (response r)" "c' = c"
    | (found) p alive ok where "resolve_safe_path fs (url info) = Returns (Inr p)" "send_response fs p alive c = Returns (response r, ok, c')"
    by (rule handle_request_cases [OF assms(1) info])
  then show ?thesis
  proof cases
    case simple
    then show ?thesis using assms(2) cov by simp
  next
    case found
    obtain c1 where c1: "lru_get p c = Some (lru_peek c p, c1)" "lru_inv c1" "lru.covered (had_content (past @ [fs])) c1"
      by (rule lru.get_covered [OF assms(2) cov])
    have sv: "servable fs p" using resolve_inside [OF found(1)] by (simp add: servable_def)
    show ?thesis
    proof (cases "lru_peek c p")
      case (Some v)
      then have "had_content (past @ [fs]) p v" using cov by (simp add: lru.covered_def)
      moreover have "response r = build_response 200 ''OK'' (get_content_type p) v alive" "c' = c1"
        using found(2) Some c1(1) by (auto simp: send_response_def)
      ultimately show ?thesis using c1 sv file_pageI by simp
    next
      case None
      obtain exists v where rd: "read_file fs p = Returns (exists, v)"
        using found(2) None c1(1) by (auto simp: send_response_def elim!: bind_call_Returns)
      show ?thesis
      proof (cases exists)
        case True
        then have h: "had_content (past @ [fs]) p v" using rd by (auto simp: had_content_def)
        obtain c2 where c2: "lru_put p v c1 = Some c2" "lru_inv c2" "lru.covered (had_content (past @ [fs])) c2"
          by (rule lru.put_covered [OF c1(2,3) h])
        then have "response r = build_response 200 ''OK'' (get_content_type p) v alive" "c' = c2"
          using found(2) None c1(1) True rd by (auto simp: send_response_def)
        then show ?thesis using c2 sv h file_pageI by simp
      next
        case False
        then have "response r = build_response 500 ''Internal Server Error'' ''text/plain'' ''500 Error'' False" "c' = c1"
          using found(2) None c1(1) rd by (auto simp: send_response_def)
        then show ?thesis using c1 by (simp add: is_error_page_def)
      qed
    qed
  qed
qed

text \<open>Two file systems that differ at most in files that no request may read.\<close>

definition same_under_root :: "fsys \<Rightarrow> fsys \<Rightarrow> bool" where
  "same_under_root fs fs' \<longleftrightarrow> fs_canonical fs' = fs_canonical fs \<and> fs_weakly_canonical fs' = fs_weakly_canonical fs \<and>
     fs_exists fs' = fs_exists fs \<and> fs_max_size fs' = fs_max_size fs \<and> fs_memory fs' = fs_memory fs \<and>
     (\<forall>p. servable fs p \<or> p \<in> {''./statics/404.html'', ''./statics/405.html''} \<longrightarrow> fs_open fs' p = fs_open fs p)"

lemma read_file_same:
  assumes "same_under_root fs fs'" "servable fs p \<or> p \<in> {''./statics/404.html'', ''./statics/405.html''}"
  shows "read_file fs' p = read_file fs p"
proof -
  have "fs_open fs' p = fs_open fs p" using assms unfolding same_under_root_def by blast
  then show ?thesis using assms(1) by (simp add: read_file_def same_under_root_def cong: option.case_cong if_cong)
qed

lemma handle_request_same:
  assumes "same_under_root fs fs'"
  shows "handle_request fs' request c = handle_request fs request c"
proof -
  have eqs: "fs_canonical fs' = fs_canonical fs" "fs_weakly_canonical fs' = fs_weakly_canonical fs" "fs_exists fs' = fs_exists fs"
    using assms by (simp_all add: same_under_root_def)
  have res: "resolve_safe_path fs' u = resolve_safe_path fs u" for u
    unfolding resolve_safe_path_def eqs ..
  have pages: "send_404 fs' alive = send_404 fs alive" "send_405 fs' alive = send_405 fs alive" for alive
    using read_file_same [OF assms] by (simp_all add: send_404_def send_405_def)
  have send: "send_response fs' p alive c = send_response fs p alive c" if "resolve_safe_path fs u = Returns (Inr p)" for u p alive
  proof -
    have "servable fs p" using resolve_inside [OF that] by (simp add: servable_def)
    then have rd: "read_file fs' p = read_file fs p" using read_file_same [OF assms] by blast
    show ?thesis unfolding send_response_def rd ..
  qed
  obtain info where info: "parse_request request = Returns info" using parse_request_returns by blast
  show ?thesis
  proof (cases "resolve_safe_path fs (url info)")
    case (Returns resolved)
    then show ?thesis using info res pages send by (cases resolved) (simp_all add: handle_request_def Let_def)
  qed (use info res pages in \<open>simp_all add: handle_request_def Let_def\<close>)
qed

text \<open>
  C26. No request reads outside the document root, in any sequence of requests and however the files change meanwhile.
  What the server answers does not depend on any file but those whose path has the elements of the canonical root as a
  prefix and that exist, and the two error pages \<open>./statics/404.html\<close> and \<open>./statics/405.html\<close>: with other contents
  elsewhere, the same requests get the same answers.  Each answer is an error page, with a fixed text or the content of the
  page of that name, or a 200 response whose body is what a file under the root had at that time or at the time of an
  earlier request, where the file still exists; the shared file cache never serves a file under another name.
\<close>

theorem http_serves_only_under_root:
  assumes "http_run qs file_cache = Some (rs, c)"
  shows "(\<forall>i < length rs. is_error_page (fst (qs ! i)) (response (rs ! i)) \<or>
      is_file_page (map fst (take (Suc i) qs)) (fst (qs ! i)) (response (rs ! i))) \<and>
    (\<forall>qs'. list_all2 (\<lambda>q q'. snd q' = snd q \<and> same_under_root (fst q) (fst q')) qs qs' \<longrightarrow>
      http_run qs' file_cache = http_run qs file_cache)"
proof (intro conjI allI impI)
  fix i assume i: "i < length rs"
  have "is_error_page (fst (qs ! i)) (response (rs ! i)) \<or>
      is_file_page (past @ map fst (take (Suc i) qs)) (fst (qs ! i)) (response (rs ! i))"
    if "http_run qs c0 = Some (rs, c)" "i < length rs" "lru_inv c0" "lru.covered (had_content past) c0" for c0 past
    using that
  proof (induction qs arbitrary: c0 past rs i)
    case (Cons q qs)
    obtain fs request where q: "q = (fs, request)" by (cases q)
    obtain r c1 rs' where r: "handle_request fs request c0 = Returns (r, c1)" "http_run qs c1 = Some (rs', c)" "rs = r # rs'"
      using Cons.prems(1) q by (auto split: call.splits option.splits)
    note h = handle_request_served [OF r(1) Cons.prems(3,4)]
    show ?case
    proof (cases i)
      case 0
      then show ?thesis using h r(3) q by simp
    next
      case (Suc j)
      then show ?thesis using Cons.IH [OF r(2), of j "past @ [fs]"] h Cons.prems(2) r(3) q by simp
    qed
  qed simp
  from this [OF assms i, of "[]"] show "is_error_page (fst (qs ! i)) (response (rs ! i)) \<or>
      is_file_page (map fst (take (Suc i) qs)) (fst (qs ! i)) (response (rs ! i))"
    by (simp add: file_cache_def lru.covered_def lru_peek_def)
next
  fix qs' assume "list_all2 (\<lambda>q q'. snd q' = snd q \<and> same_under_root (fst q) (fst q')) qs qs'"
  then have "http_run qs' c0 = http_run qs c0" for c0
  proof (induction qs qs' arbitrary: c0 rule: list_all2_induct)
    case (Cons q qs q' qs')
    obtain fs request fs' where q: "q = (fs, request)" "q' = (fs', request)" "same_under_root fs fs'"
      using Cons.hyps(1) by (cases q; cases q') auto
    then show ?case using handle_request_same [OF q(3)] Cons.IH by (simp cong: call.case_cong option.case_cong)
  qed simp
  then show "http_run qs' file_cache = http_run qs file_cache" .
qed

definition example_fs :: fsys where
  "example_fs =
     \<lparr>fs_canonical = (\<lambda>_. Some ''/s''), fs_weakly_canonical = (\<lambda>p. Some (if p = ''/s/..'' then ''/'' else p)),
      fs_exists = (\<lambda>_. Some True), fs_open = (\<lambda>_. Some (2, ''hi'')), fs_max_size = 2 ^ 62, fs_memory = 2 ^ 30\<rparr>"

lemma example_parse:
  "parse_request ''GET /a H'' = Returns (no_request\<lparr>http_method := ''GET'', url := ''/a'', version := ''H''\<rparr>)"
  "parse_request ''GET /.. H'' = Returns (no_request\<lparr>http_method := ''GET'', url := ''/..'', version := ''H''\<rparr>)"
  by (simp_all add: parse_request_def getline_def istringstream_def is_good_def no_request_def stream_get_def header_loop.simps)

lemma example_resolve: "resolve_safe_path (example_fs\<lparr>fs_open := f\<rparr>) ''/a'' = Returns (Inr ''/s/a'')"
  by (simp add: resolve_safe_path_def example_fs_def substr_from_def path_append_def path_elems_def path_names.simps)

theorem http_serves_only_under_root_witness:
  "\<exists>r c. http_run [(example_fs, ''GET /a H'')] file_cache = Some ([r], c) \<and>
     (is_error_page example_fs (response r) \<or> is_file_page [example_fs] example_fs (response r))"
proof -
  have "read_file example_fs ''/s/a'' = Returns (True, ''hi'')" by (simp add: read_file_def example_fs_def)
  then obtain resp ok c where "send_response example_fs ''/s/a'' False file_cache = Returns (resp, ok, c)"
    using send_response_outcome [of file_cache example_fs "''/s/a''" False] by (fastforce simp: file_cache_def)
  moreover have "resolve_safe_path example_fs ''/a'' = Returns (Inr ''/s/a'')"
    using example_resolve [of "fs_open example_fs"] by simp
  ultimately have "http_run [(example_fs, ''GET /a H'')] file_cache =
      Some ([\<lparr>response = resp, keep_alive = (if ok then False else False)\<rparr>], c)"
    by (simp add: handle_request_def example_parse no_request_def wants_keep_alive_def)
  from http_serves_only_under_root [OF this] this show ?thesis by auto
qed

section \<open>Failures\<close>

text \<open>The file that a request reads, if it gets that far: an error page, or the file it names when the cache does not have it.\<close>

definition file_read :: "fsys \<Rightarrow> http_info \<Rightarrow> (string, string) lru \<Rightarrow> string option" where
  "file_read fs info c =
     (if http_method info = [] then None
      else if http_method info \<noteq> ''GET'' then Some ''./statics/405.html''
      else case resolve_safe_path fs (url info) of
             Returns (Inl e) \<Rightarrow> Some ''./statics/404.html''
           | Returns (Inr p) \<Rightarrow> if lru_peek c p = None then Some p else None
           | _ \<Rightarrow> None)"

lemma handle_request_fails:
  assumes "lru_inv c" "parse_request request = Returns info"
  shows "(\<forall>e. handle_request fs request c = Throws e \<longleftrightarrow> http_method info = ''GET'' \<and> resolve_safe_path fs (url info) = Throws e \<or>
      (\<exists>p. file_read fs info c = Some p \<and> read_file fs p = Throws e)) \<and>
    (handle_request fs request c = CallUndefined \<longleftrightarrow> http_method info = ''GET'' \<and> resolve_safe_path fs (url info) = CallUndefined)"
proof (cases "http_method info = ''GET''")
  case get: True
  show ?thesis
  proof (cases "resolve_safe_path fs (url info)")
    case (Returns resolved)
    show ?thesis
    proof (cases resolved)
      case (Inl e)
      then show ?thesis using assms(2) get Returns read_file_defined [of fs "''./statics/404.html''"]
        by (cases "read_file fs ''./statics/404.html''") (auto simp: handle_request_def send_404_def file_read_def Let_def)
    next
      case (Inr p)
      have s: "(\<exists>r. send_response fs p (wants_keep_alive info) c = Returns r) \<and> \<not> (lru_peek c p = None \<and> (\<exists>e. read_file fs p = Throws e)) \<or>
          (\<exists>e. send_response fs p (wants_keep_alive info) c = Throws e \<and> lru_peek c p = None \<and> read_file fs p = Throws e)"
        by (rule send_response_outcome [OF assms(1)])
      then show ?thesis using assms(2) get Returns Inr by (auto simp: handle_request_def file_read_def Let_def)
    qed
  qed (use assms(2) get in \<open>auto simp: handle_request_def file_read_def Let_def\<close>)
next
  case False
  then show ?thesis using assms(2) read_file_defined [of fs "''./statics/405.html''"]
    by (cases "read_file fs ''./statics/405.html''") (auto simp: handle_request_def send_405_def file_read_def Let_def)
qed

lemma empty_url_throws: "fs_canonical fs ''./statics'' = Some root \<Longrightarrow> resolve_safe_path fs [] = Throws OutOfRange"
  by (simp add: resolve_safe_path_def substr_from_def Let_def)

lemma mismatch_short: "strict_prefix ys xs \<Longrightarrow> mismatch xs ys = CallUndefined"
  by (induction xs ys rule: mismatch.induct) (auto simp: strict_prefix_def)

lemma parent_undefined:
  assumes "u \<noteq> []" "u \<noteq> ''/''" "fs_canonical fs ''./statics'' = Some root"
    and "fs_weakly_canonical fs (path_append root (tl u)) = Some target"
    and "strict_prefix (path_elems target) (path_elems root)"
  shows "resolve_safe_path fs u = CallUndefined"
  using assms mismatch_short [OF assms(5)]
  by (cases u) (auto simp: resolve_safe_path_def substr_from_def Let_def)

lemma huge_file_throws:
  assumes "fs_open fs p = Some (sz, data)" "0 < sint sz" "fs_max_size fs < unat sz"
  shows "read_file fs p = Throws LengthError"
  using assms by (simp add: read_file_def)

text \<open>
  C29. Where \<open>handle_request\<close> fails.  Parsing never throws, and neither does anything else but resolving the path of a
  \<open>GET\<close> and reading the file that is to be sent: a request throws, or is undefined, exactly when one of them does.  They
  do fail.  An empty URL (the request line \<open>GET\<close> alone, or two blanks after it) throws \<open>std::out_of_range\<close> whenever the
  document root exists, although a malformed request is meant to be answered.  A URL that leads to a directory above the
  root (\<open>/..\<close>) is not blocked but undefined, because the resolved path has fewer elements than the root and
  \<open>std::mismatch\<close> with one iterator into it reads past its end.  And a file for which \<open>tellg\<close> reports more than
  \<open>max_size()\<close>, as it may for a directory, throws \<open>std::length_error\<close>.
\<close>

theorem http_failures:
  assumes "lru_inv c"
  shows "\<exists>info. parse_request request = Returns info \<and>
    (\<forall>e. handle_request fs request c = Throws e \<longleftrightarrow> http_method info = ''GET'' \<and> resolve_safe_path fs (url info) = Throws e \<or>
      (\<exists>p. file_read fs info c = Some p \<and> read_file fs p = Throws e)) \<and>
    (handle_request fs request c = CallUndefined \<longleftrightarrow> http_method info = ''GET'' \<and> resolve_safe_path fs (url info) = CallUndefined) \<and>
    (\<forall>root. fs_canonical fs ''./statics'' = Some root \<longrightarrow> http_method info = ''GET'' \<longrightarrow>
      (url info = [] \<longrightarrow> handle_request fs request c = Throws OutOfRange) \<and>
      (\<forall>target. url info \<notin> {[], ''/''} \<longrightarrow> fs_weakly_canonical fs (path_append root (tl (url info))) = Some target \<longrightarrow>
        strict_prefix (path_elems target) (path_elems root) \<longrightarrow> handle_request fs request c = CallUndefined)) \<and>
    (\<forall>p sz data. file_read fs info c = Some p \<longrightarrow> fs_open fs p = Some (sz, data) \<longrightarrow> 0 < sint sz \<longrightarrow> fs_max_size fs < unat sz \<longrightarrow>
      handle_request fs request c = Throws LengthError)"
proof -
  obtain info where info: "parse_request request = Returns info" using parse_request_returns by blast
  note f = handle_request_fails [OF assms info, of fs]
  have "handle_request fs request c = Throws OutOfRange"
    if "fs_canonical fs ''./statics'' = Some root" "http_method info = ''GET''" "url info = []" for root
    using f empty_url_throws [OF that(1)] that(2,3) by simp
  moreover have "handle_request fs request c = CallUndefined"
    if "fs_canonical fs ''./statics'' = Some root" "http_method info = ''GET''" "url info \<notin> {[], ''/''}"
      "fs_weakly_canonical fs (path_append root (tl (url info))) = Some target" "strict_prefix (path_elems target) (path_elems root)"
    for root target
    using f parent_undefined [of "url info" fs root target] that by simp
  moreover have "handle_request fs request c = Throws LengthError"
    if "file_read fs info c = Some p" "fs_open fs p = Some (sz, data)" "0 < sint sz" "fs_max_size fs < unat sz" for p sz data
    using f huge_file_throws [OF that(2-4)] that(1) by blast
  ultimately show ?thesis using info f by blast
qed

theorem http_failures_witness:
  "handle_request example_fs ''GET'' file_cache = Throws OutOfRange \<and>
   handle_request example_fs ''GET /.. H'' file_cache = CallUndefined \<and>
   handle_request (example_fs\<lparr>fs_open := (\<lambda>_. Some (2 ^ 63 - 1, []))\<rparr>) ''GET /a H'' file_cache = Throws LengthError"
proof (intro conjI)
  have inv: "lru_inv file_cache" by (simp add: file_cache_def)
  have "parse_request ''GET'' = Returns (no_request\<lparr>http_method := ''GET''\<rparr>)"
    by (simp add: parse_request_def getline_def istringstream_def is_good_def no_request_def)
  then show "handle_request example_fs ''GET'' file_cache = Throws OutOfRange"
    using http_failures [OF inv, of "''GET''" example_fs] by (auto simp: no_request_def example_fs_def)
  show "handle_request example_fs ''GET /.. H'' file_cache = CallUndefined"
    using http_failures [OF inv, of "''GET /.. H''" example_fs] example_parse(2)
    by (auto simp: no_request_def example_fs_def path_append_def path_elems_def path_names.simps strict_prefix_def)
  let ?fs = "example_fs\<lparr>fs_open := (\<lambda>_. Some (2 ^ 63 - 1, []))\<rparr>"
  have "file_read ?fs (no_request\<lparr>http_method := ''GET'', url := ''/a'', version := ''H''\<rparr>) file_cache = Some ''/s/a''"
    by (simp add: file_read_def example_resolve no_request_def file_cache_def lru_peek_def)
  moreover have "0 < sint (2 ^ 63 - 1 :: u64)" "fs_max_size ?fs < unat (2 ^ 63 - 1 :: u64)" by (simp_all add: example_fs_def)
  ultimately show "handle_request ?fs ''GET /a H'' file_cache = Throws LengthError"
    using http_failures [OF inv, of "''GET /a H''" ?fs] example_parse(1) by auto
qed

end
