(* ===== verification/Poller.thy ===== *)
theory Poller
  imports Muses_Prelude
begin

text \<open>
  The event masks and the poller interface of \<open>src/muses/net/poller.hpp\<close>, and its two back ends,
  \<open>src/muses/net/epoll_poller.hpp\<close> and \<open>src/muses/net/kqueue_poller.hpp\<close>.

  The kernel side is part of the model.  An epoll instance maps the registered descriptors to their event bits and data
  (\<open>EPOLL_CTL_ADD\<close> fails on a registered descriptor, \<open>MOD\<close> and \<open>DEL\<close> on an unregistered one); \<open>accepts fd\<close> says whether the
  kernel takes a registration of the descriptor at all (it is open, and there is memory).  A kqueue is the set of its
  filters.  A call of \<open>kevent\<close> with a changelist and an event list applies the changes in order; each change that fails
  becomes an event, and if there is one the call returns.  Otherwise it goes on to wait for events, without a limit when
  the timeout is null, and takes the ones it returns out of the queue (\<open>EV_CLEAR\<close>).  That is what \<open>flush_pending\<close> does.

  The interface is the locale \<open>poller\<close>; both back ends implement it, and any sequence of registrations that the kernel
  accepts leaves both with the same interest sets.  How they differ is a property of its own.
\<close>

unbundle bit_operations_syntax

section \<open>Event masks\<close>

type_synonym event_mask = u16

definition Readable :: event_mask where "Readable = 1"
definition Writable :: event_mask where "Writable = 2"
definition Closed :: event_mask where "Closed = 4"

definition has :: "event_mask \<Rightarrow> event_mask \<Rightarrow> bool" where
  "has a b \<longleftrightarrow> a AND b \<noteq> 0"

record 'u poll_event =
  ev_fd :: int
  ev_mask :: event_mask
  ev_userdata :: "'u option"

section \<open>The epoll back end\<close>

definition EPOLLIN :: u32 where "EPOLLIN = 0x001"
definition EPOLLOUT :: u32 where "EPOLLOUT = 0x004"
definition EPOLLERR :: u32 where "EPOLLERR = 0x008"
definition EPOLLHUP :: u32 where "EPOLLHUP = 0x010"
definition EPOLLRDHUP :: u32 where "EPOLLRDHUP = 0x2000"
definition EPOLLET :: u32 where "EPOLLET = 0x80000000"

record 'u epoll =
  ep_valid :: bool
  ep_wakefd :: "int option"
  ep_fds :: "int \<Rightarrow> 'u option"
  ep_kernel :: "int \<Rightarrow> (u32 \<times> int) option"

definition kWakeFdSentinel :: int where
  "kWakeFdSentinel = -1"

definition to_epoll :: "event_mask \<Rightarrow> u32" where
  "to_epoll m =
     (let e0 = 0;
          e1 = (if has m Readable then e0 OR EPOLLIN else e0);
          e2 = (if has m Writable then e1 OR EPOLLOUT else e1)
      in e2 OR EPOLLET)"

text \<open>The constructor, from what \<open>epoll_create1\<close>, \<open>eventfd\<close> and the registration of the wake-up descriptor give.\<close>

definition epoll_new :: "bool \<Rightarrow> int option \<Rightarrow> bool \<Rightarrow> 'u epoll" where
  "epoll_new epfd wakefd added =
     \<lparr>ep_valid = epfd, ep_wakefd = wakefd, ep_fds = Map.empty,
      ep_kernel = (case wakefd of Some w \<Rightarrow> if epfd \<and> added then [w \<mapsto> (EPOLLIN, kWakeFdSentinel)] else Map.empty | None \<Rightarrow> Map.empty)\<rparr>"

definition epoll_add :: "(int \<Rightarrow> bool) \<Rightarrow> int \<Rightarrow> event_mask \<Rightarrow> 'u \<Rightarrow> 'u epoll \<Rightarrow> bool \<times> 'u epoll" where
  "epoll_add accepts fd m userdata p =
     (if \<not> ep_valid p then (False, p)
      else if \<not> accepts fd \<or> ep_kernel p fd \<noteq> None then (False, p)
      else (True, p\<lparr>ep_kernel := (ep_kernel p)(fd \<mapsto> (to_epoll m, fd)), ep_fds := (ep_fds p)(fd \<mapsto> userdata)\<rparr>))"

definition epoll_mod :: "(int \<Rightarrow> bool) \<Rightarrow> int \<Rightarrow> event_mask \<Rightarrow> 'u \<Rightarrow> 'u epoll \<Rightarrow> bool \<times> 'u epoll" where
  "epoll_mod accepts fd m userdata p =
     (if \<not> ep_valid p then (False, p)
      else if \<not> accepts fd \<or> ep_kernel p fd = None then (False, p)
      else (True, p\<lparr>ep_kernel := (ep_kernel p)(fd \<mapsto> (to_epoll m, fd)),
                    ep_fds := (if ep_fds p fd \<noteq> None then (ep_fds p)(fd \<mapsto> userdata) else ep_fds p)\<rparr>))"

definition epoll_del :: "(int \<Rightarrow> bool) \<Rightarrow> int \<Rightarrow> 'u epoll \<Rightarrow> bool \<times> 'u epoll" where
  "epoll_del accepts fd p =
     (if \<not> ep_valid p then (False, p)
      else let p' = p\<lparr>ep_fds := (ep_fds p)(fd := None)\<rparr>
           in if \<not> accepts fd \<or> ep_kernel p fd = None then (False, p')
              else (True, p'\<lparr>ep_kernel := (ep_kernel p)(fd := None)\<rparr>))"

definition epoll_mask :: "u32 \<Rightarrow> event_mask" where
  "epoll_mask e =
     (let m0 = 0;
          m1 = (if e AND (EPOLLIN OR EPOLLHUP) \<noteq> 0 then m0 OR Readable else m0);
          m2 = (if e AND (EPOLLOUT OR EPOLLHUP) \<noteq> 0 then m1 OR Writable else m1)
      in if e AND (EPOLLERR OR EPOLLHUP OR EPOLLRDHUP) \<noteq> 0 then m2 OR Closed else m2)"

datatype 'e wait_result = Events "'e list" | Interrupted | WaitFailed

text \<open>\<open>wait\<close> with room for \<open>n\<close> events, from the answer of \<open>epoll_wait\<close> (data and event bits); \<open>None\<close> is the result -1.\<close>

definition epoll_wait :: "nat \<Rightarrow> (int \<times> u32) wait_result \<Rightarrow> 'u epoll \<Rightarrow> 'u poll_event list option" where
  "epoll_wait n answer p =
     (if \<not> ep_valid p then None
      else if n = 0 then Some []
      else case answer of
             WaitFailed \<Rightarrow> None
           | Interrupted \<Rightarrow> Some []
           | Events es \<Rightarrow> Some (map (\<lambda>(fd, e). \<lparr>ev_fd = fd, ev_mask = epoll_mask e, ev_userdata = ep_fds p fd\<rparr>)
               (filter (\<lambda>(fd, e). fd \<noteq> kWakeFdSentinel) (take n es))))"

section \<open>The kqueue back end\<close>

datatype kfilter = EVFILT_READ | EVFILT_WRITE | EVFILT_USER

datatype kflag = EV_ADD_CLEAR | EV_DELETE

record kchange =
  kc_ident :: int
  kc_filter :: kfilter
  kc_flag :: kflag

record 'u kqueue =
  kq_valid :: bool
  kq_fds :: "int \<Rightarrow> 'u option"
  kq_pending :: "kchange list"
  kq_events_size :: nat
  kq_filters :: "(int \<times> kfilter) list"

definition kWakeIdent :: int where
  "kWakeIdent = 1"

definition kqueue_new :: "bool \<Rightarrow> 'u kqueue" where
  "kqueue_new kq =
     \<lparr>kq_valid = kq, kq_fds = Map.empty, kq_pending = [], kq_events_size = 0,
      kq_filters = (if kq then [(kWakeIdent, EVFILT_USER)] else [])\<rparr>"

definition buffer_change :: "int \<Rightarrow> kfilter \<Rightarrow> kflag \<Rightarrow> 'u kqueue \<Rightarrow> 'u kqueue" where
  "buffer_change fd filt flag p =
     p\<lparr>kq_pending := kq_pending p @ [\<lparr>kc_ident = fd, kc_filter = filt, kc_flag = flag\<rparr>]\<rparr>"

definition kq_apply :: "int \<Rightarrow> event_mask \<Rightarrow> 'u kqueue \<Rightarrow> 'u kqueue" where
  "kq_apply fd m p =
     (let p1 = buffer_change fd EVFILT_READ (if has m Readable then EV_ADD_CLEAR else EV_DELETE) p
      in buffer_change fd EVFILT_WRITE (if has m Writable then EV_ADD_CLEAR else EV_DELETE) p1)"

definition kqueue_add :: "int \<Rightarrow> event_mask \<Rightarrow> 'u \<Rightarrow> 'u kqueue \<Rightarrow> bool \<times> 'u kqueue" where
  "kqueue_add fd m userdata p =
     (if \<not> kq_valid p then (False, p)
      else (True, kq_apply fd m (p\<lparr>kq_fds := (kq_fds p)(fd \<mapsto> userdata)\<rparr>)))"

definition kqueue_mod :: "int \<Rightarrow> event_mask \<Rightarrow> 'u \<Rightarrow> 'u kqueue \<Rightarrow> bool \<times> 'u kqueue" where
  "kqueue_mod fd m userdata p =
     (if \<not> kq_valid p then (False, p)
      else if kq_fds p fd = None then (False, p)
      else (True, kq_apply fd m (p\<lparr>kq_fds := (kq_fds p)(fd \<mapsto> userdata)\<rparr>)))"

definition kqueue_del :: "int \<Rightarrow> 'u kqueue \<Rightarrow> bool \<times> 'u kqueue" where
  "kqueue_del fd p =
     (if \<not> kq_valid p then (False, p)
      else if kq_fds p fd = None then (False, p)
      else (True, buffer_change fd EVFILT_WRITE EV_DELETE (buffer_change fd EVFILT_READ EV_DELETE
             (p\<lparr>kq_fds := (kq_fds p)(fd := None)\<rparr>))))"

text \<open>What \<open>kevent\<close> does with a changelist: the filters afterwards, and how many changes failed.\<close>

fun kevent_changes :: "(int \<Rightarrow> bool) \<Rightarrow> kchange list \<Rightarrow> (int \<times> kfilter) list \<Rightarrow> (int \<times> kfilter) list \<times> nat" where
  "kevent_changes accepts [] fs = (fs, 0)"
| "kevent_changes accepts (c # cs) fs =
     (let k = (kc_ident c, kc_filter c)
      in case kc_flag c of
           EV_ADD_CLEAR \<Rightarrow>
             if accepts (kc_ident c) then kevent_changes accepts cs (List.insert k fs)
             else apsnd Suc (kevent_changes accepts cs fs)
         | EV_DELETE \<Rightarrow>
             if k \<in> set fs then kevent_changes accepts cs (removeAll k fs)
             else apsnd Suc (kevent_changes accepts cs fs))"

text \<open>
  \<open>scan\<close> is what waiting for events gives when no change failed (\<open>None\<close>: nothing ever happens).  The result also names the
  events that the call took out of the queue; the code does not look at them.
\<close>

definition flush_pending ::
  "(int \<Rightarrow> bool) \<Rightarrow> (int \<times> kfilter \<times> bool) wait_result option \<Rightarrow> 'u kqueue \<Rightarrow> ((int \<times> kfilter \<times> bool) list \<times> 'u kqueue) outcome" where
  "flush_pending accepts scan p =
     (if kq_pending p = [] then Ret ([], p)
      else
        let room = max (kq_events_size p) (length (kq_pending p));
            (fs, failed) = kevent_changes accepts (kq_pending p) (kq_filters p);
            p' = p\<lparr>kq_filters := fs, kq_pending := [], kq_events_size := room\<rparr>
        in if failed > 0 then Ret ([], p')
           else case scan of
                  None \<Rightarrow> Blocked
                | Some (Events es) \<Rightarrow> Ret (take room es, p')
                | Some _ \<Rightarrow> Ret ([], p'))"

definition kqueue_mask :: "kfilter \<Rightarrow> bool \<Rightarrow> event_mask" where
  "kqueue_mask filt eof_or_error =
     (let m0 = 0;
          m1 = (if filt = EVFILT_READ then m0 OR Readable else m0);
          m2 = (if filt = EVFILT_WRITE then m1 OR Writable else m1)
      in if eof_or_error then m2 OR Closed else m2)"

text \<open>\<open>wait\<close>: the events returned (\<open>None\<close>: the result -1), the events lost in the flush, and the poller.\<close>

definition kqueue_wait ::
  "nat \<Rightarrow> (int \<Rightarrow> bool) \<Rightarrow> (int \<times> kfilter \<times> bool) wait_result option \<Rightarrow> (int \<times> kfilter \<times> bool) wait_result \<Rightarrow> 'u kqueue \<Rightarrow>
   ('u poll_event list option \<times> (int \<times> kfilter \<times> bool) list \<times> 'u kqueue) outcome" where
  "kqueue_wait n accepts scan answer p =
     (if \<not> kq_valid p then Ret (None, [], p)
      else if n = 0 then Ret (Some [], [], p)
      else bind_outcome (flush_pending accepts scan p) (\<lambda>(lost, p1).
        let p' = p1\<lparr>kq_events_size := n\<rparr>
        in case answer of
             WaitFailed \<Rightarrow> Ret (None, lost, p')
           | Interrupted \<Rightarrow> Ret (Some [], lost, p')
           | Events es \<Rightarrow> Ret (Some (map (\<lambda>(fd, filt, bad). \<lparr>ev_fd = fd, ev_mask = kqueue_mask filt bad, ev_userdata = kq_fds p' fd\<rparr>)
               (filter (\<lambda>(fd, filt, bad). filt \<noteq> EVFILT_USER) (take n es))), lost, p')))"

section \<open>The interface\<close>

type_synonym interest = "(bool \<times> bool) option"

definition wanted :: "event_mask \<Rightarrow> interest" where
  "wanted m = Some (has m Readable, has m Writable)"

text \<open>\<open>usable fd\<close>: the kernel accepts registrations of the descriptor, and the poller does not use it for itself.\<close>

locale poller =
  fixes usable :: "int \<Rightarrow> 'p \<Rightarrow> bool"
    and add :: "int \<Rightarrow> event_mask \<Rightarrow> 'u \<Rightarrow> 'p \<Rightarrow> bool \<times> 'p"
    and modify :: "int \<Rightarrow> event_mask \<Rightarrow> 'u \<Rightarrow> 'p \<Rightarrow> bool \<times> 'p"
    and del :: "int \<Rightarrow> 'p \<Rightarrow> bool \<times> 'p"
    and interest :: "'p \<Rightarrow> int \<Rightarrow> interest"
    and inv :: "'p \<Rightarrow> bool"
  assumes add_law: "inv p \<Longrightarrow> usable fd p \<Longrightarrow> interest p fd = None \<Longrightarrow>
      fst (add fd m u p) \<and> inv (snd (add fd m u p)) \<and> interest (snd (add fd m u p)) = (interest p)(fd := wanted m)"
    and mod_law: "inv p \<Longrightarrow> usable fd p \<Longrightarrow> interest p fd \<noteq> None \<Longrightarrow>
      fst (modify fd m u p) \<and> inv (snd (modify fd m u p)) \<and> interest (snd (modify fd m u p)) = (interest p)(fd := wanted m)"
    and del_law: "inv p \<Longrightarrow> usable fd p \<Longrightarrow> interest p fd \<noteq> None \<Longrightarrow>
      fst (del fd p) \<and> inv (snd (del fd p)) \<and> interest (snd (del fd p)) = (interest p)(fd := None)"
    and usable_law: "usable fd' (snd (add fd m u p)) = usable fd' p" "usable fd' (snd (modify fd m u p)) = usable fd' p"
      "usable fd' (snd (del fd p)) = usable fd' p"

datatype 'u poll_op = PAdd int event_mask 'u | PMod int event_mask 'u | PDel int

primrec poll_fd :: "'u poll_op \<Rightarrow> int" where
  "poll_fd (PAdd fd m u) = fd"
| "poll_fd (PMod fd m u) = fd"
| "poll_fd (PDel fd) = fd"

text \<open>The reactor adds a descriptor once, and changes or removes it only while it is registered.\<close>

fun legal_poll :: "'u poll_op \<Rightarrow> (int \<Rightarrow> interest) \<Rightarrow> bool" where
  "legal_poll (PAdd fd m u) f = (f fd = None)"
| "legal_poll (PMod fd m u) f = (f fd \<noteq> None)"
| "legal_poll (PDel fd) f = (f fd \<noteq> None)"

fun spec_poll :: "'u poll_op \<Rightarrow> (int \<Rightarrow> interest) \<Rightarrow> (int \<Rightarrow> interest)" where
  "spec_poll (PAdd fd m u) f = f(fd := wanted m)"
| "spec_poll (PMod fd m u) f = f(fd := wanted m)"
| "spec_poll (PDel fd) f = f(fd := None)"

fun legal_polls :: "'u poll_op list \<Rightarrow> (int \<Rightarrow> interest) \<Rightarrow> bool" where
  "legal_polls [] f = True"
| "legal_polls (x # xs) f = (legal_poll x f \<and> legal_polls xs (spec_poll x f))"

text \<open>A sequence of calls: whether all succeeded, and the poller afterwards.\<close>

fun run_polls ::
  "(int \<Rightarrow> event_mask \<Rightarrow> 'u \<Rightarrow> 'p \<Rightarrow> bool \<times> 'p) \<Rightarrow> (int \<Rightarrow> event_mask \<Rightarrow> 'u \<Rightarrow> 'p \<Rightarrow> bool \<times> 'p) \<Rightarrow> (int \<Rightarrow> 'p \<Rightarrow> bool \<times> 'p) \<Rightarrow>
   'u poll_op list \<Rightarrow> 'p \<Rightarrow> bool \<times> 'p" where
  "run_polls add md dl [] p = (True, p)"
| "run_polls add md dl (x # xs) p =
     (let (ok, p') = (case x of PAdd fd m u \<Rightarrow> add fd m u p | PMod fd m u \<Rightarrow> md fd m u p | PDel fd \<Rightarrow> dl fd p);
          (ok', p'') = run_polls add md dl xs p'
      in (ok \<and> ok', p''))"

context poller
begin

lemma run_interest:
  assumes "inv p" "legal_polls xs (interest p)" "\<forall>x \<in> set xs. usable (poll_fd x) p"
  shows "\<exists>p'. run_polls add modify del xs p = (True, p') \<and> inv p' \<and> interest p' = fold spec_poll xs (interest p)"
  using assms
proof (induction xs arbitrary: p)
  case (Cons x xs)
  let ?r = "case x of PAdd fd m u \<Rightarrow> add fd m u p | PMod fd m u \<Rightarrow> modify fd m u p | PDel fd \<Rightarrow> del fd p"
  obtain p1 where p1: "?r = (True, p1)" "inv p1" "interest p1 = spec_poll x (interest p)"
    using Cons.prems add_law [of p] mod_law [of p] del_law [of p] by (cases x) (auto simp: prod_eq_iff)
  have "usable fd p1 = usable fd p" for fd
    using arg_cong [OF p1(1), of snd] usable_law by (cases x) auto
  then show ?case using p1 Cons.IH [OF p1(2)] Cons.prems(2,3) by auto
qed simp

end

text \<open>Both back ends keep the contract; the interest sets are read off the kernel side.\<close>

definition ep_usable :: "(int \<Rightarrow> bool) \<Rightarrow> int \<Rightarrow> 'u epoll \<Rightarrow> bool" where
  "ep_usable accepts fd p \<longleftrightarrow> accepts fd \<and> ep_wakefd p \<noteq> Some fd"

definition ep_interest :: "'u epoll \<Rightarrow> int \<Rightarrow> interest" where
  "ep_interest p fd =
     (if ep_wakefd p = Some fd then None
      else map_option (\<lambda>(e, d). (e AND EPOLLIN \<noteq> 0, e AND EPOLLOUT \<noteq> 0)) (ep_kernel p fd))"

definition ep_inv :: "'u epoll \<Rightarrow> bool" where
  [muses_inv]: "ep_inv p \<longleftrightarrow> ep_valid p \<and> (\<forall>fd. ep_wakefd p \<noteq> Some fd \<longrightarrow> (ep_fds p fd = None \<longleftrightarrow> ep_kernel p fd = None))"

text \<open>The interest set of a kqueue as its filters are, and as they will be when the pending changes have been applied.\<close>

definition kq_watched :: "'u kqueue \<Rightarrow> int \<Rightarrow> interest" where
  "kq_watched p fd =
     (if kq_fds p fd = None then None else Some ((fd, EVFILT_READ) \<in> set (kq_filters p), (fd, EVFILT_WRITE) \<in> set (kq_filters p)))"

definition kq_flushed :: "(int \<Rightarrow> bool) \<Rightarrow> 'u kqueue \<Rightarrow> (int \<times> kfilter) set" where
  "kq_flushed accepts p = set (fst (kevent_changes accepts (kq_pending p) (kq_filters p)))"

definition kq_interest :: "(int \<Rightarrow> bool) \<Rightarrow> 'u kqueue \<Rightarrow> int \<Rightarrow> interest" where
  "kq_interest accepts p fd =
     (if kq_fds p fd = None then None else Some ((fd, EVFILT_READ) \<in> kq_flushed accepts p, (fd, EVFILT_WRITE) \<in> kq_flushed accepts p))"

definition kq_inv :: "(int \<Rightarrow> bool) \<Rightarrow> 'u kqueue \<Rightarrow> bool" where
  [muses_inv]: "kq_inv accepts p \<longleftrightarrow> kq_valid p \<and>
     (\<forall>fd. kq_fds p fd = None \<longrightarrow> (fd, EVFILT_READ) \<notin> kq_flushed accepts p \<and> (fd, EVFILT_WRITE) \<notin> kq_flushed accepts p)"

lemma to_epoll_bits: "to_epoll m AND EPOLLIN \<noteq> 0 \<longleftrightarrow> has m Readable" "to_epoll m AND EPOLLOUT \<noteq> 0 \<longleftrightarrow> has m Writable"
  by (simp_all add: to_epoll_def EPOLLIN_def EPOLLOUT_def EPOLLET_def Let_def bit.conj_disj_distrib2)

lemmas ep_ops = epoll_add_def epoll_mod_def epoll_del_def ep_inv_def ep_interest_def ep_usable_def fun_eq_iff wanted_def to_epoll_bits

interpretation ep: poller "ep_usable accepts" "epoll_add accepts" "epoll_mod accepts" "epoll_del accepts" ep_interest ep_inv
  for accepts :: "int \<Rightarrow> bool"
proof
  fix p :: "'u epoll" and fd fd' m and u :: 'u
  show "fst (epoll_add accepts fd m u p) \<and> ep_inv (snd (epoll_add accepts fd m u p)) \<and>
      ep_interest (snd (epoll_add accepts fd m u p)) = (ep_interest p)(fd := wanted m)"
    if "ep_inv p" "ep_usable accepts fd p" "ep_interest p fd = None"
    using that by (auto simp: ep_ops)
  show "fst (epoll_mod accepts fd m u p) \<and> ep_inv (snd (epoll_mod accepts fd m u p)) \<and>
      ep_interest (snd (epoll_mod accepts fd m u p)) = (ep_interest p)(fd := wanted m)"
    if "ep_inv p" "ep_usable accepts fd p" "ep_interest p fd \<noteq> None"
    using that by (auto simp: ep_ops)
  show "fst (epoll_del accepts fd p) \<and> ep_inv (snd (epoll_del accepts fd p)) \<and>
      ep_interest (snd (epoll_del accepts fd p)) = (ep_interest p)(fd := None)"
    if "ep_inv p" "ep_usable accepts fd p" "ep_interest p fd \<noteq> None"
    using that by (auto simp: ep_ops Let_def)
qed (simp_all add: ep_usable_def epoll_add_def epoll_mod_def epoll_del_def Let_def)

lemma kevent_changes_append:
  "fst (kevent_changes accepts (cs @ ds) fs) = fst (kevent_changes accepts ds (fst (kevent_changes accepts cs fs)))"
  by (induction accepts cs fs rule: kevent_changes.induct) (auto simp: Let_def split: kflag.split)

lemma flushed_buffer_change:
  "kq_flushed accepts (buffer_change fd filt flag p) =
     (if flag = EV_DELETE then kq_flushed accepts p - {(fd, filt)}
      else if accepts fd then insert (fd, filt) (kq_flushed accepts p) else kq_flushed accepts p)"
  by (cases flag) (auto simp: kq_flushed_def buffer_change_def kevent_changes_append Let_def)

lemma buffer_change_simps [simp]:
  "kq_fds (buffer_change fd filt flag p) = kq_fds p" "kq_valid (buffer_change fd filt flag p) = kq_valid p"
  by (simp_all add: buffer_change_def)

lemma flushed_fds_update [simp]: "kq_flushed accepts (p\<lparr>kq_fds := f\<rparr>) = kq_flushed accepts p"
  by (simp add: kq_flushed_def)

lemmas kq_ops = kqueue_add_def kqueue_mod_def kqueue_del_def kq_apply_def kq_inv_def kq_interest_def flushed_buffer_change
  wanted_def Let_def fun_eq_iff

interpretation kq: poller "\<lambda>fd p. accepts fd" kqueue_add kqueue_mod kqueue_del "kq_interest accepts" "kq_inv accepts"
  for accepts :: "int \<Rightarrow> bool"
proof
  fix p :: "'u kqueue" and fd m and u :: 'u
  assume inv: "kq_inv accepts p" "accepts fd"
  have reg: "kq_fds p fd \<noteq> None" if "kq_interest accepts p fd \<noteq> None"
    using that by (cases "kq_fds p fd") (simp_all add: kq_interest_def)
  show "fst (kqueue_add fd m u p) \<and> kq_inv accepts (snd (kqueue_add fd m u p)) \<and>
      kq_interest accepts (snd (kqueue_add fd m u p)) = (kq_interest accepts p)(fd := wanted m)" if "kq_interest accepts p fd = None"
    using that inv by (auto simp: kq_ops)
  show "fst (kqueue_mod fd m u p) \<and> kq_inv accepts (snd (kqueue_mod fd m u p)) \<and>
      kq_interest accepts (snd (kqueue_mod fd m u p)) = (kq_interest accepts p)(fd := wanted m)" if "kq_interest accepts p fd \<noteq> None"
    using reg [OF that] inv by (auto simp: kq_ops)
  show "fst (kqueue_del fd p) \<and> kq_inv accepts (snd (kqueue_del fd p)) \<and>
      kq_interest accepts (snd (kqueue_del fd p)) = (kq_interest accepts p)(fd := None)" if "kq_interest accepts p fd \<noteq> None"
    using reg [OF that] inv by (auto simp: kq_ops)
qed simp_all

lemma flush_watched:
  assumes "flush_pending accepts scan p = Ret (lost, p')"
  shows "kq_watched p' = kq_interest accepts p" "kq_fds p' = kq_fds p" "set (kq_filters p') = kq_flushed accepts p"
proof -
  have "kq_fds p' = kq_fds p \<and> set (kq_filters p') = kq_flushed accepts p"
    using assms by (auto simp: flush_pending_def kq_flushed_def Let_def split: if_splits prod.splits option.splits wait_result.splits)
  then show "kq_fds p' = kq_fds p" "set (kq_filters p') = kq_flushed accepts p" by simp_all
  then show "kq_watched p' = kq_interest accepts p" by (simp add: kq_watched_def kq_interest_def fun_eq_iff)
qed

text \<open>
  C30. The two back ends keep the same interest sets: a sequence of registrations of descriptors that the kernel accepts,
  in which a descriptor is added only while it is not registered, and changed or removed only while it is, succeeds call by
  call on both, and when \<open>wait\<close> has flushed the batched changes of the kqueue, both watch the same descriptors for the same
  directions, and the kqueue has no socket filter on any other.
\<close>

theorem pollers_agree:
  fixes xs :: "'u poll_op list"
  assumes "legal_polls xs (\<lambda>_. None)" "\<forall>x \<in> set xs. accepts (poll_fd x) \<and> wake \<noteq> Some (poll_fd x)"
  shows "\<exists>e k. run_polls (epoll_add accepts) (epoll_mod accepts) (epoll_del accepts) xs (epoll_new True wake added) = (True, e) \<and>
    run_polls kqueue_add kqueue_mod kqueue_del xs (kqueue_new True) = (True, k) \<and>
    ep_interest e = fold spec_poll xs (\<lambda>_. None) \<and>
    (\<forall>scan lost k'. flush_pending accepts scan k = Ret (lost, k') \<longrightarrow> kq_watched k' = ep_interest e \<and>
       (\<forall>fd. ep_interest e fd = None \<longrightarrow> (fd, EVFILT_READ) \<notin> set (kq_filters k') \<and> (fd, EVFILT_WRITE) \<notin> set (kq_filters k')))"
proof -
  let ?e = "epoll_new True wake added :: 'u epoll" and ?k = "kqueue_new True :: 'u kqueue"
  have e: "ep_inv ?e" "ep_interest ?e = (\<lambda>_. None)" "\<forall>x \<in> set xs. ep_usable accepts (poll_fd x) ?e"
    using assms(2) by (auto simp: ep_inv_def epoll_new_def ep_interest_def ep_usable_def fun_eq_iff split: option.split)
  have k: "kq_inv accepts ?k" "kq_interest accepts ?k = (\<lambda>_. None)"
    by (simp_all add: kq_inv_def kqueue_new_def kq_interest_def kq_flushed_def fun_eq_iff)
  obtain e' where e': "run_polls (epoll_add accepts) (epoll_mod accepts) (epoll_del accepts) xs ?e = (True, e')"
    "ep_interest e' = fold spec_poll xs (\<lambda>_. None)"
    using ep.run_interest [OF e(1), of xs accepts] e(2,3) assms(1) by auto
  obtain k' where k': "run_polls kqueue_add kqueue_mod kqueue_del xs ?k = (True, k')" "kq_inv accepts k'"
    "kq_interest accepts k' = fold spec_poll xs (\<lambda>_. None)"
    using kq.run_interest [OF k(1), of xs] k(2) assms by auto
  have "kq_watched k2 = ep_interest e' \<and>
      (\<forall>fd. ep_interest e' fd = None \<longrightarrow> (fd, EVFILT_READ) \<notin> set (kq_filters k2) \<and> (fd, EVFILT_WRITE) \<notin> set (kq_filters k2))"
    if f: "flush_pending accepts scan k' = Ret (lost, k2)" for scan lost k2
  proof -
    have eq: "ep_interest e' = kq_interest accepts k'" using e'(2) k'(3) by simp
    have "kq_fds k' fd = None" if "kq_interest accepts k' fd = None" for fd
      using that by (simp add: kq_interest_def split: if_splits)
    then show ?thesis using flush_watched [OF f] k'(2) unfolding eq kq_inv_def by simp
  qed
  with e' k'(1) show ?thesis by blast
qed

theorem pollers_agree_witness:
  "\<exists>e k k'. run_polls (epoll_add (\<lambda>_. True)) (epoll_mod (\<lambda>_. True)) (epoll_del (\<lambda>_. True)) [PAdd 5 Readable (), PMod 5 Writable ()]
       (epoll_new True (Some 4) True) = (True, e) \<and>
    run_polls kqueue_add kqueue_mod kqueue_del [PAdd 5 Readable (), PMod 5 Writable ()] (kqueue_new True) = (True, k) \<and>
    flush_pending (\<lambda>_. True) None k = Ret ([], k') \<and> ep_interest e 5 = Some (False, True) \<and> kq_watched k' 5 = Some (False, True)"
proof -
  let ?xs = "[PAdd 5 Readable (), PMod 5 Writable ()]"
  have "legal_polls ?xs (\<lambda>_. None)" "\<forall>x \<in> set ?xs. True \<and> Some 4 \<noteq> Some (poll_fd x)" by (simp_all add: wanted_def)
  from pollers_agree [OF this, of True] obtain e k where
    r: "run_polls (epoll_add (\<lambda>_. True)) (epoll_mod (\<lambda>_. True)) (epoll_del (\<lambda>_. True)) ?xs (epoll_new True (Some 4) True) = (True, e)"
      "run_polls kqueue_add kqueue_mod kqueue_del ?xs (kqueue_new True) = (True, k)"
    and i: "ep_interest e = fold spec_poll ?xs (\<lambda>_. None)"
    and w: "\<And>scan lost k'. flush_pending (\<lambda>_. True) scan k = Ret (lost, k') \<Longrightarrow> kq_watched k' = ep_interest e" by blast
  have "k = snd (run_polls kqueue_add kqueue_mod kqueue_del ?xs (kqueue_new True))" using r(2) by simp
  then have "\<exists>k'. flush_pending (\<lambda>_. True) None k = Ret ([], k')"
    by (simp add: kqueue_new_def kqueue_add_def kqueue_mod_def kq_apply_def buffer_change_def has_def Readable_def Writable_def
        flush_pending_def Let_def)
  moreover have "ep_interest e 5 = Some (False, True)" unfolding i by (simp add: wanted_def has_def Readable_def Writable_def)
  ultimately show ?thesis using r w by metis
qed

text \<open>
  C31. Where the kqueue back end fails.  When a registered descriptor that is watched for reading is changed to be watched
  for writing, as the reactor does when it parks a response, both changes succeed, so the call of \<open>kevent\<close> in
  \<open>flush_pending\<close> goes on to wait for events without a limit: \<open>wait\<close> does not return while nothing happens, whatever its own
  timeout, and when events happen, they are taken out of the queue there and are not among the events that \<open>wait\<close>
  returns.  And where \<open>add\<close> of the epoll back end reports that the kernel does not accept a descriptor, the one of the
  kqueue back end returns true, and the descriptor is not watched.
\<close>

theorem kqueue_flush_swallows_events:
  assumes "kq_valid p" "kq_pending p = []" "kq_fds p fd \<noteq> None" "(fd, EVFILT_READ) \<in> set (kq_filters p)"
    and "(fd, EVFILT_WRITE) \<notin> set (kq_filters p)" "accepts fd" "0 < n"
    and "\<not> accepts bad" "(bad, EVFILT_READ) \<notin> set (kq_filters p)"
  shows "\<exists>p1 p2. kqueue_mod fd Writable u p = (True, p1) \<and> kqueue_add bad Readable u p = (True, p2) \<and>
    kqueue_wait n accepts None answer p1 = Blocked \<and>
    (\<exists>out p3. \<forall>es. kqueue_wait n accepts (Some (Events es)) answer p1 = Ret (out, take (max (kq_events_size p) 2) es, p3)) \<and>
    \<not> fst (epoll_add accepts bad Readable u e) \<and>
    (\<forall>scan lost p3. flush_pending accepts scan p2 = Ret (lost, p3) \<longrightarrow> (bad, EVFILT_READ) \<notin> set (kq_filters p3))"
proof -
  let ?p1 = "snd (kqueue_mod fd Writable u p)" and ?p2 = "snd (kqueue_add bad Readable u p)"
  have p1: "kq_pending ?p1 = [\<lparr>kc_ident = fd, kc_filter = EVFILT_READ, kc_flag = EV_DELETE\<rparr>,
      \<lparr>kc_ident = fd, kc_filter = EVFILT_WRITE, kc_flag = EV_ADD_CLEAR\<rparr>]"
    "kq_filters ?p1 = kq_filters p" "kq_valid ?p1" "kq_events_size ?p1 = kq_events_size p"
    using assms by (simp_all add: kqueue_mod_def kq_apply_def buffer_change_def has_def Readable_def Writable_def Let_def)
  define fs where "fs = List.insert (fd, EVFILT_WRITE) (removeAll (fd, EVFILT_READ) (kq_filters p))"
  let ?p3 = "?p1\<lparr>kq_filters := fs, kq_pending := [], kq_events_size := max (kq_events_size p) 2\<rparr>"
  have blocked: "flush_pending accepts None ?p1 = Blocked"
    and swallowed: "flush_pending accepts (Some (Events es)) ?p1 = Ret (take (max (kq_events_size p) 2) es, ?p3)" for es
    using assms(4,6) by (simp_all add: flush_pending_def p1(1,2,4) fs_def numeral_2_eq_2 Let_def)
  have "\<exists>out p4. \<forall>es. kqueue_wait n accepts (Some (Events es)) answer ?p1 = Ret (out, take (max (kq_events_size p) 2) es, p4)"
    using p1(3) assms(7) by (cases answer) (auto simp: kqueue_wait_def swallowed Let_def)
  moreover have "kqueue_wait n accepts None answer ?p1 = Blocked" using p1(3) assms(7) by (simp add: kqueue_wait_def blocked)
  moreover have "kqueue_mod fd Writable u p = (True, ?p1)" "kqueue_add bad Readable u p = (True, ?p2)"
    using assms(1,3) by (simp_all add: kqueue_mod_def kqueue_add_def)
  moreover have "(bad, EVFILT_READ) \<notin> kq_flushed accepts ?p2"
    using assms(1,2,8,9) by (simp add: kqueue_add_def kq_apply_def flushed_buffer_change kq_flushed_def [of _ p] Let_def)
  moreover have "\<not> fst (epoll_add accepts bad Readable u e)" using assms(8) by (simp add: epoll_add_def)
  ultimately show ?thesis using flush_watched(3) by metis
qed

definition example_kqueue :: "unit kqueue" where
  "example_kqueue = (kqueue_new True)\<lparr>kq_fds := [5 \<mapsto> ()], kq_filters := [(5, EVFILT_READ)]\<rparr>"

theorem kqueue_flush_swallows_events_witness:
  "\<exists>p1 out p3. kqueue_mod 5 Writable () example_kqueue = (True, p1) \<and>
     kqueue_wait 64 (\<lambda>fd. fd = 5) None (Events []) p1 = Blocked \<and>
     kqueue_wait 64 (\<lambda>fd. fd = 5) (Some (Events [(1, EVFILT_USER, False)])) (Events []) p1 = Ret (out, [(1, EVFILT_USER, False)], p3)"
proof -
  from kqueue_flush_swallows_events [of example_kqueue 5 "\<lambda>fd. fd = 5" 64 9 "()" "Events []" "epoll_new True None True"]
  obtain p1 out p3 where "kqueue_mod 5 Writable () example_kqueue = (True, p1)"
    "kqueue_wait 64 (\<lambda>fd. fd = 5) None (Events []) p1 = Blocked"
    "\<forall>es. kqueue_wait 64 (\<lambda>fd. fd = 5) (Some (Events es)) (Events []) p1 = Ret (out, take (max (kq_events_size example_kqueue) 2) es, p3)"
    by (simp add: example_kqueue_def kqueue_new_def) blast
  then show ?thesis by (intro exI [of _ p1] exI [of _ out] exI [of _ p3]) simp
qed

end
