(* ===== verification/Connection.thy ===== *)
theory Connection
  imports Poller Http_Handler
begin

text \<open>
  The per-connection half of \<open>src/muses/net/reactor.hpp\<close>: the \<open>Connection\<close> and what the reactor thread does to one of
  them without looking at the others, that is the read loop of \<open>on_client_event\<close> with its incremental search for the end
  of the headers, \<open>drain_into_buffer\<close>, the search of \<open>check_buffered_request\<close>, the carving of \<open>dispatch_to_worker\<close> and
  the write loop \<open>try_write\<close>.

  The read buffer is its contents, the list that \<open>contents\<close> of theory \<open>Pooled_Buffer\<close> reads off the pool's memory, and
  its scan position.  The answers of \<open>read\<close> and \<open>write\<close> are lists, consumed in order; a list that has run out leaves the
  call blocked.  \<open>c_in\<close>, \<open>c_requests\<close> and \<open>c_out\<close> are history variables: the bytes read from the socket, the
  requests handed to workers and the bytes written to the socket.
\<close>

section \<open>Data\<close>

record conn =
  c_fd :: int
  c_buf :: string
  c_scan :: nat
  c_dispatched :: bool
  c_write_buf :: string
  c_write_off :: nat
  c_keep_alive_after_write :: bool
  c_writing :: bool
  c_last_active :: int
  c_client_ip :: u32
  c_in :: string
  c_requests :: "string list"
  c_out :: string

definition conn_new :: "int \<Rightarrow> u32 \<Rightarrow> int \<Rightarrow> conn" where
  "conn_new fd ip now =
     \<lparr>c_fd = fd, c_buf = [], c_scan = 0, c_dispatched = False, c_write_buf = [], c_write_off = 0,
      c_keep_alive_after_write = False, c_writing = False, c_last_active = now, c_client_ip = ip,
      c_in = [], c_requests = [], c_out = []\<rparr>"

definition Connection_max_request :: nat where
  "Connection_max_request = 64 * 1024"

text \<open>
  \<open>read\<close> of at most 4096 bytes: the bytes (none at the end of the stream) and whether \<open>append\<close> finds room for them, or
  the error.
\<close>

datatype read_answer = RBytes string bool | RAgain | RIntr | RFail

datatype write_answer = WBytes nat | WAgain | WIntr | WFail

section \<open>Finding the end of the headers\<close>

definition ends_at :: "string \<Rightarrow> nat \<Rightarrow> bool" where
  "ends_at s i \<longleftrightarrow> s ! i = CR \<and> s ! (i + 1) = LF \<and> s ! (i + 2) = CR \<and> s ! (i + 3) = LF"

text \<open>The search loop over the positions \<open>i\<close> with \<open>i + 4 \<le> length s\<close>, from \<open>from\<close> on.\<close>

function find_end :: "string \<Rightarrow> nat \<Rightarrow> nat option" where
  "find_end s i = (if i + 4 \<le> length s then if ends_at s i then Some i else find_end s (i + 1) else None)"
  by pat_completeness auto
termination
  by (relation "measure (\<lambda>(s, i). length s - i)") auto

declare find_end.simps [simp del]

section \<open>Reading\<close>

text \<open>The last position at which an end may have begun that the first \<open>n\<close> bytes do not complete.\<close>

definition tail_pos :: "nat \<Rightarrow> nat" where
  "tail_pos n = (if n \<ge> 3 then n - 3 else 0)"

datatype read_end = Drained bool | MustClose

text \<open>One successful read in \<open>on_client_event\<close>: \<open>None\<close> when the connection is to be dropped, else whether the end was found.\<close>

definition take_bytes :: "int \<Rightarrow> string \<Rightarrow> conn \<Rightarrow> (bool \<times> conn) option" where
  "take_bytes now bs c =
     (let prev_len = length (c_buf c);
          c1 = c\<lparr>c_last_active := now, c_buf := c_buf c @ bs, c_in := c_in c @ bs\<rparr>;
          n = length (c_buf c1)
      in if n > Connection_max_request then None
         else
           let from = tail_pos prev_len; scan_from = (if from < c_scan c1 then c_scan c1 else from)
           in case find_end (c_buf c1) scan_from of
                Some hit_off \<Rightarrow> Some (True, c1\<lparr>c_scan := hit_off + 4\<rparr>)
              | None \<Rightarrow> Some (False, c1\<lparr>c_scan := tail_pos n\<rparr>))"

fun read_loop :: "int \<Rightarrow> bool \<Rightarrow> read_answer list \<Rightarrow> conn \<Rightarrow> (read_end \<times> conn \<times> read_answer list) outcome" where
  "read_loop now got_complete [] c = Blocked"
| "read_loop now got_complete (RBytes bs room # rs) c =
     (if bs = [] then Ret (MustClose, c, rs)
      else if \<not> room then Ret (MustClose, c, rs)
      else case take_bytes now bs c of
             None \<Rightarrow> Ret (MustClose, c, rs)
           | Some (found, c') \<Rightarrow> read_loop now (got_complete \<or> found) rs c')"
| "read_loop now got_complete (RAgain # rs) c = Ret (Drained got_complete, c, rs)"
| "read_loop now got_complete (RIntr # rs) c = read_loop now got_complete rs c"
| "read_loop now got_complete (RFail # rs) c = Ret (MustClose, c, rs)"

text \<open>\<open>drain_into_buffer\<close>: whether the connection is still there.\<close>

fun drain_loop :: "read_answer list \<Rightarrow> conn \<Rightarrow> (bool \<times> conn \<times> read_answer list) outcome" where
  "drain_loop [] c = Blocked"
| "drain_loop (RBytes bs room # rs) c =
     (if bs = [] then Ret (False, c, rs)
      else if \<not> room then Ret (False, c, rs)
      else
        let c' = c\<lparr>c_buf := c_buf c @ bs, c_in := c_in c @ bs\<rparr>
        in if length (c_buf c') > Connection_max_request then Ret (False, c', rs) else drain_loop rs c')"
| "drain_loop (RAgain # rs) c = Ret (True, c, rs)"
| "drain_loop (RIntr # rs) c = drain_loop rs c"
| "drain_loop (RFail # rs) c = Ret (False, c, rs)"

text \<open>
  The carving in \<open>dispatch_to_worker\<close>: the request and the connection with the rest moved to the front.  Copying more bytes
  than the buffer holds would be undefined.
\<close>

definition carve_request :: "conn \<Rightarrow> (string \<times> conn) outcome" where
  "carve_request c =
     (let req_len = (if c_scan c = 0 then length (c_buf c) else c_scan c)
      in if req_len > length (c_buf c) then Undefined
         else
           let request = take req_len (c_buf c)
           in Ret (request, c\<lparr>c_dispatched := True, c_buf := drop req_len (c_buf c), c_scan := 0,
                c_requests := c_requests c @ [request]\<rparr>))"

section \<open>Writing\<close>

text \<open>\<open>try_write\<close>: the new offset (\<open>None\<close> on a hard error) and the bytes that went out; \<open>write\<close> takes at most what it is given.\<close>

fun try_write :: "string \<Rightarrow> nat \<Rightarrow> write_answer list \<Rightarrow> (nat option \<times> string \<times> write_answer list) outcome" where
  "try_write data tot [] = (if tot < length data then Blocked else Ret (Some tot, [], []))"
| "try_write data tot (w # ws) =
     (if tot < length data then
        (case w of
           WBytes k \<Rightarrow>
             let n = min k (length data - tot) in
             if n > 0 then
               bind_outcome (try_write data (tot + n) ws) (\<lambda>(r, sent, ws').
                 Ret (r, take n (drop tot data) @ sent, ws'))
             else Ret (None, [], ws)
         | WAgain \<Rightarrow> Ret (Some tot, [], ws)
         | WIntr \<Rightarrow> try_write data tot ws
         | WFail \<Rightarrow> Ret (None, [], ws))
      else Ret (Some tot, [], w # ws))"

section \<open>The search is exact\<close>

text \<open>The whole-buffer search, which \<open>check_buffered_request\<close> uses and the incremental one is measured against.\<close>

definition complete_at :: "string \<Rightarrow> nat \<Rightarrow> bool" where
  "complete_at s i \<longleftrightarrow> i + 4 \<le> length s \<and> ends_at s i"

lemma find_end_Some: "find_end s i = Some k \<longleftrightarrow> i \<le> k \<and> complete_at s k \<and> (\<forall>j. i \<le> j \<and> j < k \<longrightarrow> \<not> complete_at s j)"
proof (induction s i rule: find_end.induct)
  case (1 s i)
  show ?case
  proof (cases "complete_at s i")
    case True
    then show ?thesis by (subst find_end.simps) (auto simp: complete_at_def not_less dest: le_neq_implies_less)
  next
    case False
    have split: "(\<forall>j. i \<le> j \<and> j < k \<longrightarrow> \<not> complete_at s j) \<longleftrightarrow> (\<forall>j. i + 1 \<le> j \<and> j < k \<longrightarrow> \<not> complete_at s j)"
      using False by (metis Suc_eq_plus1 Suc_leI le_neq_implies_less Suc_leD)
    show ?thesis
    proof (cases "i + 4 \<le> length s")
      case True
      then have "find_end s i = find_end s (i + 1)" using False by (subst find_end.simps) (simp add: complete_at_def)
      then show ?thesis using 1 True False split by (auto simp: complete_at_def dest: le_neq_implies_less)
    next
      case nf: False
      then show ?thesis by (subst find_end.simps) (auto simp: complete_at_def)
    qed
  qed
qed

lemma find_end_None: "find_end s i = None \<longleftrightarrow> (\<forall>j. i \<le> j \<longrightarrow> \<not> complete_at s j)"
proof (induction s i rule: find_end.induct)
  case (1 s i)
  show ?case
  proof (cases "i + 4 \<le> length s")
    case True
    then show ?thesis using 1
      by (subst find_end.simps) (auto simp: complete_at_def dest: le_neq_implies_less intro: Suc_leI)
  next
    case False
    then show ?thesis by (subst find_end.simps) (auto simp: complete_at_def)
  qed
qed

lemma complete_at_append: "i + 4 \<le> length s \<Longrightarrow> complete_at (s @ t) i = complete_at s i"
  by (simp add: complete_at_def ends_at_def nth_append)

lemma find_end_resume:
  assumes "\<forall>j. \<not> complete_at s j" "k \<le> length s - 3"
  shows "find_end (s @ t) k = find_end (s @ t) 0"
proof -
  have no: "\<not> complete_at (s @ t) j" if "j < k" for j
    using assms that complete_at_append [of j s t] by simp
  show ?thesis
  proof (cases "find_end (s @ t) 0")
    case None
    then have "find_end (s @ t) k = None" by (simp add: find_end_None)
    with None show ?thesis by simp
  next
    case (Some i)
    then have i: "complete_at (s @ t) i" "\<forall>j < i. \<not> complete_at (s @ t) j" by (auto simp: find_end_Some)
    then have "k \<le> i" using no by (meson not_le)
    with i have "find_end (s @ t) k = Some i" by (auto simp: find_end_Some)
    with Some show ?thesis by simp
  qed
qed

abbreviation chunks_then_again :: "string list \<Rightarrow> read_answer list \<Rightarrow> read_answer list" where
  "chunks_then_again bss rs \<equiv> map (\<lambda>bs. RBytes bs True) bss @ RAgain # rs"

lemma take_bytes_room:
  assumes "length (c_buf c @ bs) \<le> Connection_max_request"
  shows "\<exists>found c'. take_bytes now bs c = Some (found, c') \<and> c_buf c' = c_buf c @ bs \<and> c_in c' = c_in c @ bs"
  using assms by (auto simp: take_bytes_def Let_def split: option.split)

lemma tail_pos_eq: "tail_pos n = n - 3"
  by (simp add: tail_pos_def)

lemma take_bytes_fresh:
  assumes "length (c_buf c @ bs) \<le> Connection_max_request" "\<forall>j. \<not> complete_at (c_buf c) j" "c_scan c \<le> length (c_buf c) - 3"
  shows "\<exists>c'. take_bytes now bs c = Some (find_end (c_buf c @ bs) 0 \<noteq> None, c') \<and> c_buf c' = c_buf c @ bs \<and>
    c_scan c' = (case find_end (c_buf c @ bs) 0 of Some i \<Rightarrow> i + 4 | None \<Rightarrow> length (c_buf c @ bs) - 3)"
proof -
  let ?k = "if tail_pos (length (c_buf c)) < c_scan c then c_scan c else tail_pos (length (c_buf c))"
  have "?k \<le> length (c_buf c) - 3" using assms(3) by (simp add: tail_pos_eq)
  then have k: "find_end (c_buf c @ bs) ?k = find_end (c_buf c @ bs) 0" by (rule find_end_resume [OF assms(2)])
  let ?c = "c\<lparr>c_last_active := now, c_buf := c_buf c @ bs, c_in := c_in c @ bs\<rparr>"
  have "take_bytes now bs c = (case find_end (c_buf c @ bs) ?k of
      Some h \<Rightarrow> Some (True, ?c\<lparr>c_scan := h + 4\<rparr>)
    | None \<Rightarrow> Some (False, ?c\<lparr>c_scan := tail_pos (length (c_buf c @ bs))\<rparr>))"
    using assms(1) by (simp add: take_bytes_def Let_def cong: option.case_cong)
  then show ?thesis unfolding k by (cases "find_end (c_buf c @ bs) 0") (simp_all add: tail_pos_eq)
qed

lemma read_loop_complete:
  assumes "length (c_buf c @ concat bss) \<le> Connection_max_request" "\<forall>bs \<in> set bss. bs \<noteq> []"
  shows "\<exists>c'. read_loop now True (chunks_then_again bss rs) c = Ret (Drained True, c', rs) \<and> c_buf c' = c_buf c @ concat bss"
  using assms
proof (induction bss arbitrary: c)
  case (Cons bs bss)
  obtain found c1 where c1: "take_bytes now bs c = Some (found, c1)" "c_buf c1 = c_buf c @ bs"
    using take_bytes_room [of c bs now] Cons.prems(1) by auto
  then show ?case using Cons.IH [of c1] Cons.prems by auto
qed simp

lemma find_end_append:
  assumes "find_end s 0 \<noteq> None"
  shows "find_end (s @ t) 0 \<noteq> None"
proof -
  obtain j where j: "complete_at s j" using assms by (auto simp: find_end_None)
  then have "complete_at (s @ t) j" using complete_at_append [of j s t] by (simp add: complete_at_def)
  then show ?thesis by (auto simp: find_end_None)
qed

text \<open>
  C32. The incremental search for the end of the headers agrees with a search of the whole buffer.  Starting from a buffer
  without a complete request, however the bytes are split over the reads of one event, the read loop reports a complete
  request exactly when the accumulated bytes contain one; and when the end arrives with the last read, the scan position
  is just behind its first occurrence, so the first request is what is carved off.
\<close>

theorem incremental_scan_exact:
  assumes "length (c_buf c @ concat bss) \<le> Connection_max_request" "\<forall>bs \<in> set bss. bs \<noteq> []"
    and "find_end (c_buf c) 0 = None" "c_scan c \<le> length (c_buf c) - 3"
  shows "\<exists>c'. read_loop now False (chunks_then_again bss rs) c =
      Ret (Drained (find_end (c_buf c @ concat bss) 0 \<noteq> None), c', rs) \<and>
    c_buf c' = c_buf c @ concat bss \<and>
    (find_end (c_buf c @ concat (butlast bss)) 0 = None \<longrightarrow>
       (\<forall>i. find_end (c_buf c @ concat bss) 0 = Some i \<longrightarrow> c_scan c' = i + 4))"
  using assms
proof (induction bss arbitrary: c)
  case (Cons bs bss)
  let ?f = "find_end (c_buf c @ bs) 0"
  obtain c1 where c1: "take_bytes now bs c = Some (?f \<noteq> None, c1)" "c_buf c1 = c_buf c @ bs"
    "c_scan c1 = (case ?f of Some i \<Rightarrow> i + 4 | None \<Rightarrow> length (c_buf c @ bs) - 3)"
    using take_bytes_fresh [of c bs now] Cons.prems by (auto simp: find_end_None)
  show ?case
  proof (cases ?f)
    case None
    then have "find_end (c_buf c1) 0 = None" "c_scan c1 \<le> length (c_buf c1) - 3" using c1 by simp_all
    moreover have "find_end (c_buf c1 @ concat (butlast bss)) 0 = None"
      if "find_end (c_buf c @ concat (butlast (bs # bss))) 0 = None"
      using that None c1(2) by (cases "bss = []") simp_all
    ultimately show ?thesis using Cons.IH [of c1] Cons.prems c1(1,2) None by auto
  next
    case (Some i)
    obtain c2 where c2: "read_loop now True (chunks_then_again bss rs) c1 = Ret (Drained True, c2, rs)"
      "c_buf c2 = c_buf c1 @ concat bss"
      using read_loop_complete [of c1 bss now rs] Cons.prems c1(2) by auto
    have w: "find_end (c_buf c @ concat (bs # bss)) 0 \<noteq> None"
      using find_end_append [of "c_buf c @ bs" "concat bss"] Some by simp
    have only: "bss = []" if "find_end (c_buf c @ concat (butlast (bs # bss))) 0 = None"
      using that find_end_append [of "c_buf c @ bs" "concat (butlast bss)"] Some by (cases "bss = []") simp_all
    have scan: "c_scan c2 = k + 4"
      if "find_end (c_buf c @ concat (butlast (bs # bss))) 0 = None" "find_end (c_buf c @ concat (bs # bss)) 0 = Some k" for k
      using only [OF that(1)] that(2) c1(3) c2(1) Some by simp
    have "read_loop now False (chunks_then_again (bs # bss) rs) c =
        Ret (Drained (find_end (c_buf c @ concat (bs # bss)) 0 \<noteq> None), c2, rs)"
      using w c1(1) c2(1) Some Cons.prems(2) by simp
    moreover have "c_buf c2 = c_buf c @ concat (bs # bss)" using c1(2) c2(2) by simp
    ultimately show ?thesis using scan by blast
  qed
qed simp

theorem incremental_scan_exact_witness:
  "\<exists>c'. read_loop 0 False [RBytes ''G / H'' True, RBytes [CR, LF, CR] True, RBytes [LF, CHR ''X''] True, RAgain] (conn_new 5 1 0) =
     Ret (Drained True, c', []) \<and> c_scan c' = 9"
proof -
  let ?b = "[''G / H'', [CR, LF, CR], [LF, CHR ''X'']]"
  have "find_end (concat ?b) 0 = Some 5" "find_end (concat (butlast ?b)) 0 = None" "find_end [] 0 = None"
    by (simp_all add: find_end.simps ends_at_def)
  then show ?thesis
    using incremental_scan_exact [of "conn_new 5 1 0" ?b 0 "[]"] by (auto simp: conn_new_def Connection_max_request_def)
qed

section \<open>What is written\<close>

lemma try_write_sent:
  assumes "try_write data tot ws = Ret (r, sent, ws')" "tot \<le> length data"
  shows "prefix sent (drop tot data) \<and>
    (\<forall>n. r = Some n \<longrightarrow> tot \<le> n \<and> n \<le> length data \<and> sent = take (n - tot) (drop tot data))"
  using assms
proof (induction data tot ws arbitrary: r sent ws' rule: try_write.induct)
  case (2 data tot w ws)
  show ?case
  proof (cases "tot < length data \<and> (\<exists>k. w = WBytes k \<and> 0 < min k (length data - tot))")
    case True
    then obtain k where w: "w = WBytes k" by blast
    define n where "n = min k (length data - tot)"
    have n: "0 < n" "tot + n \<le> length data" using True w by (auto simp: n_def)
    obtain sent1 where s: "try_write data (tot + n) ws = Ret (r, sent1, ws')" "sent = take n (drop tot data) @ sent1"
      using "2.prems"(1) True w n by (cases "try_write data (tot + n) ws") (auto simp: n_def)
    have ih: "prefix sent1 (drop (tot + n) data) \<and>
        (\<forall>m. r = Some m \<longrightarrow> tot + n \<le> m \<and> m \<le> length data \<and> sent1 = take (m - (tot + n)) (drop (tot + n) data))"
      using "2.IH"(1) [OF _ w n_def n(1) s(1) n(2)] True by blast
    have d: "drop tot data = take n (drop tot data) @ drop (tot + n) data"
      using append_take_drop_id [of n "drop tot data"] by (simp add: add.commute)
    have "prefix sent (drop tot data)" using ih s(2) d by (metis same_prefix_prefix)
    moreover have "sent = take (m - tot) (drop tot data)" if "r = Some m" for m
    proof -
      have "m - tot = n + (m - (tot + n))" "sent1 = take (m - (tot + n)) (drop (tot + n) data)" using ih that by auto
      then show ?thesis using s(2) by (simp add: take_add add.commute)
    qed
    ultimately show ?thesis using ih by auto
  next
    case False
    then show ?thesis using 2 by (auto split: write_answer.splits if_splits simp: Let_def)
  qed
qed (auto split: if_splits)

end
