(* ===== verification/Reactor.thy ===== *)
theory Reactor
  imports Connection Bloom_Filter Ring_Queue
begin

text \<open>
  The reactor of \<open>src/muses/net/reactor.hpp\<close>: the handlers of the reactor thread, the task a worker runs, and the loop.

  A handler is a function on the reactor's state.  The state holds the answers the kernel will give (\<open>rx_reads\<close>,
  \<open>rx_writes\<close>, \<open>rx_accepts\<close>), which the calls consume in order, and the reading of the steady clock in nanoseconds,
  which is the same for all calls of one handler.  The interest sets are those of the contract of theory \<open>Poller\<close>, the
  outbox is the \<open>DropNew\<close> ring of theory \<open>Ring_Queue\<close>, whose operations are one step each (how they interleave is the
  subject of \<open>Ring_Concurrent\<close>), and the queue of the thread pool is
  the list of tasks enqueued and not yet run, any of which may be the next to run.  \<open>rx_open\<close> is the part of the kernel's
  descriptor table that belongs to the reactor, and \<open>rx_closed\<close> is a history variable: the connections closed so far, as
  they were last.  Logging is left out, and so is a \<open>bad_alloc\<close> from the memory pool.  \<open>ReactorPool\<close> and \<open>TCPListener\<close>, from
  the same file, are modelled at the end of the definitions.
\<close>

section \<open>State\<close>

record handback =
  hb_fd :: int
  hb_keep_alive :: bool
  hb_response :: string

record rate_window =
  window_start :: int
  window_count :: u64

datatype accept_answer = AConn int u32 bool | AAgain | AIntr | AFail

record reactor =
  rx_listen :: int
  rx_running :: bool
  rx_idle_timeout :: int
  rx_max_connections :: nat
  rx_ip_rate :: u64
  rx_conns :: "(int \<times> conn) list"
  rx_jobs :: "(int \<times> string) list"
  rx_outbox :: "handback ring"
  rx_interest :: "int \<Rightarrow> event_mask option"
  rx_open :: "int list"
  rx_blacklist :: bloom
  rx_windows :: "u32 \<Rightarrow> rate_window option"
  rx_last_ip_decay :: int
  rx_now :: int
  rx_reads :: "read_answer list"
  rx_writes :: "write_answer list"
  rx_accepts :: "accept_answer list"
  rx_closed :: "(int \<times> conn) list"

definition seconds :: "int \<Rightarrow> int" where
  "seconds n = n * 1000000000"

definition conn_of :: "reactor \<Rightarrow> int \<Rightarrow> conn option" where
  "conn_of s fd = map_of (rx_conns s) fd"

definition put_conn :: "int \<Rightarrow> conn \<Rightarrow> reactor \<Rightarrow> reactor" where
  "put_conn fd c s = s\<lparr>rx_conns := map (\<lambda>p. if fst p = fd then (fd, c) else p) (rx_conns s)\<rparr>"

text \<open>\<open>flat_map::emplace\<close>, which keeps the entries in the order of their keys and an existing entry as it is.\<close>

definition emplace :: "int \<Rightarrow> conn \<Rightarrow> (int \<times> conn) list \<Rightarrow> (int \<times> conn) list" where
  "emplace fd c cs =
     (if fd \<in> fst ` set cs then cs
      else takeWhile (\<lambda>p. fst p < fd) cs @ (fd, c) # dropWhile (\<lambda>p. fst p < fd) cs)"

section \<open>Closing and writing\<close>

definition close_connection :: "int \<Rightarrow> reactor \<Rightarrow> reactor" where
  "close_connection fd s =
     (case conn_of s fd of
        None \<Rightarrow> s
      | Some c \<Rightarrow> s\<lparr>rx_interest := (rx_interest s)(fd := None), rx_open := removeAll fd (rx_open s), rx_conns := del_key fd (rx_conns s),
          rx_closed := rx_closed s @ [(fd, c)]\<rparr>)"

definition dispatch_to_worker :: "int \<Rightarrow> conn \<Rightarrow> reactor \<Rightarrow> reactor outcome" where
  "dispatch_to_worker fd c s =
     bind_outcome (carve_request c) (\<lambda>(request, c').
       Ret ((put_conn fd c' s)\<lparr>rx_jobs := rx_jobs s @ [(fd, request)]\<rparr>))"

definition check_buffered_request :: "int \<Rightarrow> conn \<Rightarrow> reactor \<Rightarrow> reactor outcome" where
  "check_buffered_request fd c s =
     (if c_dispatched c then Ret s
      else if length (c_buf c) < 4 then Ret s
      else case find_end (c_buf c) 0 of
             None \<Rightarrow> Ret s
           | Some i \<Rightarrow> dispatch_to_worker fd (c\<lparr>c_scan := i + 4\<rparr>) s)"

text \<open>\<open>finish_response\<close> with \<open>drain_into_buffer\<close>.\<close>

definition finish_response :: "int \<Rightarrow> conn \<Rightarrow> reactor \<Rightarrow> reactor outcome" where
  "finish_response fd c s =
     (if c_keep_alive_after_write c then
        let c1 = c\<lparr>c_last_active := rx_now s, c_dispatched := False\<rparr>;
            s1 = s\<lparr>rx_interest := (if rx_interest s fd = None then rx_interest s else (rx_interest s)(fd \<mapsto> Readable))\<rparr>
        in bind_outcome (drain_loop (rx_reads s1) c1) (\<lambda>(alive, c2, rs).
             let s2 = (put_conn fd c2 s1)\<lparr>rx_reads := rs\<rparr>
             in if \<not> alive then Ret (close_connection fd s2) else check_buffered_request fd c2 s2)
      else Ret (close_connection fd (put_conn fd c s)))"

definition continue_write :: "int \<Rightarrow> conn \<Rightarrow> reactor \<Rightarrow> reactor outcome" where
  "continue_write fd c s =
     bind_outcome
       (if c_write_off c < length (c_write_buf c) then
          bind_outcome (try_write (c_write_buf c) (c_write_off c) (rx_writes s)) (\<lambda>(wrote, sent, ws).
            let c1 = c\<lparr>c_out := c_out c @ sent\<rparr>; s1 = s\<lparr>rx_writes := ws\<rparr>
            in case wrote of
                 None \<Rightarrow> Ret (None, put_conn fd (c1\<lparr>c_writing := False\<rparr>) s1)
               | Some n \<Rightarrow> Ret (Some (c1\<lparr>c_last_active := rx_now s, c_write_off := n\<rparr>), s1))
        else Ret (Some c, s))
       (\<lambda>(r, s1). case r of
          None \<Rightarrow> Ret (close_connection fd s1)
        | Some c1 \<Rightarrow>
            if c_write_off c1 \<ge> length (c_write_buf c1) then
              finish_response fd (c1\<lparr>c_writing := False, c_write_buf := [], c_write_off := 0\<rparr>) s1
            else
              Ret ((put_conn fd (c1\<lparr>c_writing := True\<rparr>) s1)
                \<lparr>rx_interest := (if rx_interest s1 fd = None then rx_interest s1 else (rx_interest s1)(fd \<mapsto> Writable))\<rparr>))"

definition begin_write :: "int \<Rightarrow> conn \<Rightarrow> string \<Rightarrow> bool \<Rightarrow> reactor \<Rightarrow> reactor outcome" where
  "begin_write fd c resp alive s =
     continue_write fd (c\<lparr>c_write_buf := resp, c_write_off := 0, c_keep_alive_after_write := alive\<rparr>) s"

section \<open>Events\<close>

definition on_client_event :: "int \<Rightarrow> event_mask \<Rightarrow> reactor \<Rightarrow> reactor outcome" where
  "on_client_event fd m s =
     (if has m Closed then Ret (close_connection fd s)
      else if has m Writable then
        (case conn_of s fd of
           Some c \<Rightarrow> if c_writing c then continue_write fd c s else Ret s
         | None \<Rightarrow> Ret s)
      else if \<not> has m Readable then Ret s
      else case conn_of s fd of
             None \<Rightarrow> Ret s
           | Some c \<Rightarrow>
               if c_dispatched c then Ret s
               else bind_outcome (read_loop (rx_now s) False (rx_reads s) c) (\<lambda>(how, c', rs).
                 let s' = (put_conn fd c' s)\<lparr>rx_reads := rs\<rparr>
                 in case how of
                      MustClose \<Rightarrow> Ret (close_connection fd s')
                    | Drained got_complete \<Rightarrow> if got_complete then dispatch_to_worker fd c' s' else Ret s'))"

text \<open>\<open>drain_outbox\<close>: what the loop does with one handback, and the loop.  A ring that is not broken has no more items than cells.\<close>

definition handle_handback :: "handback \<Rightarrow> reactor \<Rightarrow> reactor outcome" where
  "handle_handback hb s =
     (case conn_of s (hb_fd hb) of
        None \<Rightarrow> Ret s
      | Some c \<Rightarrow>
          if hb_response hb = [] \<and> \<not> hb_keep_alive hb then Ret (close_connection (hb_fd hb) s)
          else begin_write (hb_fd hb) c (hb_response hb) (hb_keep_alive hb) s)"

fun drain_rounds :: "nat \<Rightarrow> reactor \<Rightarrow> reactor outcome" where
  "drain_rounds 0 s = Spinning"
| "drain_rounds (Suc n) s =
     bind_outcome (ring_try_pop 2 (rx_outbox s)) (\<lambda>(got, outbox).
       case got of
         None \<Rightarrow> Ret (s\<lparr>rx_outbox := outbox\<rparr>)
       | Some hb \<Rightarrow> bind_outcome (handle_handback hb (s\<lparr>rx_outbox := outbox\<rparr>)) (drain_rounds n))"

definition drain_outbox :: "reactor \<Rightarrow> reactor outcome" where
  "drain_outbox s = drain_rounds (Suc (length (ring_cells (rx_outbox s)))) s"

text \<open>The task that \<open>dispatch_to_worker\<close> enqueues; a handler that throws is \<open>None\<close>.\<close>

definition worker_task :: "(string \<Rightarrow> (string \<times> bool) option) \<Rightarrow> int \<times> string \<Rightarrow> reactor \<Rightarrow> reactor outcome" where
  "worker_task handler job s =
     (let (fd, request) = job;
          hb = (case handler request of
                  Some (resp, alive) \<Rightarrow> \<lparr>hb_fd = fd, hb_keep_alive = alive, hb_response = resp\<rparr>
                | None \<Rightarrow> \<lparr>hb_fd = fd, hb_keep_alive = False, hb_response = []\<rparr>)
      in bind_outcome (ring_push 2 hb (rx_outbox s)) (\<lambda>(pushed, outbox).
           let s' = s\<lparr>rx_outbox := outbox\<rparr>
           in Ret (if pushed then s' else s'\<lparr>rx_open := removeAll fd (rx_open s')\<rparr>)))"

section \<open>Accepting\<close>

definition ip_rate_exceeded :: "u32 \<Rightarrow> int \<Rightarrow> reactor \<Rightarrow> bool \<times> reactor" where
  "ip_rate_exceeded ip now s =
     (let win = (case rx_windows s ip of None \<Rightarrow> \<lparr>window_start = 0, window_count = 0\<rparr> | Some w \<Rightarrow> w);
          win1 = (if now - window_start win \<ge> seconds 1 then \<lparr>window_start = now, window_count = 0\<rparr> else win);
          win2 = win1\<lparr>window_count := window_count win1 + 1\<rparr>
      in (window_count win2 > rx_ip_rate s, s\<lparr>rx_windows := (rx_windows s)(ip \<mapsto> win2)\<rparr>))"

text \<open>The gate on the source address: whether the new descriptor is turned away.\<close>

definition ip_gate :: "(u32 \<Rightarrow> u64) \<Rightarrow> u32 \<Rightarrow> reactor \<Rightarrow> bool \<times> reactor" where
  "ip_gate hash ip s =
     (if rx_ip_rate s \<noteq> 0 \<and> ip \<noteq> 0 then
        if bloom_contains hash ip (rx_blacklist s) then (True, s)
        else case ip_rate_exceeded ip (rx_now s) s of (exceeded, s1) \<Rightarrow>
               if exceeded then (True, s1\<lparr>rx_blacklist := bloom_add hash ip (rx_blacklist s1)\<rparr>) else (False, s1)
      else (False, s))"

text \<open>A descriptor that passed the gate; \<open>added\<close> is the result of the poller's \<open>add\<close>.\<close>

definition admit :: "int \<Rightarrow> u32 \<Rightarrow> bool \<Rightarrow> reactor \<Rightarrow> reactor" where
  "admit fd ip added s =
     (let s1 = s\<lparr>rx_conns := emplace fd (conn_new fd ip (rx_now s)) (rx_conns s)\<rparr>
      in if added then s1\<lparr>rx_interest := (rx_interest s1)(fd \<mapsto> Readable)\<rparr>
         else s1\<lparr>rx_open := removeAll fd (rx_open s1), rx_conns := del_key fd (rx_conns s1)\<rparr>)"

text \<open>The loop of \<open>accept_all\<close>, with the number of rounds left.\<close>

fun accept_loop :: "(u32 \<Rightarrow> u64) \<Rightarrow> nat \<Rightarrow> reactor \<Rightarrow> reactor outcome" where
  "accept_loop hash 0 s = Ret s"
| "accept_loop hash (Suc left) s =
     (if rx_max_connections s \<noteq> 0 \<and> length (rx_conns s) \<ge> rx_max_connections s then Ret s
      else case rx_accepts s of
             [] \<Rightarrow> Blocked
           | AAgain # as \<Rightarrow> Ret (s\<lparr>rx_accepts := as\<rparr>)
           | AIntr # as \<Rightarrow> accept_loop hash left (s\<lparr>rx_accepts := as\<rparr>)
           | AFail # as \<Rightarrow> Ret (s\<lparr>rx_accepts := as\<rparr>)
           | AConn fd ip added # as \<Rightarrow>
               (case ip_gate hash ip (s\<lparr>rx_accepts := as, rx_open := fd # rx_open s\<rparr>) of (rejected, s1) \<Rightarrow>
                  if rejected then accept_loop hash left (s1\<lparr>rx_open := removeAll fd (rx_open s1)\<rparr>)
                  else accept_loop hash left (admit fd ip added s1)))"

definition accept_all :: "(u32 \<Rightarrow> u64) \<Rightarrow> reactor \<Rightarrow> reactor outcome" where
  "accept_all hash s = accept_loop hash 128 s"

section \<open>Housekeeping and the loop\<close>

definition sweep_idle_connections :: "reactor \<Rightarrow> reactor" where
  "sweep_idle_connections s =
     (if rx_idle_timeout s = 0 then s
      else
        let to_close = map fst (filter (\<lambda>p. rx_now s - c_last_active (snd p) > rx_idle_timeout s) (rx_conns s))
        in fold close_connection to_close s)"

definition sweep_ip_rate :: "reactor \<Rightarrow> reactor" where
  "sweep_ip_rate s =
     (if rx_ip_rate s = 0 then s
      else if rx_now s - rx_last_ip_decay s < seconds 10 then s
      else s\<lparr>rx_last_ip_decay := rx_now s, rx_blacklist := bloom_decay 1 (rx_blacklist s),
             rx_windows := (\<lambda>ip. case rx_windows s ip of
               Some w \<Rightarrow> if rx_now s - window_start w > seconds 2 then None else Some w
             | None \<Rightarrow> None)\<rparr>)"

fun handle_events :: "(u32 \<Rightarrow> u64) \<Rightarrow> (int \<times> event_mask) list \<Rightarrow> reactor \<Rightarrow> reactor outcome" where
  "handle_events hash [] s = Ret s"
| "handle_events hash ((fd, m) # evs) s =
     bind_outcome (if fd = rx_listen s then accept_all hash s else on_client_event fd m s) (handle_events hash evs)"

text \<open>One round of \<open>loop\<close>, with the events that \<open>wait\<close> gave (\<open>None\<close>: it failed).\<close>

definition loop_round :: "(u32 \<Rightarrow> u64) \<Rightarrow> (int \<times> event_mask) list option \<Rightarrow> reactor \<Rightarrow> reactor outcome" where
  "loop_round hash answer s =
     (case answer of
        None \<Rightarrow> Ret s
      | Some evs \<Rightarrow>
          bind_outcome (handle_events hash evs s) (\<lambda>s1.
          bind_outcome (drain_outbox s1) (\<lambda>s2.
          Ret (sweep_ip_rate (sweep_idle_connections s2)))))"

text \<open>
  The constructor, \<open>start\<close> (with the results of \<open>make_poller\<close> and \<open>add\<close>) and \<open>stop\<close>, once the loop has been joined.  The
  outbox is a \<open>BoundedQueue\<close>, whose constructor turns a capacity of 0 into 1 and, for this policy, makes a ring.
\<close>

definition outbox_new :: "u64 \<Rightarrow> handback ring outcome" where
  "outbox_new capacity = ring_new 64 (if capacity = 0 then 1 else capacity) DropNew"

definition reactor_new :: "int \<Rightarrow> u64 \<Rightarrow> int \<Rightarrow> nat \<Rightarrow> u64 \<Rightarrow> bloom \<Rightarrow> reactor outcome" where
  "reactor_new listen_fd outbox_capacity idle_timeout max_connections ip_rate blacklist =
     bind_outcome (outbox_new outbox_capacity) (\<lambda>outbox. Ret
       \<lparr>rx_listen = listen_fd, rx_running = False, rx_idle_timeout = idle_timeout, rx_max_connections = max_connections,
        rx_ip_rate = ip_rate, rx_conns = [], rx_jobs = [], rx_outbox = outbox,
        rx_interest = Map.empty, rx_open = [], rx_blacklist = blacklist, rx_windows = Map.empty,
        rx_last_ip_decay = 0, rx_now = 0, rx_reads = [], rx_writes = [], rx_accepts = [], rx_closed = []\<rparr>)"

definition reactor_start :: "bool \<Rightarrow> reactor \<Rightarrow> reactor" where
  "reactor_start added s =
     (if rx_running s then s
      else if \<not> added then s
      else s\<lparr>rx_running := True, rx_interest := (rx_interest s)(rx_listen s \<mapsto> Readable)\<rparr>)"

definition reactor_stop :: "reactor \<Rightarrow> reactor outcome" where
  "reactor_stop s =
     (if \<not> rx_running s then Ret s
      else bind_outcome (ring_stop (rx_outbox s)) (\<lambda>outbox.
        Ret (s\<lparr>rx_running := False, rx_outbox := outbox,
               rx_open := filter (\<lambda>fd. fd \<notin> fst ` set (rx_conns s)) (rx_open s), rx_conns := [], rx_interest := Map.empty,
               rx_closed := rx_closed s @ rx_conns s\<rparr>)))"

section \<open>Shards and the listening socket\<close>

record reactor_pool =
  rp_workers_per_shard :: u32
  rp_shards :: "reactor list"
  rp_started :: bool

definition reactor_pool_new :: "int \<Rightarrow> u32 \<Rightarrow> u32 \<Rightarrow> u64 \<Rightarrow> int \<Rightarrow> nat \<Rightarrow> u64 \<Rightarrow> bloom \<Rightarrow> reactor_pool outcome" where
  "reactor_pool_new listen_fd shard_count workers_per_shard outbox_capacity idle_timeout max_connections ip_rate blacklist =
     (let workers = (if workers_per_shard = 0 then 1 else workers_per_shard);
          shards = (if shard_count = 0 then 1 else shard_count)
      in bind_outcome (reactor_new listen_fd outbox_capacity idle_timeout max_connections ip_rate blacklist) (\<lambda>r. Ret
           \<lparr>rp_workers_per_shard = workers, rp_shards = replicate (unat shards) r, rp_started = False\<rparr>))"

text \<open>\<open>added\<close>: whether the poller of the i-th shard took the listening descriptor.\<close>

definition reactor_pool_start :: "(nat \<Rightarrow> bool) \<Rightarrow> reactor_pool \<Rightarrow> reactor_pool" where
  "reactor_pool_start added p =
     (if rp_started p then p else p\<lparr>rp_started := True, rp_shards := map (\<lambda>(i, r). reactor_start (added i) r) (enumerate 0 (rp_shards p))\<rparr>)"

fun stop_shards :: "reactor list \<Rightarrow> reactor list outcome" where
  "stop_shards [] = Ret []"
| "stop_shards (r # rs) = bind_outcome (reactor_stop r) (\<lambda>r'. bind_outcome (stop_shards rs) (\<lambda>rs'. Ret (r' # rs')))"

definition reactor_pool_stop :: "reactor_pool \<Rightarrow> reactor_pool outcome" where
  "reactor_pool_stop p =
     (if \<not> rp_started p then Ret p
      else bind_outcome (stop_shards (rev (rp_shards p))) (\<lambda>rs. Ret (p\<lparr>rp_started := False, rp_shards := rev rs\<rparr>)))"

definition shard_count :: "reactor_pool \<Rightarrow> nat" where
  "shard_count p = length (rp_shards p)"

datatype listen_error = SocketFailed | BindFailed | ListenFailed

text \<open>\<open>TCPListener\<close>: its descriptor (-1: none), and the descriptors it has open.\<close>

record tcp_listener =
  tl_fd :: int
  tl_open :: "int list"

definition listener_new :: tcp_listener where
  "listener_new = \<lparr>tl_fd = -1, tl_open = []\<rparr>"

text \<open>\<open>get_listener\<close>, from what \<open>socket\<close> (\<open>None\<close>: -1), \<open>bind\<close> and \<open>listen\<close> give.\<close>

definition get_listener :: "int option \<Rightarrow> bool \<Rightarrow> bool \<Rightarrow> tcp_listener \<Rightarrow> (listen_error + int) \<times> tcp_listener" where
  "get_listener sock bound listening t =
     (if tl_fd t \<noteq> -1 then (Inr (tl_fd t), t)
      else case sock of
             None \<Rightarrow> (Inl SocketFailed, t\<lparr>tl_fd := -1\<rparr>)
           | Some fd \<Rightarrow>
               let t1 = t\<lparr>tl_fd := fd, tl_open := fd # tl_open t\<rparr>;
                   closed_again = t1\<lparr>tl_fd := -1, tl_open := removeAll fd (tl_open t1)\<rparr>
               in if \<not> bound then (Inl BindFailed, closed_again)
                  else if \<not> listening then (Inl ListenFailed, closed_again)
                  else (Inr fd, t1))"

definition listener_destroy :: "tcp_listener \<Rightarrow> tcp_listener" where
  "listener_destroy t = (if tl_fd t \<noteq> -1 then t\<lparr>tl_open := removeAll (tl_fd t) (tl_open t)\<rparr> else t)"

section \<open>Steps\<close>

text \<open>
  The system: the reactor thread handles an event, drains the outbox or sweeps, a worker runs a task, and between the
  handlers the environment moves the clock and decides what the kernel will answer.  A descriptor that \<open>accept\<close> returns
  is not open already, and is not the listening one.
\<close>

fun fresh_accepts :: "int list \<Rightarrow> accept_answer list \<Rightarrow> bool" where
  "fresh_accepts used [] = True"
| "fresh_accepts used (AConn fd ip added # as) = (fd \<notin> set used \<and> fresh_accepts (fd # used) as)"
| "fresh_accepts used (a # as) = fresh_accepts used as"

inductive reactor_step :: "(u32 \<Rightarrow> u64) \<Rightarrow> (string \<Rightarrow> (string \<times> bool) option) \<Rightarrow> reactor \<Rightarrow> reactor \<Rightarrow> bool" for hash handler where
  kernel: "rx_now s \<le> now \<Longrightarrow> fresh_accepts (rx_listen s # rx_open s) as \<Longrightarrow>
     reactor_step hash handler s (s\<lparr>rx_now := now, rx_reads := rs, rx_writes := ws, rx_accepts := as\<rparr>)"
| client: "fd \<noteq> rx_listen s \<Longrightarrow> on_client_event fd m s = Ret s' \<Longrightarrow> reactor_step hash handler s s'"
| accept: "accept_all hash s = Ret s' \<Longrightarrow> reactor_step hash handler s s'"
| outbox: "drain_outbox s = Ret s' \<Longrightarrow> reactor_step hash handler s s'"
| sweep: "reactor_step hash handler s (sweep_ip_rate (sweep_idle_connections s))"
| work: "job \<in> set (rx_jobs s) \<Longrightarrow> worker_task handler job (s\<lparr>rx_jobs := remove1 job (rx_jobs s)\<rparr>) = Ret s' \<Longrightarrow>
     reactor_step hash handler s s'"

inductive reactor_reach :: "(u32 \<Rightarrow> u64) \<Rightarrow> (string \<Rightarrow> (string \<times> bool) option) \<Rightarrow> reactor \<Rightarrow> reactor \<Rightarrow> bool" for hash handler s0 where
  start: "reactor_reach hash handler s0 s0"
| step: "reactor_reach hash handler s0 s \<Longrightarrow> reactor_step hash handler s s' \<Longrightarrow> reactor_reach hash handler s0 s'"

section \<open>Invariant\<close>

text \<open>
  A well-formed connection: every byte that was read is in a request handed to a worker or still in the buffer, in order;
  the buffer is bounded, and the scan and write positions lie inside their buffers.
\<close>

definition conn_ok :: "int \<Rightarrow> conn \<Rightarrow> bool" where
  [muses_inv]: "conn_ok fd c \<longleftrightarrow> c_fd c = fd \<and> concat (c_requests c) @ c_buf c = c_in c \<and>
     length (c_buf c) \<le> Connection_max_request \<and> c_scan c \<le> length (c_buf c) \<and> c_write_off c \<le> length (c_write_buf c)"

definition conns_ok :: "(int \<times> conn) list \<Rightarrow> bool" where
  [muses_inv]: "conns_ok cs \<longleftrightarrow> sorted_wrt (<) (map fst cs) \<and> (\<forall>(fd, c) \<in> set cs. conn_ok fd c)"

definition reactor_inv :: "reactor \<Rightarrow> bool" where
  [muses_inv]: "reactor_inv s \<longleftrightarrow> conns_ok (rx_conns s) \<and>
     (rx_max_connections s \<noteq> 0 \<longrightarrow> length (rx_conns s) \<le> rx_max_connections s) \<and>
     drop_ring_inv (rx_outbox s)"

text \<open>What no handler changes, and what the loop and the workers keep.\<close>

definition same_limits :: "reactor \<Rightarrow> reactor \<Rightarrow> bool" where
  "same_limits s s' \<longleftrightarrow> rx_max_connections s' = rx_max_connections s \<and> rx_outbox s' = rx_outbox s \<and>
     rx_listen s' = rx_listen s"

definition same_config :: "reactor \<Rightarrow> reactor \<Rightarrow> bool" where
  "same_config s s' \<longleftrightarrow> rx_max_connections s' = rx_max_connections s \<and> ncells (rx_outbox s') = ncells (rx_outbox s) \<and>
     rx_listen s' = rx_listen s"

lemma conns_ok_distinct: "conns_ok cs \<Longrightarrow> distinct (map fst cs)"
  by (simp add: conns_ok_def strict_sorted_iff)

lemma conn_of_ok: "conns_ok (rx_conns s) \<Longrightarrow> conn_of s fd = Some c \<Longrightarrow> conn_ok fd c"
  by (auto simp: conns_ok_def conn_of_def dest: map_of_SomeD)

lemma conns_ok_del: "conns_ok cs \<Longrightarrow> conns_ok (del_key fd cs)"
  by (auto simp: conns_ok_def del_key_def sorted_wrt_map intro: sorted_wrt_filter)

lemma conns_ok_put:
  assumes "conns_ok cs" "conn_ok fd c"
  shows "conns_ok (map (\<lambda>p. if fst p = fd then (fd, c) else p) cs)"
proof -
  have "map fst (map (\<lambda>p. if fst p = fd then (fd, c) else p) cs) = map fst cs" by (induction cs) auto
  with assms show ?thesis unfolding conns_ok_def by (simp only:) auto
qed

lemma conns_ok_emplace:
  assumes "conns_ok cs" "conn_ok fd c"
  shows "conns_ok (emplace fd c cs)"
proof (cases "fd \<in> fst ` set cs")
  case False
  have "sorted_wrt (<) (map fst (takeWhile (\<lambda>p. fst p < fd) cs @ (fd, c) # dropWhile (\<lambda>p. fst p < fd) cs))"
    using assms(1) False unfolding conns_ok_def
  proof (induction cs)
    case (Cons p cs)
    then show ?case by (auto dest: set_takeWhileD set_dropWhileD)
  qed simp
  then show ?thesis using assms False
    by (auto simp: conns_ok_def emplace_def dest: set_takeWhileD set_dropWhileD)
qed (use assms in \<open>simp add: emplace_def\<close>)

lemma length_emplace: "length (emplace fd c cs) \<le> Suc (length cs)"
proof -
  have "length (takeWhile P cs) + length (dropWhile P cs) = length cs" for P :: "int \<times> conn \<Rightarrow> bool"
    by (metis length_append takeWhile_dropWhile_id)
  then show ?thesis by (simp add: emplace_def)
qed

lemma reactor_inv_upd [simp]:
  "reactor_inv (s\<lparr>rx_reads := rs\<rparr>) = reactor_inv s" "reactor_inv (s\<lparr>rx_writes := ws\<rparr>) = reactor_inv s"
  "reactor_inv (s\<lparr>rx_accepts := as\<rparr>) = reactor_inv s" "reactor_inv (s\<lparr>rx_jobs := js\<rparr>) = reactor_inv s"
  "reactor_inv (s\<lparr>rx_interest := f\<rparr>) = reactor_inv s" "reactor_inv (s\<lparr>rx_open := fds\<rparr>) = reactor_inv s"
  "reactor_inv (s\<lparr>rx_windows := w\<rparr>) = reactor_inv s" "reactor_inv (s\<lparr>rx_blacklist := b\<rparr>) = reactor_inv s"
  "reactor_inv (s\<lparr>rx_last_ip_decay := t\<rparr>) = reactor_inv s" "reactor_inv (s\<lparr>rx_now := t\<rparr>) = reactor_inv s"
  by (simp_all add: reactor_inv_def)

lemma same_limits_upd [simp]:
  "same_limits s (s'\<lparr>rx_reads := rs\<rparr>) = same_limits s s'" "same_limits s (s'\<lparr>rx_writes := ws\<rparr>) = same_limits s s'"
  "same_limits s (s'\<lparr>rx_accepts := as\<rparr>) = same_limits s s'" "same_limits s (s'\<lparr>rx_jobs := js\<rparr>) = same_limits s s'"
  "same_limits s (s'\<lparr>rx_interest := f\<rparr>) = same_limits s s'" "same_limits s (s'\<lparr>rx_open := fds\<rparr>) = same_limits s s'"
  "same_limits s (s'\<lparr>rx_windows := w\<rparr>) = same_limits s s'" "same_limits s (s'\<lparr>rx_blacklist := b\<rparr>) = same_limits s s'"
  "same_limits s (s'\<lparr>rx_last_ip_decay := t\<rparr>) = same_limits s s'" "same_limits s (s'\<lparr>rx_now := t\<rparr>) = same_limits s s'"
  "same_limits s (s'\<lparr>rx_conns := cs\<rparr>) = same_limits s s'"
  "same_limits s (put_conn fd c s') = same_limits s s'" "same_limits s (close_connection fd s') = same_limits s s'"
  "same_limits s s"
  by (simp_all add: same_limits_def put_conn_def close_connection_def split: option.split)

lemma same_limits_trans: "same_limits s s1 \<Longrightarrow> same_limits s1 s2 \<Longrightarrow> same_limits s s2"
  by (simp add: same_limits_def)

lemma reactor_inv_close: "reactor_inv s \<Longrightarrow> reactor_inv (close_connection fd s)"
  using conns_ok_del [of "rx_conns s" fd] length_del_key_le [of fd "rx_conns s"]
  by (auto simp: reactor_inv_def close_connection_def split: option.split)

lemma reactor_inv_put: "reactor_inv s \<Longrightarrow> conn_ok fd c \<Longrightarrow> reactor_inv (put_conn fd c s)"
  using conns_ok_put [of "rx_conns s" fd c] by (simp add: reactor_inv_def put_conn_def)

lemma conn_of_put: "conn_of (put_conn fd c s) fd = map_option (\<lambda>_. c) (conn_of s fd)"
proof -
  have "map_of (map (\<lambda>p. if fst p = fd then (fd, c) else p) cs) fd = map_option (\<lambda>_. c) (map_of cs fd)" for cs
    by (induction cs) auto
  then show ?thesis by (simp add: conn_of_def put_conn_def)
qed

text \<open>Closing a connection removes it, well-formed or not.\<close>

lemma conns_close: "rx_conns (close_connection fd s) = del_key fd (rx_conns s)"
proof (cases "conn_of s fd")
  case None
  then have "fd \<notin> fst ` set (rx_conns s)" by (simp add: conn_of_def map_of_eq_None_iff)
  then show ?thesis using None by (simp add: close_connection_def)
qed (simp add: close_connection_def)

lemma del_put: "del_key fd (rx_conns (put_conn fd c s)) = del_key fd (rx_conns s)"
proof -
  have "del_key fd (map (\<lambda>p. if fst p = fd then (fd, c) else p) cs) = del_key fd cs" for cs
    by (induction cs) auto
  then show ?thesis by (simp add: put_conn_def)
qed

lemma inv_close_put:
  assumes "reactor_inv s"
  shows "reactor_inv (close_connection fd (put_conn fd c s))"
proof -
  have "rx_conns (close_connection fd (put_conn fd c s)) = rx_conns (close_connection fd s)"
    by (simp add: conns_close del_put)
  moreover have "rx_outbox (close_connection fd (put_conn fd c s)) = rx_outbox (close_connection fd s)"
    "rx_max_connections (close_connection fd (put_conn fd c s)) = rx_max_connections (close_connection fd s)"
    by (simp_all add: close_connection_def put_conn_def split: option.split)
  ultimately show ?thesis using reactor_inv_close [OF assms, of fd] by (simp add: reactor_inv_def)
qed

lemma close_connection_reads: "close_connection fd (s\<lparr>rx_reads := rs\<rparr>) = (close_connection fd s)\<lparr>rx_reads := rs\<rparr>"
  by (simp add: close_connection_def conn_of_def split: option.split)

section \<open>Handlers keep the invariant\<close>

text \<open>The result, if there is one, satisfies the predicate, and the call is neither undefined nor without end.\<close>

definition safely :: "('r \<Rightarrow> bool) \<Rightarrow> 'r outcome \<Rightarrow> bool" where
  "safely P x = (case x of Ret r \<Rightarrow> P r | Blocked \<Rightarrow> True | _ \<Rightarrow> False)"

lemma safely_simps [simp]: "safely P (Ret r) = P r" "safely P Blocked" "\<not> safely P Spinning" "\<not> safely P Undefined"
  by (simp_all add: safely_def)

lemma safely_bind:
  assumes "safely Q x" "\<And>y. Q y \<Longrightarrow> safely P (f y)"
  shows "safely P (bind_outcome x f)"
  using assms by (cases x) auto

lemma safely_mono: "safely Q x \<Longrightarrow> (\<And>y. Q y \<Longrightarrow> P y) \<Longrightarrow> safely P x"
  by (cases x) auto

lemma take_bytes_ok:
  assumes "conn_ok fd c" "take_bytes now bs c = Some (found, c')"
  shows "conn_ok fd c'"
proof -
  have hit: "h + 4 \<le> length t" if "find_end t k = Some h" for t k h
    using that by (simp add: find_end_Some complete_at_def)
  have len: "length (c_buf c @ bs) \<le> Connection_max_request"
    using assms(2) by (auto simp: take_bytes_def Let_def split: if_splits)
  let ?c = "c\<lparr>c_last_active := now, c_buf := c_buf c @ bs, c_in := c_in c @ bs\<rparr>"
  let ?k = "if tail_pos (length (c_buf c)) < c_scan c then c_scan c else tail_pos (length (c_buf c))"
  have eq: "(case find_end (c_buf c @ bs) ?k of
      Some h \<Rightarrow> Some (True, ?c\<lparr>c_scan := h + 4\<rparr>)
    | None \<Rightarrow> Some (False, ?c\<lparr>c_scan := tail_pos (length (c_buf c @ bs))\<rparr>)) = Some (found, c')"
    using assms(2) len by (simp add: take_bytes_def Let_def cong: option.case_cong if_cong)
  have "\<exists>k \<le> length (c_buf c @ bs). c' = ?c\<lparr>c_scan := k\<rparr>"
  proof (cases "find_end (c_buf c @ bs) ?k")
    case None
    with eq show ?thesis
      by (intro exI [of _ "tail_pos (length (c_buf c @ bs))"]) (auto simp: tail_pos_def)
  next
    case (Some h)
    with eq hit [OF Some] show ?thesis by (intro exI [of _ "h + 4"]) auto
  qed
  then show ?thesis using assms(1) len by (auto simp: conn_ok_def)
qed

lemma read_loop_ok:
  "conn_ok fd c \<Longrightarrow> safely (\<lambda>(how, c', rs'). how \<noteq> MustClose \<longrightarrow> conn_ok fd c') (read_loop now got rs c)"
proof (induction now got rs c rule: read_loop.induct)
  case (2 now got bs room rs c)
  then show ?case using take_bytes_ok [OF "2.prems", of now bs] by (auto split: option.split)
qed auto

lemma drain_loop_ok:
  "conn_ok fd c \<Longrightarrow> safely (\<lambda>(alive, c', rs'). alive \<longrightarrow> conn_ok fd c') (drain_loop rs c)"
proof (induction rs c rule: drain_loop.induct)
  case (2 bs room rs c)
  have "conn_ok fd (c\<lparr>c_buf := c_buf c @ bs, c_in := c_in c @ bs\<rparr>)" if "length (c_buf c @ bs) \<le> Connection_max_request"
    using "2.prems" that by (auto simp: conn_ok_def)
  with 2 show ?case by (auto simp: Let_def not_le)
qed auto

lemma try_write_ok: "tot \<le> length data \<Longrightarrow> safely (\<lambda>(r, sent, ws'). \<forall>n. r = Some n \<longrightarrow> n \<le> length data) (try_write data tot ws)"
proof (induction data tot ws rule: try_write.induct)
  case (2 data tot w ws)
  show ?case
  proof (cases w)
    case (WBytes k)
    let ?n = "min k (length data - tot)"
    have "safely (\<lambda>(r, sent, ws'). \<forall>n. r = Some n \<longrightarrow> n \<le> length data) (try_write data (tot + ?n) ws)"
      if "tot < length data" "0 < ?n"
      by (rule "2.IH"(1) [OF that(1) WBytes refl that(2)]) (use that in simp)
    then show ?thesis using WBytes "2.prems" by (auto simp: Let_def intro!: safely_bind)
  qed (use 2 in auto)
qed auto

lemma carve_ok: "conn_ok fd c \<Longrightarrow> safely (\<lambda>(request, c'). conn_ok fd c') (carve_request c)"
  by (auto simp: conn_ok_def carve_request_def Let_def)

definition keeps :: "reactor \<Rightarrow> reactor \<Rightarrow> bool" where
  "keeps s s' \<longleftrightarrow> reactor_inv s' \<and> same_limits s s'"

lemma dispatch_ok: "reactor_inv s \<Longrightarrow> conn_ok fd c \<Longrightarrow> safely (keeps s) (dispatch_to_worker fd c s)"
  unfolding dispatch_to_worker_def
  by (rule safely_bind [OF carve_ok]) (auto simp: keeps_def intro!: reactor_inv_put)

lemma check_buffered_ok:
  assumes "reactor_inv s" "conn_ok fd c"
  shows "safely (keeps s) (check_buffered_request fd c s)"
proof -
  have "conn_ok fd (c\<lparr>c_scan := i + 4\<rparr>)" if "find_end (c_buf c) 0 = Some i" for i
    using assms(2) that by (simp add: conn_ok_def find_end_Some complete_at_def)
  then show ?thesis using assms dispatch_ok
    by (auto simp: check_buffered_request_def keeps_def split: option.split)
qed

lemma keeps_close: "reactor_inv s1 \<Longrightarrow> same_limits s s1 \<Longrightarrow> keeps s (close_connection fd s1)"
  by (simp add: keeps_def reactor_inv_close)

lemma keeps_trans: "keeps s s1 \<Longrightarrow> keeps s1 s2 \<Longrightarrow> keeps s s2"
  by (simp add: keeps_def same_limits_def)

lemma keeps_from: "same_limits s s1 \<Longrightarrow> keeps s1 s2 \<Longrightarrow> keeps s s2"
  by (simp add: keeps_def same_limits_def)

lemma finish_response_ok:
  assumes inv: "reactor_inv s" and c: "conn_ok fd c"
  shows "safely (keeps s) (finish_response fd c s)"
proof (cases "c_keep_alive_after_write c")
  case True
  let ?c1 = "c\<lparr>c_last_active := rx_now s, c_dispatched := False\<rparr>"
  let ?s1 = "s\<lparr>rx_interest := (if rx_interest s fd = None then rx_interest s else (rx_interest s)(fd \<mapsto> Readable))\<rparr>"
  have "conn_ok fd ?c1" using c by (simp add: conn_ok_def)
  from drain_loop_ok [OF this, of "rx_reads ?s1"] have "safely (keeps s) (bind_outcome (drain_loop (rx_reads ?s1) ?c1) (\<lambda>(alive, c2, rs).
      let s2 = (put_conn fd c2 ?s1)\<lparr>rx_reads := rs\<rparr>
      in if \<not> alive then Ret (close_connection fd s2) else check_buffered_request fd c2 s2))"
  proof (rule safely_bind)
    fix y :: "bool \<times> conn \<times> read_answer list"
    assume y: "case y of (alive, c', rs') \<Rightarrow> alive \<longrightarrow> conn_ok fd c'"
    obtain alive c2 rs where [simp]: "y = (alive, c2, rs)" by (cases y)
    let ?s2 = "(put_conn fd c2 ?s1)\<lparr>rx_reads := rs\<rparr>"
    have "keeps s (close_connection fd ?s2)"
      using inv by (simp add: close_connection_reads keeps_def inv_close_put)
    moreover have "safely (keeps s) (check_buffered_request fd c2 ?s2)" if "alive"
    proof -
      have "conn_ok fd c2" "reactor_inv ?s2" using y that inv by (auto intro: reactor_inv_put)
      then have "safely (keeps ?s2) (check_buffered_request fd c2 ?s2)" by (intro check_buffered_ok)
      then show ?thesis by (rule safely_mono) (rule keeps_from, simp_all)
    qed
    ultimately show "safely (keeps s) (case y of (alive, c2, rs) \<Rightarrow> let s2 = (put_conn fd c2 ?s1)\<lparr>rx_reads := rs\<rparr>
      in if \<not> alive then Ret (close_connection fd s2) else check_buffered_request fd c2 s2)" by (simp add: Let_def)
  qed
  then show ?thesis unfolding finish_response_def using True by (simp add: Let_def)
next
  case False
  then show ?thesis using inv by (simp add: finish_response_def keeps_def inv_close_put)
qed

lemma continue_write_ok:
  assumes inv: "reactor_inv s" and c: "conn_ok fd c"
  shows "safely (keeps s) (continue_write fd c s)"
proof -
  let ?Q = "\<lambda>(r, s1). same_limits s s1 \<and> (case r of None \<Rightarrow> reactor_inv (close_connection fd s1)
    | Some c1 \<Rightarrow> reactor_inv s1 \<and> conn_ok fd c1)"
  let ?first = "if c_write_off c < length (c_write_buf c) then
      bind_outcome (try_write (c_write_buf c) (c_write_off c) (rx_writes s)) (\<lambda>(wrote, sent, ws).
        let c1 = c\<lparr>c_out := c_out c @ sent\<rparr>; s1 = s\<lparr>rx_writes := ws\<rparr>
        in case wrote of
             None \<Rightarrow> Ret (None, put_conn fd (c1\<lparr>c_writing := False\<rparr>) s1)
           | Some n \<Rightarrow> Ret (Some (c1\<lparr>c_last_active := rx_now s, c_write_off := n\<rparr>), s1))
    else Ret (Some c, s)"
  have first: "safely ?Q ?first"
  proof (cases "c_write_off c < length (c_write_buf c)")
    case True
    from try_write_ok [of "c_write_off c" "c_write_buf c" "rx_writes s"] True
    show ?thesis
      using inv c True
      by (auto simp: Let_def inv_close_put conn_ok_def split: option.split intro!: safely_bind)
  qed (use inv c in simp)
  have "safely (keeps s) (case y of (r, s1) \<Rightarrow> case r of
          None \<Rightarrow> Ret (close_connection fd s1)
        | Some c1 \<Rightarrow>
            if c_write_off c1 \<ge> length (c_write_buf c1) then
              finish_response fd (c1\<lparr>c_writing := False, c_write_buf := [], c_write_off := 0\<rparr>) s1
            else
              Ret ((put_conn fd (c1\<lparr>c_writing := True\<rparr>) s1)
                \<lparr>rx_interest := (if rx_interest s1 fd = None then rx_interest s1 else (rx_interest s1)(fd \<mapsto> Writable))\<rparr>))"
    if "?Q y" for y :: "conn option \<times> reactor"
  proof -
    obtain r s1 where y: "y = (r, s1)" by (cases y)
    show ?thesis
    proof (cases r)
      case None
      then show ?thesis using that y by (simp add: keeps_def)
    next
      case (Some c1)
      then have s1: "same_limits s s1" "reactor_inv s1" "conn_ok fd c1" using that y by auto
      have "conn_ok fd (c1\<lparr>c_writing := False, c_write_buf := [], c_write_off := 0\<rparr>)" using s1(3) by (simp add: conn_ok_def)
      from finish_response_ok [OF s1(2) this] have
        "safely (keeps s) (finish_response fd (c1\<lparr>c_writing := False, c_write_buf := [], c_write_off := 0\<rparr>) s1)"
        by (rule safely_mono) (rule keeps_from [OF s1(1)])
      moreover have "reactor_inv (put_conn fd (c1\<lparr>c_writing := True\<rparr>) s1)"
        using s1(2,3) by (intro reactor_inv_put) (simp_all add: conn_ok_def)
      ultimately show ?thesis using y Some s1(1) by (simp add: keeps_def)
    qed
  qed
  with first show ?thesis unfolding continue_write_def by (rule safely_bind)
qed

lemma begin_write_ok: "reactor_inv s \<Longrightarrow> conn_ok fd c \<Longrightarrow> safely (keeps s) (begin_write fd c resp alive s)"
  unfolding begin_write_def by (rule continue_write_ok) (simp_all add: conn_ok_def)

lemma on_client_event_ok:
  assumes inv: "reactor_inv s"
  shows "safely (keeps s) (on_client_event fd m s)"
proof -
  have ok: "conn_ok fd c" if "conn_of s fd = Some c" for c
    using conn_of_ok that inv by (auto simp: reactor_inv_def)
  have rd: "safely (keeps s) (bind_outcome (read_loop (rx_now s) False (rx_reads s) c) (\<lambda>(how, c', rs).
      let s' = (put_conn fd c' s)\<lparr>rx_reads := rs\<rparr>
      in case how of
           MustClose \<Rightarrow> Ret (close_connection fd s')
         | Drained got_complete \<Rightarrow> if got_complete then dispatch_to_worker fd c' s' else Ret s'))" if c: "conn_ok fd c" for c
    using read_loop_ok [OF c, of "rx_now s" False "rx_reads s"]
  proof (rule safely_bind)
    fix y :: "read_end \<times> conn \<times> read_answer list"
    assume y: "case y of (how, c', rs') \<Rightarrow> how \<noteq> MustClose \<longrightarrow> conn_ok fd c'"
    obtain how c' rs where [simp]: "y = (how, c', rs)" by (cases y)
    let ?s = "(put_conn fd c' s)\<lparr>rx_reads := rs\<rparr>"
    have "keeps s (close_connection fd ?s)"
      using inv by (simp add: close_connection_reads keeps_def inv_close_put)
    moreover have "reactor_inv ?s" "safely (keeps s) (dispatch_to_worker fd c' ?s)" if "how \<noteq> MustClose"
    proof -
      show i: "reactor_inv ?s" using y that inv by (auto intro: reactor_inv_put)
      from dispatch_ok [OF i, of fd c'] y that have "safely (keeps ?s) (dispatch_to_worker fd c' ?s)" by simp
      then show "safely (keeps s) (dispatch_to_worker fd c' ?s)" by (rule safely_mono) (rule keeps_from, simp_all)
    qed
    ultimately show "safely (keeps s) (case y of (how, c', rs) \<Rightarrow> let s' = (put_conn fd c' s)\<lparr>rx_reads := rs\<rparr>
      in case how of
           MustClose \<Rightarrow> Ret (close_connection fd s')
         | Drained got_complete \<Rightarrow> if got_complete then dispatch_to_worker fd c' s' else Ret s')"
      by (auto simp: Let_def keeps_def split: read_end.split)
  qed
  show ?thesis
    unfolding on_client_event_def
    using inv ok rd continue_write_ok [OF inv] by (auto simp: keeps_def reactor_inv_close split: option.split)
qed

lemma handle_handback_ok:
  assumes "reactor_inv s"
  shows "safely (keeps s) (handle_handback hb s)"
proof (cases "conn_of s (hb_fd hb)")
  case (Some c)
  then have "conn_ok (hb_fd hb) c" using conn_of_ok assms by (auto simp: reactor_inv_def)
  then show ?thesis using Some assms begin_write_ok by (simp add: handle_handback_def keeps_def reactor_inv_close)
qed (use assms in \<open>simp add: handle_handback_def keeps_def\<close>)

definition advances :: "reactor \<Rightarrow> reactor \<Rightarrow> bool" where
  "advances s s' \<longleftrightarrow> reactor_inv s' \<and> same_config s s'"

lemma keeps_advances: "keeps s s' \<Longrightarrow> advances s s'"
  by (simp add: keeps_def advances_def same_limits_def same_config_def)

lemma advances_trans: "advances s s1 \<Longrightarrow> advances s1 s2 \<Longrightarrow> advances s s2"
  by (simp add: advances_def same_config_def)

text \<open>The loop ends: each round takes one item, and \<open>handle_handback\<close> leaves the outbox alone.\<close>

lemma drain_rounds_ok:
  "reactor_inv s \<Longrightarrow> length (ring_items (rx_outbox s)) < n \<Longrightarrow> safely (advances s) (drain_rounds n s)"
proof (induction n arbitrary: s)
  case (Suc n)
  have q: "drop_ring_inv (rx_outbox s)" using Suc.prems(1) by (simp add: reactor_inv_def)
  show ?case
  proof (cases "ring_items (rx_outbox s)")
    case Nil
    then show ?thesis using dr.pop_empty [OF q Nil] Suc.prems(1)
      by (auto simp: advances_def reactor_inv_def same_config_def simp del: ring_try_pop.simps)
  next
    case (Cons hb hbs)
    obtain ob where ob: "ring_try_pop 2 (rx_outbox s) = Ret (Some hb, ob)" "drop_ring_inv ob"
      "ncells ob = ncells (rx_outbox s)" "ring_items ob = hbs"
      using dr.pop_front [OF q Cons] by blast
    let ?s = "s\<lparr>rx_outbox := ob\<rparr>"
    have s1: "reactor_inv ?s" using Suc.prems(1) ob(2) by (simp add: reactor_inv_def)
    then have a: "advances s ?s" using ob(3) by (simp add: advances_def same_config_def)
    have "safely (advances s) (bind_outcome (handle_handback hb ?s) (drain_rounds n))"
    proof (rule safely_bind [OF handle_handback_ok [OF s1]])
      fix t assume t: "keeps ?s t"
      then have "reactor_inv t" "length (ring_items (rx_outbox t)) < n"
        using Suc.prems(2) Cons ob(4) by (simp_all add: keeps_def same_limits_def)
      then have "safely (advances t) (drain_rounds n t)" by (rule Suc.IH)
      moreover have "advances s t" using a keeps_advances [OF t] by (rule advances_trans)
      ultimately show "safely (advances s) (drain_rounds n t)" using advances_trans by (auto intro: safely_mono)
    qed
    with ob(1) show ?thesis by (simp del: ring_try_pop.simps)
  qed
qed simp

lemma drain_outbox_ok: "reactor_inv s \<Longrightarrow> safely (advances s) (drain_outbox s)"
  unfolding drain_outbox_def by (rule drain_rounds_ok) (auto simp: reactor_inv_def dest: dr.bound_law)

lemma worker_task_ok:
  assumes "reactor_inv s" "worker_task handler job s = Ret s'"
  shows "advances s s'"
proof -
  obtain hb ok ob where p: "ring_push 2 hb (rx_outbox s) = Ret (ok, ob)" "rx_outbox s' = ob" "rx_conns s' = rx_conns s"
    "rx_max_connections s' = rx_max_connections s" "rx_listen s' = rx_listen s"
    using assms(2) by (auto simp: worker_task_def Let_def split: prod.splits elim!: bind_outcome_Ret)
  then show ?thesis using dr.push_law [OF _ p(1)] assms(1) by (simp add: advances_def reactor_inv_def same_config_def)
qed

lemma worker_task_defined:
  assumes "reactor_inv s" "\<not> permits_spent (rx_outbox s)"
  shows "\<exists>s'. worker_task handler job s = Ret s'"
proof -
  have "\<exists>ok ob. ring_push 2 hb (rx_outbox s) = Ret (ok, ob)" for hb
    using dr.push_defined [of "rx_outbox s" hb] assms by (simp add: reactor_inv_def)
  then have "\<exists>s'. bind_outcome (ring_push 2 hb (rx_outbox s)) (\<lambda>(pushed, outbox). Ret (f pushed outbox)) = Ret s'"
    for hb and f :: "bool \<Rightarrow> handback ring \<Rightarrow> reactor"
    by (metis bind_outcome.simps(1) case_prod_conv)
  then show ?thesis unfolding worker_task_def Let_def by (cases job) simp
qed

lemma ip_gate_ok: "ip_gate hash ip s = (rejected, s1) \<Longrightarrow> rx_conns s1 = rx_conns s \<and> rx_outbox s1 = rx_outbox s \<and> same_limits s s1"
  by (auto simp: ip_gate_def ip_rate_exceeded_def Let_def same_limits_def split: if_splits)

lemma conn_new_ok: "conn_ok fd (conn_new fd ip now)"
  by (simp add: conn_ok_def conn_new_def)

lemma admit_ok:
  assumes "reactor_inv s" "rx_max_connections s \<noteq> 0 \<longrightarrow> length (rx_conns s) < rx_max_connections s"
  shows "keeps s (admit fd ip added s)"
proof -
  let ?cs = "emplace fd (conn_new fd ip (rx_now s)) (rx_conns s)"
  have "conns_ok ?cs" using assms(1) conns_ok_emplace conn_new_ok by (simp add: reactor_inv_def)
  moreover have "length ?cs \<le> rx_max_connections s" "length (del_key fd ?cs) \<le> rx_max_connections s" if "rx_max_connections s \<noteq> 0"
    using assms(2) that length_emplace [of fd "conn_new fd ip (rx_now s)" "rx_conns s"] length_del_key_le [of fd ?cs] by simp_all
  ultimately show ?thesis
    using assms(1) conns_ok_del [of ?cs fd] by (auto simp: admit_def Let_def keeps_def reactor_inv_def same_limits_def)
qed

lemma accept_loop_ok: "reactor_inv s \<Longrightarrow> safely (keeps s) (accept_loop hash n s)"
proof (induction n arbitrary: s)
  case (Suc n)
  show ?case
  proof (cases "rx_max_connections s \<noteq> 0 \<and> length (rx_conns s) \<ge> rx_max_connections s")
    case False
    have step: "safely (keeps s) (accept_loop hash n s1)" if "keeps s s1" for s1
      using Suc.IH [of s1] that keeps_trans by (auto simp: keeps_def intro: safely_mono)
    have conn: "safely (keeps s) (case ip_gate hash ip (s\<lparr>rx_accepts := as, rx_open := fd # rx_open s\<rparr>) of (rejected, s1) \<Rightarrow>
        if rejected then accept_loop hash n (s1\<lparr>rx_open := removeAll fd (rx_open s1)\<rparr>)
        else accept_loop hash n (admit fd ip added s1))" for fd ip added as
    proof -
      obtain rejected s1 where g: "ip_gate hash ip (s\<lparr>rx_accepts := as, rx_open := fd # rx_open s\<rparr>) = (rejected, s1)"
        by (cases "ip_gate hash ip (s\<lparr>rx_accepts := as, rx_open := fd # rx_open s\<rparr>)")
      then have s1: "rx_conns s1 = rx_conns s" "rx_outbox s1 = rx_outbox s" "same_limits s s1"
        using ip_gate_ok [OF g] by (auto simp: same_limits_def)
      have i: "reactor_inv s1" using s1 Suc.prems by (simp add: reactor_inv_def same_limits_def)
      have "keeps s1 (admit fd ip added s1)" using i False s1 by (intro admit_ok) (auto simp: same_limits_def)
      then have "keeps s (admit fd ip added s1)" using s1(3) keeps_from by blast
      moreover have "keeps s (s1\<lparr>rx_open := removeAll fd (rx_open s1)\<rparr>)" using i s1(3) by (simp add: keeps_def)
      ultimately show ?thesis using g step by simp
    qed
    have quiet: "keeps s (s\<lparr>rx_accepts := as\<rparr>)" for as using Suc.prems by (simp add: keeps_def)
    show ?thesis
    proof (cases "rx_accepts s")
      case (Cons a as)
      then show ?thesis using False conn step [OF quiet] quiet by (cases a) auto
    qed (use False in auto)
  qed (use Suc.prems in \<open>simp add: keeps_def\<close>)
qed (simp add: keeps_def)

lemma fold_close_ok: "reactor_inv s \<Longrightarrow> keeps s (fold close_connection fds s)"
proof (induction fds arbitrary: s)
  case (Cons fd fds)
  then show ?case using keeps_from [of s "close_connection fd s"] reactor_inv_close by simp
qed (simp add: keeps_def)

lemma sweep_ok: "reactor_inv s \<Longrightarrow> keeps s (sweep_ip_rate (sweep_idle_connections s))"
proof -
  assume "reactor_inv s"
  then have "keeps s (sweep_idle_connections s)" using fold_close_ok by (simp add: sweep_idle_connections_def Let_def keeps_def)
  then show ?thesis by (simp add: sweep_ip_rate_def keeps_def)
qed

lemma reactor_step_ok: "reactor_step hash handler s s' \<Longrightarrow> reactor_inv s \<Longrightarrow> advances s s'"
proof (induction rule: reactor_step.cases)
  case (kernel s now as rs ws)
  then show ?thesis by (simp add: advances_def same_config_def)
next
  case (client fd s m s')
  then show ?thesis using on_client_event_ok [of s fd m] keeps_advances by simp
next
  case (accept s s')
  then show ?thesis using accept_loop_ok [of s hash 128] keeps_advances by (simp add: accept_all_def)
next
  case (outbox s s')
  then show ?thesis using drain_outbox_ok [of s] by simp
next
  case (sweep s)
  then show ?thesis using sweep_ok [of s] keeps_advances by simp
next
  case (work job s s')
  then have "advances (s\<lparr>rx_jobs := remove1 job (rx_jobs s)\<rparr>) s'" by (intro worker_task_ok) simp_all
  with work show ?thesis by (simp add: advances_def same_config_def)
qed

lemma reactor_reach_inv:
  assumes "reactor_reach hash handler s0 s" "reactor_inv s0"
  shows "advances s0 s"
  using assms
proof (induction rule: reactor_reach.induct)
  case (step s s')
  then show ?case using reactor_step_ok [of hash handler s s'] by (auto simp: advances_def same_config_def)
qed (simp add: advances_def same_config_def)

text \<open>A new reactor whose outbox is not broken from the start.\<close>

lemma reactor_new_ok:
  assumes "2 \<le> unat ocap" "unat ocap \<le> 2 ^ 62" "reactor_new lfd ocap idle maxc rate bl = Ret s0"
  shows "reactor_inv s0 \<and> rx_max_connections s0 = maxc \<and> ncells (rx_outbox s0) < 2 * unat ocap"
proof -
  obtain r :: "handback ring" and n where r: "ring_new 64 ocap DropNew = Ret r" "drop_ring_inv r" "ncells r = 2 ^ n" "(2::nat) ^ n < 2 * unat ocap"
    by (rule drop_ring_new [OF assms(1,2)])
  have "ocap \<noteq> 0" using assms(1) by auto
  then show ?thesis using assms(3) r by (auto simp: reactor_new_def outbox_new_def reactor_inv_def conns_ok_def)
qed

text \<open>The listener hands out one descriptor, and a failed attempt leaves none open.\<close>

lemma get_listener_once: "get_listener sock b l t = (Inr fd, t') \<Longrightarrow> fd \<noteq> -1 \<Longrightarrow> get_listener sock' b' l' t' = (Inr fd, t')"
  by (auto simp: get_listener_def Let_def split: if_splits option.splits)

lemma get_listener_no_leak:
  assumes "get_listener sock b l t = (Inl e, t')" "\<forall>fd. sock = Some fd \<longrightarrow> fd \<notin> set (tl_open t)"
  shows "tl_open t' = tl_open t \<and> tl_fd t' = -1"
  using assms by (auto simp: get_listener_def Let_def split: if_splits option.splits)

lemma reactor_pool_shards:
  assumes "reactor_pool_new lfd n w ocap idle maxc rate bl = Ret p"
  shows "shard_count p = max 1 (unat n) \<and> 0 < rp_workers_per_shard p"
  using assms by (auto simp: reactor_pool_new_def shard_count_def Let_def word_neq_0_conv unat_eq_0 max_def Suc_le_eq unat_gt_0 elim!: bind_outcome_Ret)

section \<open>Correctness\<close>

text \<open>
  C33. In every state the reactor reaches, from any events, kernel answers and worker schedule: on each connection the bytes
  read from the socket are the requests handed to workers, in order, followed by what is still in the buffer, so no byte
  of a client is lost, repeated or reordered; no read buffer holds more than 64 KiB; there are never more connections than
  the configured maximum; each descriptor has one connection; the outbox holds fewer than twice as many answers as its
  requested capacity, which has to be at least 2; no handler of the reactor thread, called next, copies or reads outside
  a buffer or loops for ever; and neither does a worker that hands an answer back, until \<open>INT_MAX\<close> answers have been
  handed back, when the semaphore of the outbox has no more room.
\<close>

theorem reactor_conserves_bytes:
  assumes "2 \<le> unat ocap" "unat ocap \<le> 2 ^ 62" "reactor_new lfd ocap idle maxc rate bl = Ret s0" "reactor_reach hash handler s0 s"
  shows "(\<forall>(fd, c) \<in> set (rx_conns s). c_in c = concat (c_requests c) @ c_buf c \<and> length (c_buf c) \<le> 65536) \<and>
    distinct (map fst (rx_conns s)) \<and> (maxc \<noteq> 0 \<longrightarrow> length (rx_conns s) \<le> maxc) \<and>
    length (ring_items (rx_outbox s)) < 2 * unat ocap \<and>
    on_client_event fd m s \<notin> {Undefined, Spinning} \<and> drain_outbox s \<notin> {Undefined, Spinning} \<and>
    accept_all hash s \<notin> {Undefined, Spinning} \<and>
    (ring_sem (rx_outbox s) < INT_MAX \<longrightarrow> worker_task handler job s \<notin> {Undefined, Spinning})"
proof -
  note s0 = reactor_new_ok [OF assms(1-3)]
  have i: "reactor_inv s" "rx_max_connections s = maxc" "ncells (rx_outbox s) < 2 * unat ocap"
    using reactor_reach_inv [OF assms(4)] s0 by (auto simp: advances_def same_config_def)
  have "conn_ok fd c" if "(fd, c) \<in> set (rx_conns s)" for fd c
    using i(1) that by (auto simp: reactor_inv_def conns_ok_def)
  then have "\<forall>(fd, c) \<in> set (rx_conns s). c_in c = concat (c_requests c) @ c_buf c \<and> length (c_buf c) \<le> 65536"
    by (auto simp: conn_ok_def Connection_max_request_def)
  moreover have "on_client_event fd m s \<notin> {Undefined, Spinning}" "drain_outbox s \<notin> {Undefined, Spinning}"
    "accept_all hash s \<notin> {Undefined, Spinning}"
    using on_client_event_ok [OF i(1), of fd m] drain_outbox_ok [OF i(1)] accept_loop_ok [OF i(1), of hash 128]
    by (auto simp: accept_all_def)
  moreover have "worker_task handler job s \<notin> {Undefined, Spinning}" if "ring_sem (rx_outbox s) < INT_MAX"
    using worker_task_defined [OF i(1), of handler job] that by (auto simp: permits_spent_def)
  moreover have "length (ring_items (rx_outbox s)) \<le> ncells (rx_outbox s)" using i(1) dr.bound_law [of "rx_outbox s"] by (simp add: reactor_inv_def)
  ultimately show ?thesis using i conns_ok_distinct [of "rx_conns s"] by (simp add: reactor_inv_def)
qed

definition example_blacklist :: bloom where
  "example_blacklist = \<lparr>bf_bytes = [0], bf_num_slots = 2, bf_num_hashes = 1, bf_expected_items = 1\<rparr>"

definition example_outbox :: "handback ring" where
  "example_outbox = \<lparr>ring_policy = DropNew, ring_cells = map (\<lambda>i. \<lparr>cell_sequence = of_nat i, cell_data = None\<rparr>) [0..<8],
     ring_mask = 7, ring_enqueue_pos = 0, ring_dequeue_pos = 0, ring_dropped = 0, ring_stopped = False, ring_sem = 0\<rparr>"

definition example_server :: reactor where
  "example_server = \<lparr>rx_listen = 3, rx_running = False, rx_idle_timeout = 0, rx_max_connections = 4, rx_ip_rate = 0, rx_conns = [],
     rx_jobs = [], rx_outbox = example_outbox, rx_interest = Map.empty, rx_open = [], rx_blacklist = example_blacklist,
     rx_windows = Map.empty, rx_last_ip_decay = 0, rx_now = 0, rx_reads = [], rx_writes = [], rx_accepts = [], rx_closed = []\<rparr>"

lemma example_server_new: "reactor_new 3 8 0 4 0 example_blacklist = Ret example_server"
proof -
  have "pow2_loop (Suc (Suc (Suc (Suc n)))) 1 8 = Ret 8" for n by simp
  from this [of 60] have "pow2_loop 64 1 8 = Ret 8" by simp
  then show ?thesis by (simp add: reactor_new_def outbox_new_def ring_new_def example_server_def example_outbox_def)
qed

text \<open>One client connects and sends a request line and part of the next.\<close>

definition example_served :: reactor where
  "example_served = example_server\<lparr>
     rx_conns := [(5, (conn_new 5 1 7)\<lparr>c_buf := ''GE'', c_dispatched := True, c_in := ''G'' @ crlf @ crlf @ ''GE'',
       c_requests := [''G'' @ crlf @ crlf]\<rparr>)],
     rx_jobs := [(5, ''G'' @ crlf @ crlf)], rx_interest := [5 \<mapsto> Readable], rx_open := [5], rx_now := 7\<rparr>"

lemma example_served_reach: "reactor_reach (\<lambda>_. 0) (\<lambda>_. None) example_server example_served"
proof -
  let ?reach = "reactor_reach (\<lambda>_. 0) (\<lambda>_. None) example_server"
  let ?c = "conn_new 5 1 7"
  let ?rs = "[RBytes (''G'' @ crlf @ crlf @ ''GE'') True, RAgain]"
  let ?s1 = "example_server\<lparr>rx_now := 7, rx_reads := ?rs, rx_writes := [], rx_accepts := [AConn 5 1 True, AAgain]\<rparr>"
  let ?s2 = "?s1\<lparr>rx_accepts := [], rx_conns := [(5, ?c)], rx_interest := [5 \<mapsto> Readable], rx_open := [5]\<rparr>"
  have "?reach ?s1"
    by (rule reactor_reach.step [OF reactor_reach.start reactor_step.kernel]) (simp_all add: example_server_def)
  moreover have "accept_all (\<lambda>_. 0) ?s1 = Ret ?s2"
    by (simp add: accept_all_def numeral_eq_Suc example_server_def ip_gate_def admit_def emplace_def)
  ultimately have r2: "?reach ?s2" by (rule reactor_reach.step [OF _ reactor_step.accept])
  have "on_client_event 5 Readable ?s2 = Ret example_served"
    by (simp add: on_client_event_def has_def Closed_def Writable_def Readable_def conn_of_def conn_new_def take_bytes_def
        Connection_max_request_def tail_pos_def find_end.simps ends_at_def put_conn_def dispatch_to_worker_def carve_request_def
        example_served_def example_server_def Let_def)
  then show ?thesis
    by (intro reactor_reach.step [OF r2 reactor_step.client [of 5]]) (simp_all add: example_server_def)
qed

theorem reactor_conserves_bytes_witness:
  "\<exists>c. rx_conns example_served = [(5, c)] \<and> c_in c = concat (c_requests c) @ c_buf c \<and> c_requests c = [''G'' @ crlf @ crlf] \<and>
     c_buf c = ''GE''"
  using reactor_conserves_bytes [OF _ _ example_server_new example_served_reach] by (simp add: example_served_def)

end
