(* ===== verification/Reactor_Delivery.thy ===== *)
theory Reactor_Delivery
  imports Reactor
begin

text \<open>
  What the reactor of theory \<open>Reactor\<close> delivers: a response goes out whole and in order however the socket takes it, and
  two executions in which a client gets what it should not, because a scan position moves on after a complete request was
  seen, and because a worker's answer is matched to a connection by descriptor number only.
\<close>

section \<open>Writing a response\<close>

text \<open>A response on its way, after the bytes \<open>base\<close> of earlier ones, and a response that is out.\<close>

definition sending :: "string \<Rightarrow> string \<Rightarrow> conn \<Rightarrow> bool" where
  "sending base resp c \<longleftrightarrow> c_writing c \<and> c_write_buf c = resp \<and> c_write_off c < length resp \<and>
     c_out c = base @ take (c_write_off c) resp"

definition sent :: "string \<Rightarrow> string \<Rightarrow> conn \<Rightarrow> bool" where
  "sent base resp c \<longleftrightarrow> \<not> c_writing c \<and> c_out c = base @ resp"

definition write_failed :: "write_answer list \<Rightarrow> bool" where
  "write_failed ws \<longleftrightarrow> WFail \<in> set ws \<or> WBytes 0 \<in> set ws"

text \<open>The connection on \<open>fd\<close>, or what it was when it was closed.\<close>

definition delivered :: "(bool \<Rightarrow> conn \<Rightarrow> bool) \<Rightarrow> int \<Rightarrow> reactor \<Rightarrow> reactor \<Rightarrow> bool" where
  "delivered P fd s s' \<longleftrightarrow>
     (\<exists>c. conn_of s' fd = Some c \<and> rx_closed s' = rx_closed s \<and> P False c) \<or>
     (\<exists>c. conn_of s' fd = None \<and> rx_closed s' = rx_closed s @ [(fd, c)] \<and> P True c)"

lemma delivered_close:
  assumes "conn_of s fd \<noteq> None" "P True c" "rx_closed s = rx_closed s0"
  shows "delivered P fd s0 (close_connection fd (put_conn fd c s))"
proof -
  obtain c0 where "conn_of s fd = Some c0" using assms(1) by blast
  then have c: "conn_of (put_conn fd c s) fd = Some c" by (simp add: conn_of_put)
  have "rx_closed (close_connection fd (put_conn fd c s)) = rx_closed s @ [(fd, c)]"
    using c by (simp add: close_connection_def put_conn_def)
  moreover have "conn_of (close_connection fd (put_conn fd c s)) fd = None"
    by (simp add: conn_of_def conns_close)
  ultimately show ?thesis using assms(2,3) unfolding delivered_def by auto
qed

lemma delivered_put:
  assumes "conn_of s fd \<noteq> None" "P False c" "rx_closed s = rx_closed s0"
  shows "delivered P fd s0 (put_conn fd c s)"
proof -
  obtain c0 where "conn_of s fd = Some c0" using assms(1) by blast
  then have "conn_of (put_conn fd c s) fd = Some c" by (simp add: conn_of_put)
  moreover have "rx_closed (put_conn fd c s) = rx_closed s" by (simp add: put_conn_def)
  ultimately show ?thesis using assms(2,3) unfolding delivered_def by auto
qed

lemma conn_of_upd [simp]:
  "conn_of (s\<lparr>rx_reads := rs\<rparr>) fd = conn_of s fd" "conn_of (s\<lparr>rx_writes := ws\<rparr>) fd = conn_of s fd"
  "conn_of (s\<lparr>rx_interest := f\<rparr>) fd = conn_of s fd" "conn_of (s\<lparr>rx_jobs := js\<rparr>) fd = conn_of s fd"
  "conn_of (s\<lparr>rx_outbox := hs\<rparr>) fd = conn_of s fd"
  by (simp_all add: conn_of_def)

lemma delivered_upd [simp]:
  "delivered P fd s0 (s\<lparr>rx_reads := rs\<rparr>) = delivered P fd s0 s" "delivered P fd s0 (s\<lparr>rx_writes := ws\<rparr>) = delivered P fd s0 s"
  "delivered P fd s0 (s\<lparr>rx_interest := f\<rparr>) = delivered P fd s0 s" "delivered P fd s0 (s\<lparr>rx_jobs := js\<rparr>) = delivered P fd s0 s"
  by (simp_all add: delivered_def)

text \<open>Reading and carving leave the writing side of a connection alone.\<close>

definition same_out :: "conn \<Rightarrow> conn \<Rightarrow> bool" where
  "same_out c c' \<longleftrightarrow> c_out c' = c_out c \<and> c_writing c' = c_writing c"

lemma drain_loop_out: "drain_loop rs c = Ret (alive, c', rs') \<Longrightarrow> same_out c c'"
  by (induction rs c rule: drain_loop.induct) (auto simp: same_out_def Let_def split: if_splits)

lemma carve_out: "carve_request c = Ret (request, c') \<Longrightarrow> same_out c c'"
  by (auto simp: carve_request_def same_out_def Let_def split: if_splits)

lemma sent_same_out: "sent base resp c \<Longrightarrow> same_out c c' \<Longrightarrow> sent base resp c'"
  by (simp add: sent_def same_out_def)

lemma check_buffered_delivers:
  assumes "check_buffered_request fd c s = Ret s'" "conn_of s fd = Some c" "sent base resp c"
  shows "delivered (\<lambda>gone c'. sent base resp c') fd s s'"
proof -
  have "s' = s \<or> (\<exists>i. dispatch_to_worker fd (c\<lparr>c_scan := i\<rparr>) s = Ret s')"
    using assms(1) by (auto simp: check_buffered_request_def split: if_splits option.splits)
  then show ?thesis
  proof
    assume "s' = s"
    then show ?thesis using assms(2,3) by (auto simp: delivered_def)
  next
    assume "\<exists>i. dispatch_to_worker fd (c\<lparr>c_scan := i\<rparr>) s = Ret s'"
    then obtain i request c' where c': "carve_request (c\<lparr>c_scan := i\<rparr>) = Ret (request, c')"
      "s' = (put_conn fd c' s)\<lparr>rx_jobs := rx_jobs s @ [(fd, request)]\<rparr>"
      by (auto simp: dispatch_to_worker_def elim: bind_outcome_Ret)
    have "same_out c c'" using carve_out [OF c'(1)] by (simp add: same_out_def)
    then have "sent base resp c'" using assms(3) sent_same_out by blast
    then show ?thesis using delivered_put [of s fd "\<lambda>_. sent base resp" c' s] assms(2) c'(2) by simp
  qed
qed

lemma finish_response_delivers:
  assumes "finish_response fd c s = Ret s'" "conn_of s fd \<noteq> None" "sent base resp c"
  shows "delivered (\<lambda>gone c'. sent base resp c') fd s s'"
proof (cases "c_keep_alive_after_write c")
  case True
  let ?s1 = "s\<lparr>rx_interest := (if rx_interest s fd = None then rx_interest s else (rx_interest s)(fd \<mapsto> Readable))\<rparr>"
  from assms(1) True obtain alive c2 rs where d: "drain_loop (rx_reads s) (c\<lparr>c_last_active := rx_now s, c_dispatched := False\<rparr>) = Ret (alive, c2, rs)"
    "(if \<not> alive then Ret (close_connection fd ((put_conn fd c2 ?s1)\<lparr>rx_reads := rs\<rparr>))
      else check_buffered_request fd c2 ((put_conn fd c2 ?s1)\<lparr>rx_reads := rs\<rparr>)) = Ret s'"
    by (auto simp: finish_response_def Let_def elim!: bind_outcome_Ret)
  have "sent base resp c2" using drain_loop_out [OF d(1)] assms(3) by (simp add: same_out_def sent_def)
  show ?thesis
  proof (cases alive)
    case True
    have "conn_of ((put_conn fd c2 ?s1)\<lparr>rx_reads := rs\<rparr>) fd = Some c2" using assms(2) by (auto simp: conn_of_put)
    from check_buffered_delivers [OF _ this \<open>sent base resp c2\<close>] d(2) True show ?thesis
      by (auto simp: delivered_def put_conn_def)
  next
    case False
    have "delivered (\<lambda>gone c'. sent base resp c') fd s (close_connection fd (put_conn fd c2 ?s1))"
      using assms(2) \<open>sent base resp c2\<close> by (intro delivered_close) auto
    then show ?thesis using d(2) False by (auto simp: close_connection_reads)
  qed
next
  case False
  then show ?thesis using assms delivered_close [of s fd "\<lambda>_. sent base resp" c s] by (auto simp: finish_response_def)
qed

lemma try_write_fails: "try_write data tot ws = Ret (None, out, ws') \<Longrightarrow> write_failed ws"
proof (induction data tot ws arbitrary: out rule: try_write.induct)
  case (2 data tot w ws)
  then show ?case
    by (auto simp: write_failed_def Let_def elim!: bind_outcome_Ret split: if_splits write_answer.splits)
qed (auto split: if_splits)

text \<open>The outcome of a call that writes: parked, out, or, after a failed write, closed with a part of it out.\<close>

definition progress :: "string \<Rightarrow> string \<Rightarrow> write_answer list \<Rightarrow> bool \<Rightarrow> conn \<Rightarrow> bool" where
  "progress base resp ws gone c \<longleftrightarrow>
     sent base resp c \<or> (\<not> gone \<and> sending base resp c) \<or>
     (gone \<and> write_failed ws \<and> (\<exists>k. c_out c = base @ take k resp))"

lemma delivered_mono: "delivered P fd s s' \<Longrightarrow> (\<And>b c. P b c \<Longrightarrow> Q b c) \<Longrightarrow> delivered Q fd s s'"
  unfolding delivered_def by blast

lemma continue_write_delivers:
  assumes w: "continue_write fd c s = Ret s'" and c: "conn_of s fd \<noteq> None"
    and b: "c_write_buf c = resp" "c_write_off c \<le> length resp" "c_out c = base @ take (c_write_off c) resp"
  shows "delivered (progress base resp (rx_writes s)) fd s s'"
proof -
  have finish: "delivered (progress base resp (rx_writes s)) fd s s'"
    if "finish_response fd (c1\<lparr>c_writing := False, c_write_buf := [], c_write_off := 0\<rparr>) (s\<lparr>rx_writes := ws\<rparr>) = Ret s'"
      "c_out c1 = base @ resp" for c1 ws
  proof -
    have "delivered (\<lambda>gone c'. sent base resp c') fd (s\<lparr>rx_writes := ws\<rparr>) s'"
      using that c by (intro finish_response_delivers [OF that(1)]) (auto simp: sent_def)
    then have "delivered (\<lambda>gone c'. sent base resp c') fd s s'" by (simp add: delivered_def)
    then show ?thesis by (rule delivered_mono) (simp add: progress_def)
  qed
  show ?thesis
  proof (cases "c_write_off c < length resp")
    case False
    then have "c_out c = base @ resp" "c_write_off c = length resp" using b by auto
    then show ?thesis using w b(1) finish [of c "rx_writes s"] by (simp add: continue_write_def)
  next
    case True
    then obtain wrote out ws where t: "try_write resp (c_write_off c) (rx_writes s) = Ret (wrote, out, ws)"
      using w b(1) by (auto simp: continue_write_def elim!: bind_outcome_Ret)
    have o: "prefix out (drop (c_write_off c) resp)"
      "\<And>n. wrote = Some n \<Longrightarrow> c_write_off c \<le> n \<and> n \<le> length resp \<and> out = take (n - c_write_off c) (drop (c_write_off c) resp)"
      using try_write_sent [OF t b(2)] by blast+
    show ?thesis
    proof (cases wrote)
      case None
      obtain k where "out = take k (drop (c_write_off c) resp)" using o(1) by (metis append_eq_conv_conj prefix_def)
      then have "base @ take (c_write_off c) resp @ out = base @ take (c_write_off c + k) resp" by (simp add: take_add)
      moreover have "s' = close_connection fd (put_conn fd (c\<lparr>c_out := c_out c @ out, c_writing := False\<rparr>) (s\<lparr>rx_writes := ws\<rparr>))"
        using w True b(1) t None by (simp add: continue_write_def Let_def)
      ultimately show ?thesis
        using c b(3) try_write_fails [of resp _ "rx_writes s"] t None
        by (auto intro!: delivered_close simp: progress_def)
    next
      case (Some n)
      have n: "c_write_off c \<le> n" "n \<le> length resp" "c_out c @ out = base @ take n resp"
        using o(2) [OF Some] b(3) take_add [of "c_write_off c" "n - c_write_off c" resp] by auto
      let ?c1 = "c\<lparr>c_out := c_out c @ out, c_last_active := rx_now s, c_write_off := n\<rparr>"
      show ?thesis
      proof (cases "n = length resp")
        case whole: True
        then show ?thesis using w True b(1) t Some n(3) finish [of ?c1 ws] by (simp add: continue_write_def Let_def)
      next
        case False
        then have "delivered (progress base resp (rx_writes s)) fd s (put_conn fd (?c1\<lparr>c_writing := True\<rparr>) (s\<lparr>rx_writes := ws\<rparr>))"
          using c n b(1) by (intro delivered_put) (auto simp: progress_def sending_def)
        then show ?thesis using w True b(1) t Some n(2) False by (auto simp: continue_write_def Let_def)
      qed
    qed
  qed
qed

text \<open>
  C34. A response is delivered exactly.  When the reactor starts to write a response, and at every later writable event
  while it is parked, then afterwards the bytes on the socket are those of the earlier responses followed by all of the
  response, or the connection is open and parked with a proper prefix of it out and the position just behind, or a write
  failed and the connection was closed.  In particular a connection that is not kept alive is closed only once the whole
  response is out.
\<close>

theorem response_written_exactly:
  assumes "conn_of s fd = Some c"
    and "begin_write fd c resp alive s = Ret s' \<and> base = c_out c \<or>
      sending base resp c \<and> on_client_event fd Writable s = Ret s'"
  shows "delivered (progress base resp (rx_writes s)) fd s s'"
  using assms(2)
proof
  assume "begin_write fd c resp alive s = Ret s' \<and> base = c_out c"
  then show ?thesis
    using assms(1) by (intro continue_write_delivers [of fd "c\<lparr>c_write_buf := resp, c_write_off := 0, c_keep_alive_after_write := alive\<rparr>"])
      (auto simp: begin_write_def)
next
  assume s: "sending base resp c \<and> on_client_event fd Writable s = Ret s'"
  then have "continue_write fd c s = Ret s'"
    using assms(1) by (auto simp: on_client_event_def has_def Closed_def Writable_def sending_def)
  then show ?thesis using assms(1) s by (intro continue_write_delivers) (auto simp: sending_def)
qed

definition example_busy :: reactor where
  "example_busy = example_served\<lparr>rx_writes := [WBytes 1, WAgain]\<rparr>"

theorem response_written_exactly_witness:
  "\<exists>c s'. conn_of example_busy 5 = Some c \<and> begin_write 5 c ''AB'' False example_busy = Ret s' \<and>
     delivered (progress [] ''AB'' [WBytes 1, WAgain]) 5 example_busy s'"
proof -
  obtain c where c: "conn_of example_busy 5 = Some c" "c_out c = []"
    by (auto simp: example_busy_def example_served_def conn_of_def conn_new_def)
  moreover obtain s' where s': "begin_write 5 c ''AB'' False example_busy = Ret s'"
    by (auto simp: begin_write_def continue_write_def example_busy_def Let_def)
  ultimately show ?thesis
    using response_written_exactly [of example_busy 5 c "''AB''" False s' "[]"] by (auto simp: example_busy_def)
qed

section \<open>Pipelined bytes in a second read\<close>

text \<open>
  C35. When one event delivers a complete request and a further read delivers more than three bytes of the next one, the
  worker is handed the first request together with the beginning of the second, because the scan position moves on to the
  end of the buffer after the complete request was found; only the last three bytes stay behind for the next request.
\<close>

theorem pipelined_request_misframed:
  assumes "c_buf c = []" "c_scan c = 0" "find_end r1 0 = Some (length r1 - 4)" "find_end (r1 @ r2) (length r1) = None"
    and "3 < length r2" "length (r1 @ r2) \<le> Connection_max_request"
  shows "\<exists>c' c''. read_loop now False (chunks_then_again [r1, r2] rs) c = Ret (Drained True, c', rs) \<and>
    carve_request c' = Ret (r1 @ take (length r2 - 3) r2, c'') \<and> r1 @ take (length r2 - 3) r2 \<noteq> r1 \<and>
    c_buf c'' = drop (length r2 - 3) r2"
proof -
  have len: "4 \<le> length r1" "r1 \<noteq> []" using assms(3) by (auto simp: find_end_Some complete_at_def)
  let ?c1 = "c\<lparr>c_last_active := now, c_buf := r1, c_in := c_in c @ r1, c_scan := length r1\<rparr>"
  have t1: "take_bytes now r1 c = Some (True, ?c1)"
    using assms(1-3,6) len by (simp add: take_bytes_def Let_def tail_pos_def)
  let ?c2 = "?c1\<lparr>c_last_active := now, c_buf := r1 @ r2, c_in := c_in c @ r1 @ r2, c_scan := length r1 + length r2 - 3\<rparr>"
  have t2: "take_bytes now r2 ?c1 = Some (False, ?c2)"
    using assms(4-6) len by (simp add: take_bytes_def Let_def tail_pos_def)
  have "r2 \<noteq> []" using assms(5) by auto
  then have r: "read_loop now False (chunks_then_again [r1, r2] rs) c = Ret (Drained True, ?c2, rs)"
    using t1 t2 len(2) by simp
  have "length r1 + length r2 - 3 = length r1 + (length r2 - 3)" using assms(5) by simp
  then have "\<exists>c''. carve_request ?c2 = Ret (r1 @ take (length r2 - 3) r2, c'') \<and> c_buf c'' = drop (length r2 - 3) r2"
    using assms(5) len(1) by (simp add: carve_request_def Let_def)
  with r show ?thesis using assms(5) by auto
qed

theorem pipelined_request_misframed_witness:
  "\<exists>c' c''. read_loop 0 False [RBytes (''GET /a H'' @ crlf @ crlf) True, RBytes ''GET /b'' True, RAgain] (conn_new 5 1 0) =
       Ret (Drained True, c', []) \<and> carve_request c' = Ret (''GET /a H'' @ crlf @ crlf @ ''GET'', c'')"
proof -
  let ?r1 = "''GET /a H'' @ crlf @ crlf" and ?r2 = "''GET /b''" and ?c = "conn_new 5 1 0"
  have f: "find_end ?r1 0 = Some (length ?r1 - 4)" "find_end (?r1 @ ?r2) (length ?r1) = None"
    by (simp_all add: find_end.simps ends_at_def)
  have c: "c_buf ?c = []" "c_scan ?c = 0" by (simp_all add: conn_new_def)
  have l: "3 < length ?r2" "length (?r1 @ ?r2) \<le> Connection_max_request" by (simp_all add: Connection_max_request_def)
  obtain c' c'' where r: "read_loop 0 False (chunks_then_again [?r1, ?r2] []) ?c = Ret (Drained True, c', [])"
    "carve_request c' = Ret (?r1 @ take (length ?r2 - 3) ?r2, c'')"
    using pipelined_request_misframed [OF c f l, of 0 "[]"] by blast
  have "?r1 @ take (length ?r2 - 3) ?r2 = ''GET /a H'' @ crlf @ crlf @ ''GET''" by simp
  with r show ?thesis by (simp only: list.map append.simps) blast
qed

section \<open>An answer for an earlier client\<close>

lemma map_of_emplace: "fd \<notin> fst ` set cs \<Longrightarrow> map_of (emplace fd c cs) fd = Some c"
proof -
  assume a: "fd \<notin> fst ` set cs"
  then have "fd \<notin> fst ` set (takeWhile (\<lambda>p. fst p < fd) cs)" by (auto dest: set_takeWhileD)
  then have "map_of (takeWhile (\<lambda>p. fst p < fd) cs) fd = None" by (simp add: map_of_eq_None_iff)
  then show ?thesis using a by (simp add: emplace_def map_add_def)
qed

lemma accept_again:
  assumes "rx_accepts s = [AAgain]"
  shows "\<exists>as. accept_loop hash (Suc n) s = Ret (s\<lparr>rx_accepts := as\<rparr>)"
proof (cases "rx_max_connections s \<noteq> 0 \<and> length (rx_conns s) \<ge> rx_max_connections s")
  case True
  then show ?thesis using assms by (intro exI [of _ "[AAgain]"]) simp
next
  case False
  then show ?thesis using assms by (intro exI [of _ "[]"]) auto
qed

lemma accept_one:
  assumes "rx_accepts s = [AConn fd ip True, AAgain]" "rx_ip_rate s = 0" "fd \<notin> fst ` set (rx_conns s)"
    and "rx_max_connections s \<noteq> 0 \<longrightarrow> length (rx_conns s) < rx_max_connections s"
  shows "\<exists>s'. accept_all hash s = Ret s' \<and> conn_of s' fd = Some (conn_new fd ip (rx_now s)) \<and>
    rx_outbox s' = rx_outbox s \<and> rx_writes s' = rx_writes s \<and> rx_reads s' = rx_reads s"
proof -
  let ?s1 = "admit fd ip True (s\<lparr>rx_accepts := [AAgain], rx_open := fd # rx_open s\<rparr>)"
  have "rx_accepts ?s1 = [AAgain]" by (simp add: admit_def Let_def)
  then obtain as where "accept_loop hash (Suc 126) ?s1 = Ret (?s1\<lparr>rx_accepts := as\<rparr>)" using accept_again by blast
  moreover have "accept_loop hash (Suc n) s = accept_loop hash n ?s1" for n using assms by (auto simp: ip_gate_def)
  moreover have "(128::nat) = Suc (Suc 126)" by simp
  ultimately have "accept_all hash s = Ret (?s1\<lparr>rx_accepts := as\<rparr>)" unfolding accept_all_def by metis
  moreover have "conn_of (?s1\<lparr>rx_accepts := as\<rparr>) fd = Some (conn_new fd ip (rx_now s))"
    using map_of_emplace [OF assms(3)] by (simp add: admit_def Let_def conn_of_def)
  ultimately show ?thesis by (simp add: admit_def Let_def)
qed

lemma write_at_once: "resp \<noteq> [] \<Longrightarrow> try_write resp 0 [WBytes (length resp)] = Ret (Some (length resp), resp, [])"
  by simp

lemma finish_idle:
  assumes "c_keep_alive_after_write c" "rx_reads t = [RAgain]" "c_buf c = []" "conn_of t fd \<noteq> None"
  obtains t' where "finish_response fd c t = Ret t'" "conn_of t' fd = Some (c\<lparr>c_last_active := rx_now t, c_dispatched := False\<rparr>)"
    "rx_outbox t' = rx_outbox t"
proof -
  let ?c = "c\<lparr>c_last_active := rx_now t, c_dispatched := False\<rparr>"
  let ?t = "t\<lparr>rx_interest := (if rx_interest t fd = None then rx_interest t else (rx_interest t)(fd \<mapsto> Readable))\<rparr>"
  have "finish_response fd c t = Ret ((put_conn fd ?c ?t)\<lparr>rx_reads := []\<rparr>)"
    using assms(1-3) by (simp add: finish_response_def check_buffered_request_def Let_def)
  moreover have "conn_of ((put_conn fd ?c ?t)\<lparr>rx_reads := []\<rparr>) fd = Some ?c" using assms(4) by (auto simp: conn_of_put)
  ultimately show ?thesis by (rule that) (simp add: put_conn_def)
qed

lemma begin_write_at_once:
  assumes t: "try_write resp 0 (rx_writes s) = Ret (Some (length resp), resp, [])"
    and c: "resp \<noteq> []" "conn_of s fd \<noteq> None" "rx_reads s = [RAgain]" "c_buf c = []" "c_requests c = []" "c_in c = []" "c_out c = []"
  obtains s' c' where "begin_write fd c resp True s = Ret s'" "conn_of s' fd = Some c'" "c_requests c' = []" "c_in c' = []" "c_out c' = resp"
    "rx_outbox s' = rx_outbox s"
proof -
  let ?c = "c\<lparr>c_keep_alive_after_write := True, c_out := resp, c_last_active := rx_now s, c_writing := False,
    c_write_buf := [], c_write_off := 0\<rparr>"
  have "begin_write fd c resp True s = finish_response fd ?c (s\<lparr>rx_writes := []\<rparr>)"
    using t c(1,7) by (simp add: begin_write_def continue_write_def Let_def del: try_write.simps)
  moreover obtain s' where "finish_response fd ?c (s\<lparr>rx_writes := []\<rparr>) = Ret s'"
    "conn_of s' fd = Some (?c\<lparr>c_last_active := rx_now s, c_dispatched := False\<rparr>)" "rx_outbox s' = rx_outbox s"
    by (rule finish_idle [of ?c "s\<lparr>rx_writes := []\<rparr>" fd]) (use c in auto)
  ultimately show ?thesis using c that [of s' "?c\<lparr>c_last_active := rx_now s, c_dispatched := False\<rparr>"] by simp
qed

text \<open>
  C36. A client can receive the answer to another client's request.  If a connection is closed while its answer waits in
  the outbox, and the kernel gives its descriptor number to the next connection, then draining the outbox writes the
  answer to the new client, which has sent nothing.
\<close>

theorem stale_answer_reaches_new_client:
  assumes "conn_of s fd \<noteq> None" "drop_ring_inv (rx_outbox s)"
    and "ring_items (rx_outbox s) = [\<lparr>hb_fd = fd, hb_keep_alive = True, hb_response = resp\<rparr>]" "resp \<noteq> []"
    and "rx_ip_rate s = 0" "rx_max_connections s = 0 \<or> length (rx_conns s) \<le> rx_max_connections s"
    and "rx_accepts s = [AConn fd ip True, AAgain]" "rx_writes s = [WBytes (length resp)]" "rx_reads s = [RAgain]"
  shows "\<exists>s1 s2 s3 c'. on_client_event fd Closed s = Ret s1 \<and> accept_all hash s1 = Ret s2 \<and> drain_outbox s2 = Ret s3 \<and>
    conn_of s3 fd = Some c' \<and> c_requests c' = [] \<and> c_in c' = [] \<and> c_out c' = resp"
proof -
  let ?s1 = "close_connection fd s" and ?hb = "\<lparr>hb_fd = fd, hb_keep_alive = True, hb_response = resp\<rparr>"
  have e1: "on_client_event fd Closed s = Ret ?s1" by (simp add: on_client_event_def has_def Closed_def)
  obtain b where "(fd, b) \<in> set (rx_conns s)" using assms(1) by (auto simp: conn_of_def dest: map_of_SomeD)
  then have short: "length (del_key fd (rx_conns s)) < length (rx_conns s)"
    unfolding del_key_def by (rule length_filter_less) simp
  have s1: "rx_accepts ?s1 = rx_accepts s" "rx_ip_rate ?s1 = rx_ip_rate s" "rx_max_connections ?s1 = rx_max_connections s"
    "rx_outbox ?s1 = rx_outbox s" "rx_writes ?s1 = rx_writes s" "rx_reads ?s1 = rx_reads s"
    by (simp_all add: close_connection_def split: option.split)
  have "fd \<notin> fst ` set (rx_conns ?s1)" by (auto simp: conns_close)
  moreover have "rx_max_connections ?s1 \<noteq> 0 \<longrightarrow> length (rx_conns ?s1) < rx_max_connections ?s1"
    using assms(6) short s1(3) by (auto simp: conns_close)
  ultimately obtain s2 where s2: "accept_all hash ?s1 = Ret s2" "conn_of s2 fd = Some (conn_new fd ip (rx_now ?s1))"
    "rx_outbox s2 = rx_outbox s" "rx_writes s2 = rx_writes s" "rx_reads s2 = rx_reads s"
    using accept_one [of ?s1 fd ip hash] s1 assms(5,7) by auto
  obtain ob where ob: "ring_try_pop 2 (rx_outbox s2) = Ret (Some ?hb, ob)" "drop_ring_inv ob" "ring_items ob = []"
    using dr.pop_front [OF assms(2,3)] s2(3) by auto
  let ?s2 = "s2\<lparr>rx_outbox := ob\<rparr>" and ?c = "conn_new fd ip (rx_now ?s1)"
  have t: "try_write resp 0 (rx_writes ?s2) = Ret (Some (length resp), resp, [])"
    using write_at_once [OF assms(4)] s2(4) assms(8) by simp
  obtain s3 c' where s3: "begin_write fd ?c resp True ?s2 = Ret s3" "conn_of s3 fd = Some c'" "c_requests c' = []" "c_in c' = []"
    "c_out c' = resp" "rx_outbox s3 = ob"
    by (rule begin_write_at_once [OF t, of fd ?c]) (use s2 assms(4,9) in \<open>auto simp: conn_new_def\<close>)
  obtain ob' where ob': "ring_try_pop 2 ob = Ret (None, ob')" using dr.pop_empty [OF ob(2,3)] by blast
  have "handle_handback ?hb ?s2 = Ret s3" using s2(2) s3(1) assms(4) by (simp add: handle_handback_def)
  moreover have "ring_cells (rx_outbox s2) \<noteq> []"
    using dr.bound_law [OF assms(2)] assms(3) s2(3) by auto
  then obtain n where "Suc (length (ring_cells (rx_outbox s2))) = Suc (Suc n)" by (cases "ring_cells (rx_outbox s2)") auto
  ultimately have "drain_outbox s2 = Ret (s3\<lparr>rx_outbox := ob'\<rparr>)"
    using ob(1) ob' s3(6) unfolding drain_outbox_def by (simp del: ring_try_pop.simps)
  with e1 s2(1) s3 show ?thesis by (intro exI [of _ ?s1] exI [of _ s2] exI [of _ "s3\<lparr>rx_outbox := ob'\<rparr>"] exI [of _ c']) simp
qed

theorem stale_answer_reaches_new_client_witness:
  "\<exists>outbox s1 s2 s3 c'. ring_items outbox = [\<lparr>hb_fd = 5, hb_keep_alive = True, hb_response = ''A''\<rparr>] \<and>
     on_client_event 5 Closed (example_served\<lparr>rx_outbox := outbox,
       rx_accepts := [AConn 5 2 True, AAgain], rx_writes := [WBytes 1], rx_reads := [RAgain]\<rparr>) = Ret s1 \<and>
     accept_all (\<lambda>_. 0) s1 = Ret s2 \<and> drain_outbox s2 = Ret s3 \<and> conn_of s3 5 = Some c' \<and> c_requests c' = [] \<and> c_out c' = ''A''"
proof -
  let ?hb = "\<lparr>hb_fd = 5, hb_keep_alive = True, hb_response = ''A''\<rparr>"
  obtain r :: "handback ring" and n where r: "drop_ring_inv r" "ring_items r = []" "\<not> ring_stopped r" "ring_sem r = 0" "ncells r = 2 ^ n"
    by (rule drop_ring_new [of 8]) simp_all
  have "\<not> permits_spent r" "length (ring_items r) < ncells r" using r by (simp_all add: permits_spent_def INT_MAX_def)
  then obtain outbox where p: "ring_push 2 ?hb r = Ret (True, outbox)" using dr.push_room [OF r(1) _ r(3), of ?hb] by blast
  have o: "drop_ring_inv outbox" "ring_items outbox = [?hb]" using dr.push_law [OF r(1) p] r(2) by simp_all
  let ?s = "example_served\<lparr>rx_outbox := outbox, rx_accepts := [AConn 5 2 True, AAgain], rx_writes := [WBytes 1], rx_reads := [RAgain]\<rparr>"
  have "conn_of ?s 5 \<noteq> None" by (simp add: example_served_def conn_of_def)
  from stale_answer_reaches_new_client [OF this, of "''A''" 2 "\<lambda>_. 0"] o show ?thesis
    by (auto simp: example_served_def example_server_def)
qed

end
