(* ===== verification/Proxy.thy ===== *)
theory Proxy
  imports Http_Handler "HOL-Library.List_Lexorder" "HOL-Library.Char_ord"
begin

text \<open>
  The reverse proxy of \<open>src/muses/net_components/proxy.hpp\<close>: routing, header rewriting, the pools of upstream
  connections, upstream health, the I/O helpers and the client coroutine.

  A coroutine that awaits readiness resumes where it was, so a \<open>co_await\<close> on the poller followed by a retry is the retry;
  the helpers are ordinary functions on a socket.  A socket is what will arrive on it, in the portions in which it
  arrives, and how it goes on after that: nothing more comes (a read waits), the peer has closed (every read gives zero
  bytes) or the connection is broken (every read fails).  What the peer takes of a write is a list of answers, and
  what a coroutine finds when it acquires an upstream connection is given per attempt.  \<open>std::map\<close> iterates in the order
  of its keys.  Logging is left out.

  An exception in an awaited \<open>Task\<close> is kept in its promise, and \<open>await_resume\<close> throws in turn (\<open>std::bad_variant_access\<close>),
  so it ends the client coroutine, whose own promise swallows it.  The place where an upstream or a client can make the
  code throw is \<open>buf.reserve(n)\<close> in \<open>read_n\<close>, with a length from a header: it throws \<open>std::length_error\<close> for a length that no
  string can have and \<open>std::bad_alloc\<close> for one that the machine has no memory for.  \<open>px_memory\<close> is the longest string it can
  make room for; the other allocations, of the size of what has arrived, succeed.
\<close>

section \<open>Data\<close>

record proxy_route =
  rt_prefix :: string
  rt_host :: string
  rt_port :: u16

record upstream_health =
  healthy :: bool
  unhealthy_since :: int

record proxy =
  px_routes :: "proxy_route list"
  px_max_retries :: u32
  px_upstream_cooldown :: int
  px_pools :: "string \<Rightarrow> int list option"
  px_health :: "string \<Rightarrow> upstream_health option"
  px_open :: "int list"
  px_memory :: nat

definition upstream_key :: "string \<Rightarrow> u16 \<Rightarrow> string" where
  "upstream_key host port = host @ '':'' @ decimal (unat port)"

definition proxy_new :: "proxy_route list \<Rightarrow> u32 \<Rightarrow> int \<Rightarrow> nat \<Rightarrow> proxy" where
  "proxy_new routes max_retries cooldown memory =
     \<lparr>px_routes = routes, px_max_retries = max_retries, px_upstream_cooldown = cooldown, px_pools = Map.empty,
      px_health = fold (\<lambda>r h. h(upstream_key (rt_host r) (rt_port r) \<mapsto> \<lparr>healthy = True, unhealthy_since = 0\<rparr>)) routes Map.empty,
      px_open = [], px_memory = memory\<rparr>"

section \<open>Sockets\<close>

datatype stream_end = StaysOpen | PeerClosed | Broken

type_synonym sock = "string list \<times> stream_end"

datatype peer_write = PTakes nat | PFull | PError

text \<open>What is left after \<open>read\<close> took \<open>want\<close> bytes of the first portion.\<close>

definition rest_of :: "nat \<Rightarrow> string \<Rightarrow> string list \<Rightarrow> string list" where
  "rest_of want bs ds = (if length bs \<le> want then ds else drop want bs # ds)"

definition sock_size :: "string list \<Rightarrow> nat" where
  "sock_size ds = length (concat ds) + length ds"

lemma rest_of_less: "0 < want \<Longrightarrow> sock_size (rest_of want bs ds) < sock_size (bs # ds)"
  by (auto simp: rest_of_def sock_size_def)

function read_until :: "string \<Rightarrow> string \<Rightarrow> string list \<Rightarrow> stream_end \<Rightarrow> (string \<times> sock) outcome" where
  "read_until delimiter buf [] e = (if e = StaysOpen then Blocked else Ret (buf, [], e))"
| "read_until delimiter buf (bs # ds) e =
     (if bs = [] then read_until delimiter buf ds e
      else
        let buf' = buf @ take 4096 bs; ds' = rest_of 4096 bs ds
        in if str_find delimiter buf' \<noteq> None then Ret (buf', ds', e) else read_until delimiter buf' ds' e)"
  by pat_completeness auto
termination
  by (relation "measure (\<lambda>(d, b, ds, e). sock_size ds)") (auto simp: rest_of_less sock_size_def rest_of_def)

function read_n_loop :: "nat \<Rightarrow> string \<Rightarrow> string list \<Rightarrow> stream_end \<Rightarrow> (string \<times> sock) outcome" where
  "read_n_loop n buf ds e =
     (if length buf \<ge> n then Ret (buf, ds, e)
      else case ds of
             [] \<Rightarrow> if e = StaysOpen then Blocked else Ret (buf, [], e)
           | bs # ds' \<Rightarrow>
               if bs = [] then read_n_loop n buf ds' e
               else
                 let want = min (n - length buf) 4096
                 in read_n_loop n (buf @ take want bs) (rest_of want bs ds') e)"
  by pat_completeness auto
termination
  by (relation "measure (\<lambda>(n, b, ds, e). sock_size ds)") (auto simp: rest_of_less sock_size_def rest_of_def)

declare read_n_loop.simps [simp del]

text \<open>\<open>read_n\<close>, with the longest string there is room for; \<open>None\<close> when \<open>reserve\<close> throws.\<close>

definition read_n :: "nat \<Rightarrow> nat \<Rightarrow> string list \<Rightarrow> stream_end \<Rightarrow> (string \<times> sock) option outcome" where
  "read_n memory n ds e = (if n > memory then Ret None else bind_outcome (read_n_loop n [] ds e) (\<lambda>r. Ret (Some r)))"

definition bind_await :: "'r option outcome \<Rightarrow> ('r \<Rightarrow> 's option outcome) \<Rightarrow> 's option outcome" where
  "bind_await m f = bind_outcome m (\<lambda>r. case r of None \<Rightarrow> Ret None | Some x \<Rightarrow> f x)"

text \<open>\<open>write_all_async\<close>: whether all was written, and the bytes that went out.\<close>

fun write_all_async :: "string \<Rightarrow> nat \<Rightarrow> peer_write list \<Rightarrow> (bool \<times> string) outcome" where
  "write_all_async data off [] = (if off < length data then Blocked else Ret (True, []))"
| "write_all_async data off (w # ws) =
     (if off < length data then
        (case w of
           PTakes k \<Rightarrow>
             let n = min k (length data - off) in
             if n > 0 then
               bind_outcome (write_all_async data (off + n) ws) (\<lambda>(ok, out). Ret (ok, take n (drop off data) @ out))
             else Ret (False, [])
         | PFull \<Rightarrow> write_all_async data off ws
         | PError \<Rightarrow> Ret (False, []))
      else Ret (True, []))"

section \<open>Upstream connections\<close>

text \<open>\<open>connect_upstream\<close>, from what \<open>socket\<close>, \<open>connect\<close> and \<open>SO_ERROR\<close> give.\<close>

datatype connect_answer = NoSocket | Connected int | Refused int | InProgress int bool

definition connect_upstream :: "connect_answer \<Rightarrow> proxy \<Rightarrow> int option \<times> proxy" where
  "connect_upstream a s =
     (case a of
        NoSocket \<Rightarrow> (None, s)
      | Connected fd \<Rightarrow> (Some fd, s\<lparr>px_open := fd # px_open s\<rparr>)
      | Refused fd \<Rightarrow> (None, s)
      | InProgress fd ok \<Rightarrow> if ok then (Some fd, s\<lparr>px_open := fd # px_open s\<rparr>) else (None, s))"

definition acquire_upstream :: "string \<Rightarrow> u16 \<Rightarrow> connect_answer \<Rightarrow> proxy \<Rightarrow> int option \<times> proxy" where
  "acquire_upstream host port a s =
     (let key = upstream_key host port
      in case px_pools s key of
           Some (fd # fds) \<Rightarrow> (Some fd, s\<lparr>px_pools := (px_pools s)(key \<mapsto> fds)\<rparr>)
         | _ \<Rightarrow> connect_upstream a s)"

definition close_upstream :: "int \<Rightarrow> proxy \<Rightarrow> proxy" where
  "close_upstream fd s = s\<lparr>px_open := removeAll fd (px_open s)\<rparr>"

definition release_upstream :: "string \<Rightarrow> u16 \<Rightarrow> int \<Rightarrow> bool \<Rightarrow> proxy \<Rightarrow> proxy" where
  "release_upstream host port fd reusable s =
     (if fd < 0 then s
      else if \<not> reusable then close_upstream fd s
      else
        let key = upstream_key host port;
            pool = (case px_pools s key of None \<Rightarrow> [] | Some fds \<Rightarrow> fds)
        in if length pool \<ge> 64 then close_upstream fd (s\<lparr>px_pools := (px_pools s)(key \<mapsto> pool)\<rparr>)
           else s\<lparr>px_pools := (px_pools s)(key \<mapsto> pool @ [fd])\<rparr>)"

section \<open>Health\<close>

definition is_healthy :: "int \<Rightarrow> string \<Rightarrow> u16 \<Rightarrow> proxy \<Rightarrow> bool \<times> proxy" where
  "is_healthy now host port s =
     (let key = upstream_key host port
      in case px_health s key of
           None \<Rightarrow> (True, s)
         | Some h \<Rightarrow>
             if healthy h then (True, s)
             else if now - unhealthy_since h > px_upstream_cooldown s
             then (True, s\<lparr>px_health := (px_health s)(key \<mapsto> h\<lparr>healthy := True\<rparr>)\<rparr>)
             else (False, s))"

definition mark_unhealthy :: "int \<Rightarrow> string \<Rightarrow> u16 \<Rightarrow> proxy \<Rightarrow> proxy" where
  "mark_unhealthy now host port s =
     s\<lparr>px_health := (px_health s)(upstream_key host port \<mapsto> \<lparr>healthy = False, unhealthy_since = now\<rparr>)\<rparr>"

section \<open>Headers\<close>

text \<open>\<open>std::tolower\<close> in the C locale.\<close>

definition tolower :: "char \<Rightarrow> char" where
  "tolower c = (let n = of_char c :: nat in if 65 \<le> n \<and> n \<le> 90 then char_of (n + 32) else c)"

definition iequals :: "string \<Rightarrow> string \<Rightarrow> bool" where
  "iequals a b \<longleftrightarrow> length a = length b \<and> list_all2 (\<lambda>x y. tolower x = tolower y) a b"

definition header_list :: "(string \<Rightarrow> string option) \<Rightarrow> (string \<times> string) list" where
  "header_list hs = map (\<lambda>k. (k, the (hs k))) (sorted_list_of_set (dom hs))"

definition header_get :: "(string \<Rightarrow> string option) \<Rightarrow> string \<Rightarrow> string" where
  "header_get hs name =
     (case List.find (\<lambda>(k, v). iequals k name) (header_list hs) of Some (k, v) \<Rightarrow> v | None \<Rightarrow> [])"

definition hop_headers :: "string list" where
  "hop_headers = [''connection'', ''keep-alive'', ''proxy-authenticate'', ''proxy-authorization'', ''te'', ''trailer'',
     ''transfer-encoding'', ''upgrade'']"

definition is_hop_by_hop :: "string \<Rightarrow> bool" where
  "is_hop_by_hop name \<longleftrightarrow> list_ex (\<lambda>h. iequals name h) hop_headers"

text \<open>\<open>std::stoull\<close> in base ten; \<open>None\<close> when it throws.\<close>

definition is_space :: "char \<Rightarrow> bool" where
  "is_space c \<longleftrightarrow> of_char c \<in> {32, 9, 10, 11, 12, 13 :: nat}"

definition is_digit :: "char \<Rightarrow> bool" where
  "is_digit c \<longleftrightarrow> 48 \<le> (of_char c :: nat) \<and> (of_char c :: nat) \<le> 57"

definition digits_value :: "string \<Rightarrow> nat" where
  "digits_value ds = foldl (\<lambda>n c. n * 10 + (of_char c - 48)) 0 ds"

definition stoull :: "string \<Rightarrow> u64 option" where
  "stoull s =
     (let s1 = dropWhile is_space s;
          neg = (s1 \<noteq> [] \<and> hd s1 = CHR ''-'');
          s2 = (if s1 \<noteq> [] \<and> (hd s1 = CHR ''-'' \<or> hd s1 = CHR ''+'') then tl s1 else s1);
          ds = takeWhile is_digit s2;
          v = digits_value ds
      in if ds = [] then None else if v \<ge> 2 ^ 64 then None else Some (if neg then - of_nat v else of_nat v))"

definition content_length :: "string \<Rightarrow> nat" where
  "content_length cl = (if cl = [] then 0 else case stoull cl of None \<Rightarrow> 0 | Some n \<Rightarrow> unat n)"

abbreviation blank_line :: string where "blank_line \<equiv> [CR, LF, CR, LF]"

section \<open>Forwarding\<close>

definition select_route :: "string \<Rightarrow> proxy_route list \<Rightarrow> proxy_route option" where
  "select_route u routes =
     (case List.find (\<lambda>r. prefix (rt_prefix r) u) routes of
        Some r \<Rightarrow> Some r
      | None \<Rightarrow> if routes = [] then None else Some (last routes))"

definition forward_headers :: "(string \<Rightarrow> string option) \<Rightarrow> string" where
  "forward_headers hs =
     concat (map (\<lambda>(k, v). k @ '': '' @ v @ crlf) (filter (\<lambda>(k, v). \<not> is_hop_by_hop k) (header_list hs)))"

definition forward_request :: "http_info \<Rightarrow> string \<Rightarrow> string" where
  "forward_request info bdy =
     http_method info @ '' '' @ url info @ '' '' @ version info @ crlf @ forward_headers (headers info) @
     ''X-Forwarded-Proto: http'' @ crlf @ crlf @ bdy"

text \<open>The chunked loop, until the terminator or the cap; it does not test for the end of the stream before the first line.\<close>

fun chunk_loop :: "nat \<Rightarrow> nat \<Rightarrow> string \<Rightarrow> string list \<Rightarrow> stream_end \<Rightarrow> (string \<times> sock) option outcome" where
  "chunk_loop memory 0 chunkbuf ds e = Spinning"
| "chunk_loop memory (Suc fuel) chunkbuf ds e =
     (if str_find (''0'' @ blank_line) chunkbuf \<noteq> None then Ret (Some (chunkbuf, ds, e))
      else if str_find crlf chunkbuf = None then
        bind_outcome (read_until crlf [] ds e) (\<lambda>(more, ds', e'). chunk_loop memory fuel (chunkbuf @ more) ds' e')
      else bind_await (read_n memory 4096 ds e) (\<lambda>(more, ds', e').
        if more = [] then Ret (Some (chunkbuf, ds', e'))
        else if length (chunkbuf @ more) > 16 * 1024 * 1024 then Ret (Some (chunkbuf @ more, ds', e'))
        else chunk_loop memory fuel (chunkbuf @ more) ds' e'))"

fun eof_loop :: "nat \<Rightarrow> nat \<Rightarrow> string \<Rightarrow> string list \<Rightarrow> stream_end \<Rightarrow> (string \<times> sock) option outcome" where
  "eof_loop memory 0 rest ds e = Spinning"
| "eof_loop memory (Suc fuel) rest ds e =
     bind_await (read_n memory 4096 ds e) (\<lambda>(more, ds', e').
       if more = [] then Ret (Some (rest, ds', e'))
       else if length (rest @ more) > 16 * 1024 * 1024 then Ret (Some (rest @ more, ds', e'))
       else eof_loop memory fuel (rest @ more) ds' e')"

text \<open>Reading one response from an upstream: the response, no complete head, or an exception.\<close>

datatype upstream_answer = Response string | NoHead | Threw

fun with_body :: "string \<Rightarrow> (string \<times> sock) option \<Rightarrow> upstream_answer" where
  "with_body head None = Threw"
| "with_body head (Some (bdy, sk)) = Response (head @ bdy)"

definition read_response :: "nat \<Rightarrow> nat \<Rightarrow> sock \<Rightarrow> upstream_answer outcome" where
  "read_response memory fuel sk =
     bind_outcome (read_until blank_line [] (fst sk) (snd sk)) (\<lambda>(up_head, ds, e).
       case str_find blank_line up_head of
         None \<Rightarrow> Ret NoHead
       | Some p \<Rightarrow>
           (case parse_request up_head of
              Returns up_info \<Rightarrow>
                let uhdr_end = p + 4;
                    upstream_response = take uhdr_end up_head;
                    up_body_in_head = drop uhdr_end up_head;
                    up_te = header_get (headers up_info) ''Transfer-Encoding'';
                    up_cl = header_get (headers up_info) ''Content-Length''
                in if str_find ''chunked'' up_te \<noteq> None then
                     bind_outcome (chunk_loop memory fuel up_body_in_head ds e) (\<lambda>r. Ret (with_body upstream_response r))
                   else if up_cl \<noteq> [] then
                     (if length up_body_in_head < content_length up_cl then
                        bind_outcome (read_n memory (content_length up_cl - length up_body_in_head) ds e) (\<lambda>r.
                          Ret (with_body (upstream_response @ up_body_in_head) r))
                      else Ret (Response (upstream_response @ up_body_in_head)))
                   else bind_outcome (eof_loop memory fuel up_body_in_head ds e) (\<lambda>r. Ret (with_body upstream_response r))
            | _ \<Rightarrow> Undefined))"

text \<open>What one attempt meets: the answer to connecting, what the upstream takes, what it sends, and the time when it fails.\<close>

record attempt =
  at_connect :: connect_answer
  at_writes :: "peer_write list"
  at_sock :: sock
  at_now :: int

text \<open>
  One attempt: the answer, and \<open>NoHead\<close> for every failure after which the loop tries again.  After an exception the
  connection is neither closed nor given back.
\<close>

definition try_upstream :: "nat \<Rightarrow> proxy_route \<Rightarrow> string \<Rightarrow> attempt \<Rightarrow> proxy \<Rightarrow> (upstream_answer \<times> proxy) outcome" where
  "try_upstream fuel route fwd at s =
     (case acquire_upstream (rt_host route) (rt_port route) (at_connect at) s of
        (None, s1) \<Rightarrow> Ret (NoHead, mark_unhealthy (at_now at) (rt_host route) (rt_port route) s1)
      | (Some up_fd, s1) \<Rightarrow>
          bind_outcome (write_all_async fwd 0 (at_writes at)) (\<lambda>(wrote, out).
            if \<not> wrote then Ret (NoHead, mark_unhealthy (at_now at) (rt_host route) (rt_port route) (close_upstream up_fd s1))
            else bind_outcome (read_response (px_memory s1) fuel (at_sock at)) (\<lambda>resp.
              case resp of
                NoHead \<Rightarrow> Ret (NoHead, mark_unhealthy (at_now at) (rt_host route) (rt_port route) (close_upstream up_fd s1))
              | Response r \<Rightarrow> Ret (Response r, release_upstream (rt_host route) (rt_port route) up_fd True s1)
              | Threw \<Rightarrow> Ret (Threw, s1))))"

text \<open>
  The retry loop, from a value of its 32-bit counter, with what the coming attempts meet; a run of the program that makes
  another attempt needs another element of the list, and \<open>Blocked\<close> is a run that has not got it.
\<close>

fun retry_loop :: "nat \<Rightarrow> proxy_route \<Rightarrow> string \<Rightarrow> u32 \<Rightarrow> attempt list \<Rightarrow> proxy \<Rightarrow> (upstream_answer \<times> proxy) outcome" where
  "retry_loop fuel route fwd attempt [] s = (if attempt \<le> px_max_retries s then Blocked else Ret (NoHead, s))"
| "retry_loop fuel route fwd attempt (at # ats) s =
     (if attempt \<le> px_max_retries s then
        bind_outcome (try_upstream fuel route fwd at s) (\<lambda>(resp, s').
          case resp of NoHead \<Rightarrow> retry_loop fuel route fwd (attempt + 1) ats s' | _ \<Rightarrow> Ret (resp, s'))
      else Ret (NoHead, s))"

section \<open>The client coroutine\<close>

text \<open>One turn of the keep-alive loop: the reply to write and whether the loop goes on; \<open>None\<close> when the coroutine ends without one.\<close>

record client_turn =
  ct_reply :: string
  ct_again :: bool

definition bad_gateway :: "string \<Rightarrow> client_turn" where
  "bad_gateway why = \<lparr>ct_reply = build_response 502 ''Bad Gateway'' ''text/plain'' why False, ct_again = False\<rparr>"

definition serve_request ::
  "nat \<Rightarrow> int \<Rightarrow> sock \<Rightarrow> attempt list \<Rightarrow> proxy \<Rightarrow> (client_turn option \<times> sock \<times> proxy) outcome" where
  "serve_request fuel now client ats s =
     bind_outcome (read_until blank_line [] (fst client) (snd client)) (\<lambda>(head, ds, e).
       case str_find blank_line head of
         None \<Rightarrow> Ret (None, (ds, e), s)
       | Some p \<Rightarrow>
           (case parse_request head of
              Returns info \<Rightarrow>
                let body_len = content_length (header_get (headers info) ''Content-Length'');
                    body_in_head = drop (p + 4) head
                in bind_outcome
                     (if length body_in_head < body_len then
                        bind_await (read_n (px_memory s) (body_len - length body_in_head) ds e) (\<lambda>(rest, sk). Ret (Some (body_in_head @ rest, sk)))
                      else Ret (Some (body_in_head, ds, e)))
                     (\<lambda>r. case r of None \<Rightarrow> Ret (None, (ds, e), s) | Some (bdy, sk) \<Rightarrow>
                        case select_route (url info) (px_routes s) of
                          None \<Rightarrow> Ret (Some (bad_gateway ''no route''), sk, s)
                        | Some route \<Rightarrow>
                            (case is_healthy now (rt_host route) (rt_port route) s of (up, s1) \<Rightarrow>
                               if \<not> up then Ret (Some (bad_gateway ''upstream unavailable''), sk, s1)
                               else bind_outcome (retry_loop fuel route (forward_request info bdy) 0 ats s1)
                                 (\<lambda>(resp, s2).
                                   case resp of
                                     NoHead \<Rightarrow> Ret (Some (bad_gateway ''upstream failed''), sk, s2)
                                   | Response r \<Rightarrow> Ret (Some \<lparr>ct_reply = r, ct_again = wants_keep_alive info\<rparr>, sk, s2)
                                   | Threw \<Rightarrow> Ret (None, sk, s2))))
            | _ \<Rightarrow> Undefined))"

text \<open>
  \<open>serve_client\<close>: the bytes written to the client until the coroutine returns.  One turn takes one element of each list.
\<close>

fun serve_client :: "nat \<Rightarrow> sock \<Rightarrow> (int \<times> attempt list \<times> peer_write list) list \<Rightarrow> proxy \<Rightarrow> (string \<times> proxy) outcome" where
  "serve_client fuel client [] s = Blocked"
| "serve_client fuel client ((now, ats, ws) # turns) s =
     bind_outcome (serve_request fuel now client ats s) (\<lambda>(turn, sk, s').
       case turn of
         None \<Rightarrow> Ret ([], s')
       | Some t \<Rightarrow>
           bind_outcome (write_all_async (ct_reply t) 0 ws) (\<lambda>(client_ok, out).
             if \<not> client_ok \<or> \<not> ct_again t then Ret (out, s')
             else bind_outcome (serve_client fuel sk turns s') (\<lambda>(out', s''). Ret (out @ out', s''))))"

section \<open>What a parsed request looks like\<close>






section \<open>Correctness\<close>








section \<open>Upstream connections are exclusive\<close>

text \<open>
  The coroutines between two awaits: one acquires a connection, sends a request on it or reads from it, and later gives
  it back or closes it, unless an exception ends it first.  \<open>lent\<close> are the descriptors that running coroutines hold, \<open>lost\<close>
  those that an exception left behind.  A descriptor that \<open>socket\<close> returns is not open.
\<close>

definition fresh_connect :: "connect_answer \<Rightarrow> proxy \<Rightarrow> bool" where
  "fresh_connect a s = (case a of NoSocket \<Rightarrow> True | Connected fd \<Rightarrow> 0 \<le> fd \<and> fd \<notin> set (px_open s)
     | Refused fd \<Rightarrow> True | InProgress fd ok \<Rightarrow> 0 \<le> fd \<and> fd \<notin> set (px_open s))"

inductive upstream_reach :: "proxy \<Rightarrow> int list \<Rightarrow> int list \<Rightarrow> bool" where
  start: "upstream_reach (proxy_new routes n cooldown memory) [] []"
| acquire: "upstream_reach s lent lost \<Longrightarrow> fresh_connect a s \<Longrightarrow> acquire_upstream host port a s = (Some fd, s') \<Longrightarrow>
    upstream_reach s' (fd # lent) lost"
| acquire_failed: "upstream_reach s lent lost \<Longrightarrow> fresh_connect a s \<Longrightarrow> acquire_upstream host port a s = (None, s') \<Longrightarrow>
    upstream_reach (mark_unhealthy now host port s') lent lost"
| failed: "upstream_reach s lent lost \<Longrightarrow> fd \<in> set lent \<Longrightarrow>
    upstream_reach (mark_unhealthy now host port (close_upstream fd s)) (remove1 fd lent) lost"
| release: "upstream_reach s lent lost \<Longrightarrow> fd \<in> set lent \<Longrightarrow>
    upstream_reach (release_upstream host port fd True s) (remove1 fd lent) lost"
| threw: "upstream_reach s lent lost \<Longrightarrow> fd \<in> set lent \<Longrightarrow> upstream_reach s (remove1 fd lent) (fd # lost)"
| health: "upstream_reach s lent lost \<Longrightarrow> is_healthy now host port s = (ok, s') \<Longrightarrow> upstream_reach s' lent lost"

definition pool_of :: "proxy \<Rightarrow> string \<Rightarrow> int list" where
  "pool_of s k = (case px_pools s k of None \<Rightarrow> [] | Some fds \<Rightarrow> fds)"

definition upstream_inv :: "proxy \<Rightarrow> int list \<Rightarrow> bool" where
  [muses_inv]: "upstream_inv s lent \<longleftrightarrow>
     (\<forall>k. distinct (pool_of s k) \<and> length (pool_of s k) \<le> 64 \<and> set (pool_of s k) \<inter> set lent = {}) \<and>
     (\<forall>k k'. k \<noteq> k' \<longrightarrow> set (pool_of s k) \<inter> set (pool_of s k') = {}) \<and> distinct lent \<and>
     set (px_open s) = (\<Union>k. set (pool_of s k)) \<union> set lent \<and> (\<forall>fd \<in> set (px_open s). 0 \<le> fd)"

lemma pool_of_upd [simp]:
  "pool_of (s\<lparr>px_pools := (px_pools s)(k \<mapsto> fds)\<rparr>) = (pool_of s)(k := fds)" "pool_of (s\<lparr>px_open := fs\<rparr>) = pool_of s"
  "pool_of (s\<lparr>px_health := h\<rparr>) = pool_of s" "pool_of (mark_unhealthy now host port s) = pool_of s"
  by (auto simp: pool_of_def fun_eq_iff mark_unhealthy_def)

lemma upstream_inv_health [simp]:
  "upstream_inv (s\<lparr>px_health := h\<rparr>) lent = upstream_inv s lent" "upstream_inv (mark_unhealthy now host port s) lent = upstream_inv s lent"
  by (simp_all add: upstream_inv_def mark_unhealthy_def)

lemma upstream_inv_lend:
  assumes "upstream_inv s lent" "0 \<le> fd" "fd \<notin> set (px_open s)"
  shows "upstream_inv (s\<lparr>px_open := fd # px_open s\<rparr>) (fd # lent)"
  using assms by (fastforce simp: upstream_inv_def)

lemma upstream_invD:
  assumes "upstream_inv s lent"
  shows "distinct (pool_of s k)" "length (pool_of s k) \<le> 64" "set (pool_of s k) \<inter> set lent = {}"
    "k \<noteq> k' \<Longrightarrow> set (pool_of s k) \<inter> set (pool_of s k') = {}" "distinct lent"
    "set (px_open s) = (\<Union>k. set (pool_of s k)) \<union> set lent" "fd \<in> set (px_open s) \<Longrightarrow> 0 \<le> fd"
  using assms by (simp_all add: upstream_inv_def)

lemma upstream_inv_borrow:
  assumes inv: "upstream_inv s lent" and k: "pool_of s k = fd # fds"
  shows "upstream_inv (s\<lparr>px_pools := (px_pools s)(k \<mapsto> fds)\<rparr>) (fd # lent)"
proof -
  let ?p = "(pool_of s)(k := fds)"
  have at_k: "distinct (fd # fds)" "length (fd # fds) \<le> 64" "set (fd # fds) \<inter> set lent = {}"
    using upstream_invD(1-3) [OF inv, of k] k by simp_all
  have other: "fd \<notin> set (pool_of s k')" if "k' \<noteq> k" for k' using upstream_invD(4) [OF inv, of k k'] that k by auto
  have sub: "set (?p k') \<subseteq> set (pool_of s k')" for k' using k by auto
  have one: "distinct (?p k') \<and> length (?p k') \<le> 64 \<and> set (?p k') \<inter> set (fd # lent) = {}" for k'
    using at_k other upstream_invD(1-3) [OF inv, of k'] by auto
  have two: "set (?p k1) \<inter> set (?p k2) = {}" if "k1 \<noteq> k2" for k1 k2
    using upstream_invD(4) [OF inv that] sub [of k1] sub [of k2] by blast
  have "(\<Union>k'. set (?p k')) \<union> {fd} = (\<Union>k'. set (pool_of s k'))"
  proof
    have "(\<Union>k'. set (?p k')) \<subseteq> (\<Union>k'. set (pool_of s k'))" using sub by (intro UN_mono) simp_all
    moreover have "fd \<in> set (pool_of s k)" using k by simp
    ultimately show "(\<Union>k'. set (?p k')) \<union> {fd} \<subseteq> (\<Union>k'. set (pool_of s k'))" by blast
    show "(\<Union>k'. set (pool_of s k')) \<subseteq> (\<Union>k'. set (?p k')) \<union> {fd}"
    proof
      fix x assume "x \<in> (\<Union>k'. set (pool_of s k'))"
      then obtain k' where "x \<in> set (pool_of s k')" by blast
      then have "x = fd \<or> x \<in> set (?p k')" using k by (cases "k' = k") auto
      then show "x \<in> (\<Union>k'. set (?p k')) \<union> {fd}" by blast
    qed
  qed
  then have open_eq: "set (px_open s) = (\<Union>k'. set (?p k')) \<union> set (fd # lent)" using upstream_invD(6) [OF inv] by auto
  have "distinct (fd # lent)" using upstream_invD(5) [OF inv] at_k(3) by simp
  with one two open_eq show ?thesis using upstream_invD(7) [OF inv] unfolding upstream_inv_def pool_of_upd by simp
qed

lemma upstream_inv_return:
  assumes "upstream_inv s lent" "fd \<in> set lent" "length (pool_of s k) < 64"
  shows "upstream_inv (s\<lparr>px_pools := (px_pools s)(k \<mapsto> pool_of s k @ [fd])\<rparr>) (remove1 fd lent)"
proof -
  have "fd \<notin> set (pool_of s k')" for k' using assms(1,2) unfolding upstream_inv_def by (metis disjoint_iff)
  moreover have "(\<Union>k'. set (((pool_of s)(k := pool_of s k @ [fd])) k')) \<union> set (remove1 fd lent) = (\<Union>k'. set (pool_of s k')) \<union> set lent"
    using assms(1,2) by (auto simp: upstream_inv_def set_remove1_eq split: if_splits)
  ultimately show ?thesis using assms unfolding upstream_inv_def by (auto simp: set_remove1_eq)
qed

lemma upstream_inv_close:
  assumes "upstream_inv s lent" "fd \<in> set lent"
  shows "upstream_inv (close_upstream fd s) (remove1 fd lent)"
proof -
  have "fd \<notin> set (pool_of s k')" for k' using assms unfolding upstream_inv_def by (metis disjoint_iff)
  then show ?thesis using assms unfolding upstream_inv_def close_upstream_def by (auto simp: set_remove1_eq)
qed

lemma upstream_inv_acquire:
  assumes "upstream_inv s lent" "fresh_connect a s" "acquire_upstream host port a s = (r, s')"
  shows "case r of None \<Rightarrow> upstream_inv s' lent | Some fd \<Rightarrow> upstream_inv s' (fd # lent)"
proof (cases "pool_of s (upstream_key host port)")
  case Nil
  then have "connect_upstream a s = (r, s')"
    using assms(3) by (auto simp: acquire_upstream_def pool_of_def Let_def split: option.splits)
  then show ?thesis using assms(1,2) upstream_inv_lend [OF assms(1)]
    by (auto simp: connect_upstream_def fresh_connect_def split: connect_answer.splits if_splits)
next
  case (Cons fd fds)
  then have "r = Some fd" "s' = s\<lparr>px_pools := (px_pools s)(upstream_key host port \<mapsto> fds)\<rparr>"
    using assms(3) by (auto simp: acquire_upstream_def pool_of_def Let_def split: option.splits)
  then show ?thesis using upstream_inv_borrow [OF assms(1) Cons] by simp
qed

lemma upstream_inv_release:
  assumes "upstream_inv s lent" "fd \<in> set lent"
  shows "upstream_inv (release_upstream host port fd True s) (remove1 fd lent)"
proof -
  let ?k = "upstream_key host port"
  have "0 \<le> fd" using assms unfolding upstream_inv_def by blast
  then have r: "release_upstream host port fd True s =
      (if length (pool_of s ?k) \<ge> 64 then close_upstream fd (s\<lparr>px_pools := (px_pools s)(?k \<mapsto> pool_of s ?k)\<rparr>)
       else s\<lparr>px_pools := (px_pools s)(?k \<mapsto> pool_of s ?k @ [fd])\<rparr>)"
    by (simp add: release_upstream_def pool_of_def Let_def)
  have "upstream_inv (s\<lparr>px_pools := (px_pools s)(?k \<mapsto> pool_of s ?k)\<rparr>) lent" using assms(1) by (simp add: upstream_inv_def)
  then show ?thesis using r upstream_inv_close [OF _ assms(2)] upstream_inv_return [OF assms, of ?k] by auto
qed

lemma upstream_inv_perm: "mset lent = mset lent' \<Longrightarrow> upstream_inv s lent = upstream_inv s lent'"
  using mset_eq_setD [of lent lent'] mset_eq_imp_distinct_iff [of lent lent'] by (simp add: upstream_inv_def)

lemma upstream_reach_inv: "upstream_reach s lent lost \<Longrightarrow> upstream_inv s (lent @ lost)"
proof (induction rule: upstream_reach.induct)
  case (start routes n cooldown memory)
  then show ?case by (simp add: upstream_inv_def proxy_new_def pool_of_def)
next
  case (acquire s lent lost a host port fd s')
  then show ?case using upstream_inv_acquire [of s "lent @ lost" a host port "Some fd" s'] by simp
next
  case (acquire_failed s lent lost a host port s' now)
  then show ?case using upstream_inv_acquire [of s "lent @ lost" a host port None s'] by simp
next
  case (failed s lent lost fd now host port)
  then show ?case using upstream_inv_close [of s "lent @ lost" fd] by (simp add: remove1_append)
next
  case (release s lent lost fd host port)
  then show ?case using upstream_inv_release [of s "lent @ lost" fd host port] by (simp add: remove1_append)
next
  case (threw s lent lost fd)
  then have "mset (remove1 fd lent @ fd # lost) = mset (lent @ lost)" by simp
  then show ?case using threw upstream_inv_perm by blast
next
  case (health s lent lost now host port ok s')
  then show ?case by (auto simp: is_healthy_def Let_def split: option.splits if_splits)
qed

text \<open>One attempt of a coroutine is steps of this relation, and leaves the descriptors of the other coroutines with them.\<close>

lemma try_upstream_reach:
  assumes "upstream_reach s lent lost" "fresh_connect (at_connect at) s" "try_upstream fuel route fwd at s = Ret (resp, s')"
  shows "upstream_reach s' lent lost \<or> resp = Threw \<and> (\<exists>fd. upstream_reach s' lent (fd # lost))"
proof -
  obtain r s1 where a: "acquire_upstream (rt_host route) (rt_port route) (at_connect at) s = (r, s1)"
    by (cases "acquire_upstream (rt_host route) (rt_port route) (at_connect at) s")
  show ?thesis
  proof (cases r)
    case None
    then show ?thesis using assms a upstream_reach.acquire_failed [OF assms(1,2)] by (auto simp: try_upstream_def)
  next
    case (Some fd)
    then have held: "upstream_reach s1 (fd # lent) lost" using upstream_reach.acquire [OF assms(1,2)] a by blast
    note steps = upstream_reach.failed [OF held, of fd] upstream_reach.release [OF held, of fd] upstream_reach.threw [OF held, of fd]
    obtain wrote out where w: "write_all_async fwd 0 (at_writes at) = Ret (wrote, out)"
      using assms(3) a Some by (cases "write_all_async fwd 0 (at_writes at)") (auto simp: try_upstream_def)
    show ?thesis
    proof (cases wrote)
      case True
      then obtain answer where "read_response (px_memory s1) fuel (at_sock at) = Ret answer"
        using assms(3) a Some w by (cases "read_response (px_memory s1) fuel (at_sock at)") (auto simp: try_upstream_def)
      then show ?thesis using assms(3) a Some w True steps by (cases answer) (auto simp: try_upstream_def)
    next
      case False
      then show ?thesis using assms(3) a Some w steps by (auto simp: try_upstream_def)
    qed
  qed
qed

text \<open>
  C38. Upstream connections are never shared, however the client coroutines interleave: the descriptors that coroutines
  hold are distinct, none of them is in a pool, no descriptor is pooled twice or for two upstreams, no pool holds more
  than 64, and every open upstream descriptor is held by a coroutine, pooled, or was left behind by an exception, after
  which no coroutine gets it again.
\<close>

theorem upstream_connections_exclusive:
  assumes "upstream_reach s lent lost"
  shows "distinct (lent @ lost) \<and> (\<forall>k. distinct (pool_of s k) \<and> length (pool_of s k) \<le> 64 \<and> set (pool_of s k) \<inter> set (lent @ lost) = {}) \<and>
    (\<forall>k k'. k \<noteq> k' \<longrightarrow> set (pool_of s k) \<inter> set (pool_of s k') = {}) \<and>
    set (px_open s) = (\<Union>k. set (pool_of s k)) \<union> set (lent @ lost)"
  using upstream_reach_inv [OF assms] by (simp add: upstream_inv_def)

definition example_proxy :: proxy where
  "example_proxy = (proxy_new [] 2 10 4096)\<lparr>px_open := [7]\<rparr>"

theorem upstream_connections_exclusive_witness:
  "upstream_reach example_proxy [7] [] \<and> distinct [7::int] \<and> set (px_open example_proxy) = (\<Union>k. set (pool_of example_proxy k)) \<union> {7}"
proof -
  have "upstream_reach example_proxy [7] []"
    unfolding example_proxy_def
    by (rule upstream_reach.acquire [OF upstream_reach.start, of "Connected 7" "[]" 2 10 4096 "''h''" 80])
      (simp_all add: fresh_connect_def proxy_new_def acquire_upstream_def connect_upstream_def)
  with upstream_connections_exclusive [OF this] show ?thesis by simp
qed

section \<open>Relaying\<close>

lemma str_find_append: "str_find pat s = Some p \<Longrightarrow> str_find pat (s @ t) = Some p"
proof (induction s arbitrary: p)
  case Nil
  then show ?case by (cases t) (auto split: if_splits)
next
  case (Cons c s)
  show ?case
  proof (cases "prefix pat (c # s)")
    case True
    then have "prefix pat (c # s @ t)" by (metis append_Cons prefix_prefix)
    then show ?thesis using True Cons.prems by simp
  next
    case False
    then obtain q where q: "str_find pat s = Some q" "p = Suc q" using Cons.prems by auto
    then have "length pat \<le> length (c # s)" using str_find_bound [OF q(1)] by simp
    then have "\<not> prefix pat (c # s @ t)" using False by (metis append_Cons prefix_length_prefix prefixI)
    then show ?thesis using Cons.IH [OF q(1)] q(2) by simp
  qed
qed

text \<open>However the bytes are split, \<open>read_until\<close> stops after the delimiter and loses nothing.\<close>

lemma read_until_exact:
  assumes "str_find d (buf @ concat ds) = Some p" "str_find d buf = None"
  shows "\<exists>buf' ds'. read_until d buf ds e = Ret (buf', ds', e) \<and> buf' @ concat ds' = buf @ concat ds \<and> str_find d buf' = Some p"
  using assms
proof (induction d buf ds e rule: read_until.induct)
  case (1 d buf e)
  then show ?case by simp
next
  case (2 d buf bs ds e)
  let ?b = "buf @ take 4096 bs" and ?ds = "rest_of 4096 bs ds"
  have all: "?b @ concat ?ds = buf @ concat (bs # ds)" by (simp add: rest_of_def)
  show ?case
  proof (cases "bs = []")
    case True
    then show ?thesis using "2.IH"(1) "2.prems" by simp
  next
    case False
    show ?thesis
    proof (cases "str_find d ?b")
      case None
      then have "\<exists>buf' ds'. read_until d ?b ?ds e = Ret (buf', ds', e) \<and> buf' @ concat ds' = ?b @ concat ?ds \<and> str_find d buf' = Some p"
        using "2.IH"(2) [OF False refl refl] "2.prems"(1) all by simp
      then show ?thesis using False None all by (simp add: Let_def)
    next
      case (Some q)
      then have "q = p" using str_find_append [OF Some, of "concat ?ds"] "2.prems"(1) all by simp
      then show ?thesis using False Some all by (simp add: Let_def)
    qed
  qed
qed

lemma read_n_exact:
  assumes "length buf \<le> n" "n \<le> length (buf @ concat ds)"
  shows "\<exists>ds'. read_n_loop n buf ds e = Ret (take n (buf @ concat ds), ds', e) \<and> concat ds' = drop n (buf @ concat ds)"
  using assms
proof (induction n buf ds e rule: read_n_loop.induct)
  case (1 n buf ds e)
  show ?case
  proof (cases "length buf = n")
    case True
    then show ?thesis by (subst read_n_loop.simps) auto
  next
    case False
    then have less: "\<not> n \<le> length buf" using "1.prems"(1) by simp
    then obtain bs ds' where ds: "ds = bs # ds'" using "1.prems"(2) by (cases ds) auto
    show ?thesis
    proof (cases "bs = []")
      case True
      then show ?thesis using "1.IH"(1) [OF less ds] "1.prems" ds less by (subst read_n_loop.simps) auto
    next
      case nonempty: False
      let ?w = "min (n - length buf) 4096"
      have all: "(buf @ take ?w bs) @ concat (rest_of ?w bs ds') = buf @ concat ds" using ds by (simp add: rest_of_def)
      have "length (buf @ take ?w bs) \<le> n" using less by auto
      then have "\<exists>dr. read_n_loop n (buf @ take ?w bs) (rest_of ?w bs ds') e = Ret (take n (buf @ concat ds), dr, e) \<and>
          concat dr = drop n (buf @ concat ds)"
        using "1.IH"(2) [OF less ds nonempty refl] "1.prems"(2) unfolding all by blast
      then show ?thesis using less ds nonempty by (subst read_n_loop.simps) (simp add: Let_def)
    qed
  qed
qed


text \<open>A message without stray line ends: its headers end at the first empty line.\<close>

definition plain_message :: "string \<Rightarrow> string \<Rightarrow> string \<Rightarrow> (string \<times> string) list \<Rightarrow> bool" where
  "plain_message m u v hs \<longleftrightarrow> SP \<notin> set m \<and> SP \<notin> set u \<and> CR \<notin> set (m @ u @ v) \<and>
     list_all (\<lambda>(k, v). CHR '':'' \<notin> set k \<and> LF \<notin> set (k @ v) \<and> CR \<notin> set (k @ v)) hs"

lemma find_skip: "CR \<notin> set l \<Longrightarrow> str_find (CR # d) (l @ r) = map_option (\<lambda>p. length l + p) (str_find (CR # d) r)"
  by (induction l; cases "str_find (CR # d) r") auto

lemma find_empty_line:
  "list_all (\<lambda>(k, v). CR \<notin> set (k @ v)) hs \<Longrightarrow>
     str_find blank_line (crlf @ render_headers hs @ crlf @ b) = Some (length (render_headers hs))"
proof (induction hs)
  case Nil
  then show ?case by (simp add: render_headers_def)
next
  case (Cons h hs)
  obtain k v where h: "h = (k, v)" by (cases h)
  let ?l = "k @ '': '' @ v" and ?r = "crlf @ render_headers hs @ crlf @ b"
  have l: "CR \<notin> set (LF # ?l)" using Cons.prems h by simp
  obtain c l' where c: "?l = c # l'" by (cases ?l) simp_all
  have "c \<in> set ?l" unfolding c by simp
  then have "c \<noteq> CR" using l by auto
  have "str_find blank_line (crlf @ render_headers (h # hs) @ crlf @ b) = str_find blank_line (CR # LF # ?l @ ?r)"
    using h by (simp add: render_headers_def)
  also have "\<dots> = map_option Suc (str_find blank_line ((LF # ?l) @ ?r))"
    unfolding c using \<open>c \<noteq> CR\<close> by simp
  also have "\<dots> = Some (length (render_headers (h # hs)))"
    using find_skip [OF l, of "[LF, CR, LF]" ?r] Cons h by (simp add: render_headers_def)
  finally show ?case .
qed

lemma plain_message_head:
  assumes "plain_message m u v hs"
  shows "str_find blank_line (render_request m u v hs b) = Some (length (render_request m u v hs []) - 4)"
proof -
  have "CR \<notin> set (m @ '' '' @ u @ '' '' @ v)" using assms by (auto simp: plain_message_def)
  moreover have "list_all (\<lambda>(k, v). CR \<notin> set (k @ v)) hs" using assms by (auto simp: plain_message_def list_all_iff)
  ultimately show ?thesis
    using find_skip [of "m @ '' '' @ u @ '' '' @ v" "[LF, CR, LF]" "crlf @ render_headers hs @ crlf @ b"] find_empty_line [of hs b]
    by (simp add: render_request_def)
qed

lemma read_head:
  assumes "plain_message m u v hs" "concat ds = render_request m u v hs b"
  shows "\<exists>n ds'. read_until blank_line [] ds e = Ret (render_request m u v hs (take n b), ds', e) \<and> concat ds' = drop n b"
proof -
  let ?h = "render_request m u v hs []"
  have app: "render_request m u v hs c = ?h @ c" for c by (simp add: render_request_def)
  obtain buf' ds' where r: "read_until blank_line [] ds e = Ret (buf', ds', e)" "buf' @ concat ds' = ?h @ b"
    "str_find blank_line buf' = Some (length ?h - 4)"
    using read_until_exact [of blank_line "[]" ds "length ?h - 4" e] plain_message_head [OF assms(1), of b] assms(2) app [of b] by auto
  have "length ?h \<le> length buf'" using str_find_bound [OF r(3)] by simp
  then have "buf' = ?h @ take (length buf' - length ?h) b" "concat ds' = drop (length buf' - length ?h) b"
    using arg_cong [OF r(2), of "take (length buf')"] arg_cong [OF r(2), of "drop (length buf')"] by simp_all
  then show ?thesis using r(1) app by metis
qed

lemma read_rest:
  assumes "concat ds = drop n b" "length (take n b) < length b" "length b \<le> memory"
  shows "\<exists>ds'. read_n memory (length b - length (take n b)) ds e = Ret (Some (drop n b, ds', e)) \<and> concat ds' = []"
proof -
  let ?k = "length b - length (take n b)"
  have k: "?k = length (drop n b)" by simp
  obtain ds' where "read_n_loop ?k [] ds e = Ret (take ?k ([] @ concat ds), ds', e)" "concat ds' = drop ?k ([] @ concat ds)"
    using read_n_exact [of "[]" ?k ds e] assms(1) k by auto
  moreover have "\<not> ?k > memory" using assms(3) by simp
  ultimately show ?thesis using assms(1) k unfolding read_n_def by auto
qed

definition sent_header :: "(string \<times> string) list \<Rightarrow> string \<Rightarrow> string" where
  "sent_header hs name = header_get (map_of (rev hs)) name"

lemma plain_parse:
  "plain_message m u v hs \<Longrightarrow> parse_request (render_request m u v hs b) =
     Returns \<lparr>http_method = m, url = u, version = v, headers = map_of (rev hs), body = b\<rparr>"
  by (rule parse_rendered) (auto simp: plain_message_def list_all_iff)

lemma plain_split:
  assumes "plain_message m u v hs"
  shows "\<exists>p. \<forall>b. str_find blank_line (render_request m u v hs b) = Some p \<and> drop (p + 4) (render_request m u v hs b) = b \<and>
    take (p + 4) (render_request m u v hs b) = render_request m u v hs [] \<and> length (render_request m u v hs b) - (p + 4) = length b"
proof (intro exI allI conjI)
  fix b
  let ?h = "render_request m u v hs []"
  have app: "render_request m u v hs b = ?h @ b" "length ?h - 4 + 4 = length ?h" by (simp_all add: render_request_def)
  show "str_find blank_line (render_request m u v hs b) = Some (length ?h - 4)" by (rule plain_message_head [OF assms])
  show "drop (length ?h - 4 + 4) (render_request m u v hs b) = b" "take (length ?h - 4 + 4) (render_request m u v hs b) = ?h"
    "length (render_request m u v hs b) - (length ?h - 4 + 4) = length b"
    unfolding app(2) app(1) by simp_all
qed

text \<open>A request that states the length of its body, and one that a route sends to a healthy upstream.\<close>

definition client_request ::
  "string \<Rightarrow> string \<Rightarrow> string \<Rightarrow> (string \<times> string) list \<Rightarrow> string \<Rightarrow> sock \<Rightarrow> proxy \<Rightarrow> bool" where
  "client_request m u v hs b client s \<longleftrightarrow> plain_message m u v hs \<and> concat (fst client) = render_request m u v hs b \<and>
     content_length (sent_header hs ''Content-Length'') = length b \<and> length b \<le> px_memory s"

definition routed_to :: "int \<Rightarrow> string \<Rightarrow> proxy_route \<Rightarrow> proxy \<Rightarrow> proxy \<Rightarrow> bool" where
  "routed_to now u route s s1 \<longleftrightarrow>
     select_route u (px_routes s) = Some route \<and> is_healthy now (rt_host route) (rt_port route) s = (True, s1)"

definition sent_info :: "string \<Rightarrow> string \<Rightarrow> string \<Rightarrow> (string \<times> string) list \<Rightarrow> string \<Rightarrow> http_info" where
  "sent_info m u v hs b = \<lparr>http_method = m, url = u, version = v, headers = map_of (rev hs), body = b\<rparr>"

lemma serve_request_routed:
  assumes "client_request m u v hs b client s" "routed_to now u route s s1"
  shows "\<exists>ds. concat ds = [] \<and> (\<forall>ats. serve_request fuel now client ats s =
     bind_outcome (retry_loop fuel route (forward_request (sent_info m u v hs b) b) 0 ats s1) (\<lambda>(resp, s2).
       case resp of
         NoHead \<Rightarrow> Ret (Some (bad_gateway ''upstream failed''), (ds, snd client), s2)
       | Response r \<Rightarrow> Ret (Some \<lparr>ct_reply = r, ct_again = wants_keep_alive (sent_info m u v hs b)\<rparr>, (ds, snd client), s2)
       | Threw \<Rightarrow> Ret (None, (ds, snd client), s2)))"
proof -
  note req = assms(1) [unfolded client_request_def] and route = assms(2) [unfolded routed_to_def]
  have same: "forward_request \<lparr>http_method = m, url = u, version = v, headers = map_of (rev hs), body = c\<rparr> b =
      forward_request (sent_info m u v hs b) b"
    "wants_keep_alive \<lparr>http_method = m, url = u, version = v, headers = map_of (rev hs), body = c\<rparr> =
      wants_keep_alive (sent_info m u v hs b)" for c
    by (simp_all add: sent_info_def forward_request_def wants_keep_alive_def cong: option.case_cong)
  obtain n ds where h: "read_until blank_line [] (fst client) (snd client) = Ret (render_request m u v hs (take n b), ds, snd client)"
    "concat ds = drop n b"
    using read_head [of m u v hs "fst client" b "snd client"] req by blast
  obtain p where p: "\<And>c. str_find blank_line (render_request m u v hs c) = Some p" "\<And>c. drop (p + 4) (render_request m u v hs c) = c"
      "\<And>c. length (render_request m u v hs c) - (p + 4) = length c"
    using plain_split [of m u v hs] req by blast
  have cl: "content_length (header_get (map_of (rev hs)) ''Content-Length'') = length b" using req by (simp add: sent_header_def)
  note ev = serve_request_def p plain_parse Let_def same
  show ?thesis
  proof (cases "length (take n b) < length b")
    case True
    then obtain ds'' where "read_n (px_memory s) (length b - length (take n b)) ds (snd client) = Ret (Some (drop n b, ds'', snd client))"
        "concat ds'' = []"
      using read_rest [OF h(2) True] req by blast
    moreover have "n < length b" using True by simp
    ultimately show ?thesis using h route cl req by (intro exI [of _ ds'']) (simp add: ev bind_await_def cong: upstream_answer.case_cong)
  next
    case False
    then have "take n b = b" by simp
    then show ?thesis using h route cl req False by (intro exI [of _ ds]) (simp add: ev cong: upstream_answer.case_cong)
  qed
qed

text \<open>A response with a length, as an upstream that keeps the connection alive sends it.\<close>

definition sized_response :: "nat \<Rightarrow> string \<Rightarrow> string \<Rightarrow> string \<Rightarrow> (string \<times> string) list \<Rightarrow> string \<Rightarrow> bool" where
  "sized_response memory m u v hs b \<longleftrightarrow> plain_message m u v hs \<and> str_find ''chunked'' (sent_header hs ''Transfer-Encoding'') = None \<and>
     sent_header hs ''Content-Length'' \<noteq> [] \<and> content_length (sent_header hs ''Content-Length'') = length b \<and> length b \<le> memory"

lemma read_response_exact:
  assumes "sized_response memory m u v hs b" "concat (fst sk) = render_request m u v hs b"
  shows "read_response memory fuel sk = Ret (Response (render_request m u v hs b))"
proof -
  note sz = assms(1) [unfolded sized_response_def sent_header_def]
  obtain n ds' where h: "read_until blank_line [] (fst sk) (snd sk) = Ret (render_request m u v hs (take n b), ds', snd sk)"
    "concat ds' = drop n b"
    using read_head [of m u v hs "fst sk" b "snd sk"] assms(2) sz by blast
  obtain p where p: "\<And>c. str_find blank_line (render_request m u v hs c) = Some p"
    "\<And>c. drop (p + 4) (render_request m u v hs c) = c" "\<And>c. take (p + 4) (render_request m u v hs c) = render_request m u v hs []"
    "\<And>c. length (render_request m u v hs c) - (p + 4) = length c"
    using plain_split [of m u v hs] sz by blast
  have app: "render_request m u v hs c @ c' = render_request m u v hs (c @ c')" for c c' by (simp add: render_request_def)
  show ?thesis
  proof (cases "length (take n b) < length b")
    case True
    then obtain ds'' where "read_n memory (length b - length (take n b)) ds' (snd sk) = Ret (Some (drop n b, ds'', snd sk))"
      using read_rest [OF h(2) True] sz by blast
    then show ?thesis using h sz True by (simp add: read_response_def p plain_parse Let_def app)
  next
    case False
    then have "take n b = b" by simp
    then show ?thesis using h sz by (simp add: read_response_def p plain_parse Let_def app)
  qed
qed

lemma acquire_keeps:
  assumes "acquire_upstream host port a s = (r, s1)"
  shows "px_memory s1 = px_memory s \<and> px_max_retries s1 = px_max_retries s \<and> px_upstream_cooldown s1 = px_upstream_cooldown s"
  using assms by (auto simp: acquire_upstream_def connect_upstream_def Let_def split: option.splits list.splits connect_answer.splits if_splits)

lemma routed_keeps:
  assumes "routed_to now u route s s1"
  shows "px_memory s1 = px_memory s \<and> px_max_retries s1 = px_max_retries s \<and> px_upstream_cooldown s1 = px_upstream_cooldown s"
  using assms by (auto simp: routed_to_def is_healthy_def Let_def split: option.splits if_splits)


text \<open>A request and an upstream on which the properties below are instantiated.\<close>

definition example_route :: proxy_route where
  "example_route = \<lparr>rt_prefix = ''/'', rt_host = ''h'', rt_port = 80\<rparr>"

definition example_start :: "u32 \<Rightarrow> proxy" where
  "example_start retries = proxy_new [example_route] retries 10 100"

definition example_headers :: "(string \<times> string) list" where
  "example_headers = [(''Connection'', ''close''), (''Content-Length'', ''2'')]"

definition example_client :: sock where
  "example_client = ([render_request ''GET'' ''/'' ''HTTP/1.1'' example_headers ''h'', ''i''], StaysOpen)"

definition example_info :: http_info where
  "example_info = sent_info ''GET'' ''/'' ''HTTP/1.1'' example_headers ''hi''"

definition example_attempt :: "(string \<times> string) list \<Rightarrow> attempt" where
  "example_attempt hs = \<lparr>at_connect = Connected 7, at_writes = [PFull, PTakes (length (forward_request example_info ''hi''))],
     at_sock = ([render_request ''HTTP/1.1'' ''200'' ''OK'' hs [], ''5''], PeerClosed), at_now = 0\<rparr>"

definition refused_attempt :: "int \<Rightarrow> attempt" where
  "refused_attempt now = \<lparr>at_connect = Refused 7, at_writes = [], at_sock = ([], PeerClosed), at_now = now\<rparr>"

lemma header_get_single: "header_get [k \<mapsto> v] name = (if iequals k name then v else [])"
  by (simp add: header_get_def header_list_def)

lemma stoull_digits: "content_length ''2'' = 2" "content_length ''1'' = 1"
  by (simp_all add: content_length_def stoull_def is_space_def is_digit_def digits_value_def)

lemma example_names:
  "iequals ''Content-Length'' ''Content-Length''" "\<not> iequals ''Connection'' ''Content-Length''"
  "\<not> iequals ''Content-Length'' ''Transfer-Encoding''" "iequals ''Transfer-Encoding'' ''Transfer-Encoding''"
  by code_simp+

lemma example_content_length: "sent_header example_headers ''Content-Length'' = ''2''"
proof -
  have "sorted_list_of_set (set [''Connection'', ''Content-Length'']) = [''Connection'', ''Content-Length'']" by code_simp
  then show ?thesis using example_names(1,2)
    by (simp add: sent_header_def example_headers_def header_get_def header_list_def insert_commute)
qed

lemma example_client_request: "client_request ''GET'' ''/'' ''HTTP/1.1'' example_headers ''hi'' example_client (example_start n)"
  using example_content_length stoull_digits(1)
  by (simp add: client_request_def plain_message_def example_client_def render_request_def example_start_def proxy_new_def)
    (simp add: example_headers_def)

lemma example_routed: "routed_to now ''/'' example_route (example_start n) (example_start n)"
  by (simp add: routed_to_def select_route_def example_start_def proxy_new_def example_route_def is_healthy_def Let_def)

lemma example_acquire: "acquire_upstream (rt_host example_route) (rt_port example_route) (at_connect (example_attempt hs)) (example_start n) =
    (Some 7, (example_start n)\<lparr>px_open := [7]\<rparr>)"
  by (simp add: acquire_upstream_def connect_upstream_def example_start_def proxy_new_def example_attempt_def)

lemma example_write:
  "write_all_async (forward_request example_info ''hi'') 0 (at_writes (example_attempt hs)) = Ret (True, forward_request example_info ''hi'')"
  by (simp add: example_attempt_def forward_request_def)


section \<open>Failures\<close>

lemma try_upstream_fails:
  assumes "try_upstream fuel route fwd at s = Ret (NoHead, s')"
  shows "px_health s' (upstream_key (rt_host route) (rt_port route)) = Some \<lparr>healthy = False, unhealthy_since = at_now at\<rparr> \<and>
    px_upstream_cooldown s' = px_upstream_cooldown s \<and> px_max_retries s' = px_max_retries s"
proof -
  obtain r s1 where a: "acquire_upstream (rt_host route) (rt_port route) (at_connect at) s = (r, s1)"
    by (cases "acquire_upstream (rt_host route) (rt_port route) (at_connect at) s")
  have "s' = mark_unhealthy (at_now at) (rt_host route) (rt_port route) s1 \<or>
      (\<exists>fd. s' = mark_unhealthy (at_now at) (rt_host route) (rt_port route) (close_upstream fd s1))"
  proof (cases r)
    case None
    then show ?thesis using assms a by (simp add: try_upstream_def)
  next
    case (Some fd)
    obtain wrote out where w: "write_all_async fwd 0 (at_writes at) = Ret (wrote, out)"
      using assms a Some by (cases "write_all_async fwd 0 (at_writes at)") (auto simp: try_upstream_def)
    show ?thesis
    proof (cases wrote)
      case True
      then obtain resp where "read_response (px_memory s1) fuel (at_sock at) = Ret resp"
        using assms a Some w by (cases "read_response (px_memory s1) fuel (at_sock at)") (auto simp: try_upstream_def)
      then show ?thesis using assms a Some w True by (cases resp) (auto simp: try_upstream_def)
    next
      case False
      then show ?thesis using assms a Some w by (auto simp: try_upstream_def)
    qed
  qed
  then show ?thesis using acquire_keeps [OF a] by (auto simp: mark_unhealthy_def close_upstream_def)
qed

text \<open>Attempts that all fail, and the state after them.\<close>

fun attempts_fail :: "nat \<Rightarrow> proxy_route \<Rightarrow> string \<Rightarrow> attempt list \<Rightarrow> proxy \<Rightarrow> proxy option" where
  "attempts_fail fuel route fwd [] s = Some s"
| "attempts_fail fuel route fwd (at # ats) s =
     (case try_upstream fuel route fwd at s of Ret (NoHead, s') \<Rightarrow> attempts_fail fuel route fwd ats s' | _ \<Rightarrow> None)"

lemma attempts_fail_Cons:
  "attempts_fail fuel route fwd (at # ats) s = Some s2 \<longleftrightarrow>
     (\<exists>s'. try_upstream fuel route fwd at s = Ret (NoHead, s') \<and> attempts_fail fuel route fwd ats s' = Some s2)"
  by (auto split: outcome.splits upstream_answer.splits)

lemma attempts_fail_marks:
  "attempts_fail fuel route fwd ats s = Some s2 \<Longrightarrow> ats \<noteq> [] \<Longrightarrow>
     px_health s2 (upstream_key (rt_host route) (rt_port route)) = Some \<lparr>healthy = False, unhealthy_since = at_now (last ats)\<rparr>"
proof (induction ats arbitrary: s)
  case (Cons at ats)
  then obtain s' where t: "try_upstream fuel route fwd at s = Ret (NoHead, s')" "attempts_fail fuel route fwd ats s' = Some s2"
    using attempts_fail_Cons by blast
  then show ?case using try_upstream_fails [OF t(1)] Cons.IH [OF t(2)] by (cases ats) auto
qed simp

lemma attempts_fail_keeps:
  "attempts_fail fuel route fwd ats s = Some s2 \<Longrightarrow>
     px_upstream_cooldown s2 = px_upstream_cooldown s \<and> px_max_retries s2 = px_max_retries s"
proof (induction ats arbitrary: s)
  case (Cons at ats)
  then obtain s' where t: "try_upstream fuel route fwd at s = Ret (NoHead, s')" "attempts_fail fuel route fwd ats s' = Some s2"
    using attempts_fail_Cons by blast
  then show ?case using try_upstream_fails [OF t(1)] Cons.IH [OF t(2)] by simp
qed simp

lemma retry_loop_after:
  "attempts_fail fuel route fwd ats s = Some s2 \<Longrightarrow> \<forall>i < length ats. attempt + of_nat i \<le> px_max_retries s \<Longrightarrow>
     retry_loop fuel route fwd attempt (ats @ others) s = retry_loop fuel route fwd (attempt + of_nat (length ats)) others s2"
proof (induction ats arbitrary: s attempt)
  case (Cons at ats)
  then obtain s' where t: "try_upstream fuel route fwd at s = Ret (NoHead, s')" "attempts_fail fuel route fwd ats s' = Some s2"
    using attempts_fail_Cons by blast
  have "attempt \<le> px_max_retries s" using Cons.prems(2) by force
  moreover have "\<forall>i < length ats. (attempt + 1) + of_nat i \<le> px_max_retries s'"
  proof (intro allI impI)
    fix i assume "i < length ats"
    then show "(attempt + 1) + of_nat i \<le> px_max_retries s'"
      using Cons.prems(2) [rule_format, of "Suc i"] try_upstream_fails [OF t(1)] by (simp add: add.commute add.left_commute)
  qed
  ultimately show ?case using Cons.IH [OF t(2), of "attempt + 1"] t(1) by (simp add: ac_simps)
qed simp

lemma attempts_allowed:
  assumes "n \<le> Suc (unat m) \<or> m = - 1" "i < n"
  shows "0 + of_nat i \<le> (m :: u32)"
proof (cases "m = - 1")
  case False
  then have "i \<le> unat m" using assms by auto
  moreover have "unat m < 2 ^ 32" using unsigned_less [of m] by simp
  ultimately show ?thesis by (simp add: word_le_nat_alt unat_of_nat)
qed simp

lemma no_more_attempts:
  assumes "m \<noteq> - 1"
  shows "\<not> of_nat (Suc (unat m)) \<le> (m :: u32)"
proof -
  have "unat (- 1 :: u32) = 2 ^ 32 - 1" by (simp add: unsigned_minus_1_eq_mask mask_eq_exp_minus_1)
  then have "unat m \<noteq> 2 ^ 32 - 1" using assms by (metis unsigned_word_eqI)
  moreover have "unat m < 2 ^ 32" using unsigned_less [of m] by simp
  ultimately have "Suc (unat m) < 2 ^ 32" by simp
  then show ?thesis by (simp add: word_le_nat_alt unat_of_nat del: of_nat_Suc)
qed

text \<open>
  C39. When the proxy gives up.  Let a request be routed to a healthy upstream and let the attempts to use the upstream
  fail one after the other.  After \<open>max_retries + 1\<close> of them, not \<open>max_retries\<close> as the comment on the constructor says, the
  client gets 502 and nothing more is tried; the upstream then counts as unhealthy for every route to its host and port,
  and stays so as long as the cooldown, counted from the last failure, is not over.  After fewer failures, or after any
  number of them if \<open>max_retries\<close> is \<open>UINT_MAX\<close>, the next attempt is made, and the client gets the response if that attempt
  brings one.
\<close>

theorem proxy_gives_up:
  assumes "client_request m u v hs b client s" "routed_to now u route s s1"
    and "attempts_fail fuel route (forward_request (sent_info m u v hs b) b) ats s1 = Some s2"
  shows "(length ats = Suc (unat (px_max_retries s)) \<longrightarrow> px_max_retries s \<noteq> - 1 \<longrightarrow>
      (\<exists>sk. serve_request fuel now client (ats @ others) s = Ret (Some (bad_gateway ''upstream failed''), sk, s2)) \<and>
      (\<forall>later. later - at_now (last ats) \<le> px_upstream_cooldown s \<longrightarrow>
         is_healthy later (rt_host route) (rt_port route) s2 = (False, s2))) \<and>
    (length ats \<le> unat (px_max_retries s) \<or> px_max_retries s = - 1 \<longrightarrow>
      try_upstream fuel route (forward_request (sent_info m u v hs b) b) at s2 = Ret (Response r, s3) \<longrightarrow>
      (\<exists>sk. serve_request fuel now client (ats @ at # others) s =
         Ret (Some \<lparr>ct_reply = r, ct_again = wants_keep_alive (sent_info m u v hs b)\<rparr>, sk, s3)))"
proof -
  let ?fwd = "forward_request (sent_info m u v hs b) b" and ?n = "length ats" and ?max = "px_max_retries s"
  note keep = routed_keeps [OF assms(2)] attempts_fail_keeps [OF assms(3)]
  obtain sk where serve: "\<And>ats. serve_request fuel now client ats s = bind_outcome (retry_loop fuel route ?fwd 0 ats s1) (\<lambda>(resp, s2).
       case resp of
         NoHead \<Rightarrow> Ret (Some (bad_gateway ''upstream failed''), sk, s2)
       | Response r \<Rightarrow> Ret (Some \<lparr>ct_reply = r, ct_again = wants_keep_alive (sent_info m u v hs b)\<rparr>, sk, s2)
       | Threw \<Rightarrow> Ret (None, sk, s2))"
    using serve_request_routed [OF assms(1,2), of fuel] by blast
  have loop: "retry_loop fuel route ?fwd 0 (ats @ further) s1 = retry_loop fuel route ?fwd (of_nat ?n) further s2"
    if "?n \<le> Suc (unat ?max) \<or> ?max = - 1" for further
    using retry_loop_after [OF assms(3), of 0 further] attempts_allowed [OF that] keep by simp
  have "retry_loop fuel route ?fwd 0 (ats @ others) s1 = Ret (NoHead, s2)" if "?n = Suc (unat ?max)" "?max \<noteq> - 1"
  proof -
    have "\<not> of_nat ?n \<le> ?max" using no_more_attempts [OF that(2)] that(1) by simp
    then show ?thesis using loop [of others] that(1) keep by (cases others) auto
  qed
  moreover have "is_healthy later (rt_host route) (rt_port route) s2 = (False, s2)"
    if "?n = Suc (unat ?max)" "later - at_now (last ats) \<le> px_upstream_cooldown s" for later
    using attempts_fail_marks [OF assms(3)] that keep by (cases ats) (auto simp: is_healthy_def)
  moreover have "retry_loop fuel route ?fwd 0 (ats @ at # others) s1 = Ret (Response r, s3)"
    if "?n \<le> unat ?max \<or> ?max = - 1" "try_upstream fuel route ?fwd at s2 = Ret (Response r, s3)"
  proof -
    have "of_nat ?n \<le> ?max" using attempts_allowed [of "Suc ?n" ?max ?n] that(1) by auto
    then show ?thesis using loop [of "at # others"] that keep by auto
  qed
  ultimately show ?thesis unfolding serve by auto
qed

lemma example_failure:
  "try_upstream fuel example_route fwd (refused_attempt t) (example_start n) =
     Ret (NoHead, mark_unhealthy t ''h'' 80 (example_start n))"
  "try_upstream fuel example_route fwd (refused_attempt t) (mark_unhealthy t' ''h'' 80 (example_start n)) =
     Ret (NoHead, mark_unhealthy t ''h'' 80 (mark_unhealthy t' ''h'' 80 (example_start n)))"
  by (simp_all add: try_upstream_def acquire_upstream_def connect_upstream_def refused_attempt_def example_start_def proxy_new_def
      example_route_def mark_unhealthy_def)

lemma example_success:
  "\<exists>r s'. try_upstream fuel example_route (forward_request example_info ''hi'') (example_attempt [(''Content-Length'', ''1'')])
     (mark_unhealthy t ''h'' 80 (example_start n)) = Ret (Response r, s')"
proof -
  let ?s = "mark_unhealthy t ''h'' 80 (example_start n)" and ?hs = "[(''Content-Length'', ''1'')]"
  let ?s' = "?s\<lparr>px_open := [7]\<rparr>"
  have "acquire_upstream (rt_host example_route) (rt_port example_route) (at_connect (example_attempt ?hs)) ?s = (Some 7, ?s')"
    by (simp add: acquire_upstream_def connect_upstream_def example_start_def proxy_new_def example_attempt_def mark_unhealthy_def)
  moreover have "sized_response (px_memory ?s') ''HTTP/1.1'' ''200'' ''OK'' ?hs ''5''"
    by (simp add: sized_response_def plain_message_def sent_header_def header_get_single example_names stoull_digits
        example_start_def proxy_new_def mark_unhealthy_def)
  then have "read_response (px_memory ?s') fuel (at_sock (example_attempt ?hs)) =
      Ret (Response (render_request ''HTTP/1.1'' ''200'' ''OK'' ?hs ''5''))"
    by (rule read_response_exact) (simp add: example_attempt_def render_request_def)
  ultimately show ?thesis using example_write [of ?hs] by (simp add: try_upstream_def)
qed

theorem proxy_gives_up_witness:
  "(\<exists>sk s'. serve_request 0 100 example_client [refused_attempt 100, refused_attempt 102] (example_start 1) =
      Ret (Some (bad_gateway ''upstream failed''), sk, s') \<and> is_healthy 112 ''h'' 80 s' = (False, s')) \<and>
   (\<exists>sk s' t. serve_request 0 100 example_client [refused_attempt 100, example_attempt [(''Content-Length'', ''1'')]] (example_start 1) =
      Ret (Some t, sk, s') \<and> \<not> ct_again t)"
proof -
  let ?s1 = "mark_unhealthy 100 ''h'' 80 (example_start 1)"
  let ?s2 = "mark_unhealthy 102 ''h'' 80 ?s1" and ?fwd = "forward_request example_info ''hi''"
  have cfg: "px_max_retries (example_start 1) = 1" "px_upstream_cooldown (example_start 1) = 10"
    "rt_host example_route = ''h''" "rt_port example_route = 80" "at_now (refused_attempt 102) = 102"
    by (simp_all add: example_start_def proxy_new_def example_route_def refused_attempt_def)
  have alive: "\<not> wants_keep_alive example_info"
    by (simp add: wants_keep_alive_def example_info_def sent_info_def example_headers_def)
  have two: "attempts_fail 0 example_route ?fwd [refused_attempt 100, refused_attempt 102] (example_start 1) = Some ?s2"
    and one: "attempts_fail 0 example_route ?fwd [refused_attempt 100] (example_start 1) = Some ?s1"
    by (simp_all add: example_failure)
  obtain r s3 where ok: "try_upstream 0 example_route ?fwd (example_attempt [(''Content-Length'', ''1'')]) ?s1 = Ret (Response r, s3)"
    using example_success by blast
  note gives_up = proxy_gives_up [OF example_client_request example_routed, folded example_info_def]
  show ?thesis
    using gives_up [OF two, where now = 100 and others = "[]"]
      gives_up [OF one, where now = 100 and others = "[]", THEN conjunct2, rule_format, OF _ ok] alive by (auto simp: cfg)
qed

lemma str_find_None: "str_find pat s = None \<longleftrightarrow> \<not> sublist pat s"
  by (induction s) (auto simp: sublist_Cons_right)

lemma read_until_end:
  assumes "str_find d (buf @ concat ds) = None"
  shows "read_until d buf ds PeerClosed = Ret (buf @ concat ds, [], PeerClosed)"
  using assms
proof (induction d buf ds PeerClosed rule: read_until.induct)
  case (2 d buf bs ds)
  let ?b = "buf @ take 4096 bs" and ?ds = "rest_of 4096 bs ds"
  have all: "?b @ concat ?ds = buf @ concat (bs # ds)" by (simp add: rest_of_def)
  have "str_find d ?b = None" using "2.prems" str_find_append [of d ?b _ "concat ?ds"] unfolding all by (cases "str_find d ?b") auto
  then show ?case using 2 all by (auto simp: Let_def)
qed simp

text \<open>Without a line end the chunked loop never stops once the stream has ended, whatever the number of rounds.\<close>

lemma chunk_loop_spins:
  "str_find crlf (chunkbuf @ concat ds) = None \<Longrightarrow> chunk_loop memory fuel chunkbuf ds PeerClosed = Spinning"
proof (induction fuel arbitrary: chunkbuf ds)
  case (Suc fuel)
  have none: "str_find crlf chunkbuf = None" "str_find crlf (concat ds) = None"
    using Suc.prems unfolding str_find_None sublist_append by simp_all
  have "sublist crlf (''0'' @ blank_line)" by code_simp
  then have "str_find (''0'' @ blank_line) chunkbuf = None"
    using none(1) sublist_order.order_trans [of crlf "''0'' @ blank_line" chunkbuf] by (auto simp: str_find_None)
  then show ?case using none read_until_end [of crlf "[]" ds] Suc.IH [of "chunkbuf @ concat ds" "[]"] Suc.prems by simp
qed simp

lemma read_response_spins:
  assumes "plain_message m u v hs" "concat (fst sk) = render_request m u v hs b" "snd sk = PeerClosed"
    "str_find ''chunked'' (sent_header hs ''Transfer-Encoding'') \<noteq> None" "str_find crlf b = None"
  shows "read_response memory fuel sk = Spinning"
proof -
  obtain n ds where h: "read_until blank_line [] (fst sk) PeerClosed = Ret (render_request m u v hs (take n b), ds, PeerClosed)"
    "concat ds = drop n b"
    using read_head [OF assms(1,2)] by blast
  obtain p where p: "\<And>c. str_find blank_line (render_request m u v hs c) = Some p" "\<And>c. drop (p + 4) (render_request m u v hs c) = c"
    using plain_split [OF assms(1)] by blast
  have "chunk_loop memory fuel (take n b) ds PeerClosed = Spinning" by (rule chunk_loop_spins) (simp add: h(2) assms(5))
  then show ?thesis using h assms(3,4) by (simp add: read_response_def p plain_parse [OF assms(1)] Let_def sent_header_def)
qed

lemma read_response_throws:
  assumes "plain_message m u v hs" "concat (fst sk) = render_request m u v hs b"
    "str_find ''chunked'' (sent_header hs ''Transfer-Encoding'') = None"
    "length b + memory < content_length (sent_header hs ''Content-Length'')"
  shows "read_response memory fuel sk = Ret Threw"
proof -
  obtain n ds where h: "read_until blank_line [] (fst sk) (snd sk) = Ret (render_request m u v hs (take n b), ds, snd sk)"
    using read_head [OF assms(1,2)] by blast
  obtain p where p: "\<And>c. str_find blank_line (render_request m u v hs c) = Some p" "\<And>c. drop (p + 4) (render_request m u v hs c) = c"
      "\<And>c. length (render_request m u v hs c) - (p + 4) = length c"
    using plain_split [OF assms(1)] by blast
  have "sent_header hs ''Content-Length'' \<noteq> []" using assms(4) by (auto simp: content_length_def)
  moreover have "min (length b) n < content_length (sent_header hs ''Content-Length'')"
    "memory < content_length (sent_header hs ''Content-Length'') - min (length b) n" using assms(4) by linarith+
  ultimately show ?thesis using h assms(3)
    by (simp add: read_response_def p plain_parse [OF assms(1)] Let_def sent_header_def read_n_def)
qed

text \<open>
  C40. Two answers of an upstream that the proxy does not survive.  A chunked response whose body has no line end and after
  which the upstream closes the connection hangs it: the loop reads nothing and goes on for ever, whatever the number of
  rounds, and with it the thread that serves every client.  A response whose \<open>Content-Length\<close> exceeds what has arrived of
  the body by more than there is memory for, which it does for every small negative number, ends the client's coroutine:
  the client gets not a single byte, and the connection stays as it was acquired, neither closed nor in a pool.
\<close>

theorem proxy_upstream_kills:
  assumes request: "client_request m u v hs b client s" "routed_to now u route s s1"
    and upstream: "acquire_upstream (rt_host route) (rt_port route) (at_connect at) s1 = (Some up_fd, s2)"
      "write_all_async (forward_request (sent_info m u v hs b) b) 0 (at_writes at) = Ret (True, out)"
    and response: "plain_message rm ru rv rhs" "concat (fst (at_sock at)) = render_request rm ru rv rhs rb"
  shows "(str_find ''chunked'' (sent_header rhs ''Transfer-Encoding'') \<noteq> None \<longrightarrow> snd (at_sock at) = PeerClosed \<longrightarrow>
      str_find crlf rb = None \<longrightarrow> serve_client fuel client ((now, at # ats, ws) # turns) s = Spinning) \<and>
    (str_find ''chunked'' (sent_header rhs ''Transfer-Encoding'') = None \<longrightarrow>
      length rb + px_memory s < content_length (sent_header rhs ''Content-Length'') \<longrightarrow>
      serve_client fuel client ((now, at # ats, ws) # turns) s = Ret ([], s2))"
proof -
  let ?fwd = "forward_request (sent_info m u v hs b) b"
  have mem: "px_memory s2 = px_memory s" using acquire_keeps [OF upstream(1)] routed_keeps [OF request(2)] by simp
  obtain sk where serve: "serve_request fuel now client (at # ats) s =
      bind_outcome (retry_loop fuel route ?fwd 0 (at # ats) s1) (\<lambda>(resp, s2).
       case resp of
         NoHead \<Rightarrow> Ret (Some (bad_gateway ''upstream failed''), sk, s2)
       | Response r \<Rightarrow> Ret (Some \<lparr>ct_reply = r, ct_again = wants_keep_alive (sent_info m u v hs b)\<rparr>, sk, s2)
       | Threw \<Rightarrow> Ret (None, sk, s2))"
    using serve_request_routed [OF request, of fuel] by blast
  have "retry_loop fuel route ?fwd 0 (at # ats) s1 = Spinning" if "read_response (px_memory s) fuel (at_sock at) = Spinning"
    using that upstream mem by (simp add: try_upstream_def)
  moreover have "retry_loop fuel route ?fwd 0 (at # ats) s1 = Ret (Threw, s2)" if "read_response (px_memory s) fuel (at_sock at) = Ret Threw"
    using that upstream mem by (simp add: try_upstream_def)
  ultimately show ?thesis using read_response_spins [OF response] read_response_throws [OF response] by (auto simp: serve)
qed

theorem proxy_upstream_kills_witness:
  "serve_client 1000 example_client [(100, [example_attempt [(''Transfer-Encoding'', ''chunked'')]], [PTakes 4096])] (example_start 2) = Spinning \<and>
   serve_client 1000 example_client [(100, [example_attempt [(''Content-Length'', ''-1'')]], [PTakes 4096])] (example_start 2) =
     Ret ([], (example_start 2)\<lparr>px_open := [7]\<rparr>)"
proof -
  let ?te = "[(''Transfer-Encoding'', ''chunked'')]" and ?cl = "[(''Content-Length'', ''-1'')]"
  have len: "content_length ''-1'' = 18446744073709551615"
    by (simp add: content_length_def stoull_def is_space_def is_digit_def digits_value_def unsigned_minus_1_eq_mask mask_eq_exp_minus_1)
  have plain: "plain_message ''HTTP/1.1'' ''200'' ''OK'' ?te" "plain_message ''HTTP/1.1'' ''200'' ''OK'' ?cl"
    by (simp_all add: plain_message_def)
  have resp: "concat (fst (at_sock (example_attempt hs))) = render_request ''HTTP/1.1'' ''200'' ''OK'' hs ''5''"
    "snd (at_sock (example_attempt hs)) = PeerClosed" for hs
    by (simp_all add: example_attempt_def render_request_def)
  have hdr: "sent_header ?te ''Transfer-Encoding'' = ''chunked''" "sent_header ?cl ''Transfer-Encoding'' = []"
    "sent_header ?cl ''Content-Length'' = ''-1''" by (simp_all add: sent_header_def header_get_single example_names)
  have mem: "px_memory (example_start 2) = 100" by (simp add: example_start_def proxy_new_def)
  note kills = proxy_upstream_kills [OF example_client_request example_routed example_acquire example_write [unfolded example_info_def]]
  show ?thesis
    using kills [OF plain(1) resp(1), where fuel = 1000 and now = 100 and ats = "[]" and ws = "[PTakes 4096]" and turns = "[]"]
      kills [OF plain(2) resp(1), where fuel = 1000 and now = 100 and ats = "[]" and ws = "[PTakes 4096]" and turns = "[]"]
    by (simp add: resp hdr len mem)
qed

end
