(* ===== verification/Spec2Isabelle.thy ===== *)
theory Spec2Isabelle
  imports Lru_Cache Bloom_Filter Ring_Queue Ring_Concurrent Blocking_Queue Thread_Safe_Queue Thread_Pool
    Pool_Ptr Pooled_Buffer Http_Handler Poller Reactor_Delivery Proxy
begin

text \<open>
  A verification development for muses, a header-only C++ library for network servers
  (\<open>src/muses/\<close>): containers and queues, a thread pool, a memory pool, event pollers, an HTTP
  static-file handler, a reactor that ties them together, and a reverse proxy of coroutines.  The reactor thread
  polls, reads requests into the buffers of its connections and hands them to worker threads; a worker runs the
  handler and hands the answer back through a bounded ring, the outbox, from which the reactor thread writes it.
  The proxy reads a request, forwards it on a pooled connection to an upstream and relays the response.

  \<^bold>\<open>Conventions.\<close>  Every C++ function is a HOL function with its state as an argument and in its result;
  a class is a \<open>record\<close>.  What the standard leaves undefined is a value (\<open>None\<close>, \<open>Undefined\<close>,
  \<open>MUndefined\<close>, \<open>CallUndefined\<close>, \<open>BadAccess\<close>), and so are exceptions, failed assertions and calls that block.
  Integers are words where they wrap.  What the kernel, the peer, the file system or the allocator answer is an
  argument or a field of the state.  Fuel stands for the iterations of a loop that may spin; the theorems
  show which fuel is enough (two rounds of a ring operation when no other thread runs, 64 doublings of a
  ring size, 65 of a buffer capacity, one round more than the outbox has cells for draining it), or
  that none is (the chunked loop of the proxy).  What threads do under a mutex is one atomic
  step; the lock-free ring is modelled with one step per atomic access, under sequential consistency.
  Names starting with \<open>spec_\<close> are specifications.

  \<^bold>\<open>The theories and what they model.\<close>

  \<^item> \<open>Muses_Prelude\<close>: word types, \<open>outcome\<close>, association lists, the collections of theorems.

  \<^item> \<open>Lru_Cache\<close> (\<open>lru_cache.hpp\<close>): list and index of an LRU cache, with iterators as node addresses.
    It refines a list in order of recency.  The locale \<open>cache\<close> is what a client relies on.

  \<^item> \<open>Bloom_Filter\<close> (\<open>bloom_filter.hpp\<close>): packed saturating 4-bit counters.  No false negatives, exact
    counts below saturation, remove undoes add, ageing.

  \<^item> \<open>Ring_Queue\<close> and \<open>Ring_Concurrent\<close> (\<open>bounded_queue.hpp\<close>, \<open>RingImpl\<close>): the lock-free ring, first called
    by one thread, where it refines a bounded list, then under interleaving, where no two threads own a
    cell at once and every item is taken exactly once.  The locale \<open>drop_new_queue\<close> is what the reactor relies
    on for its outbox; the ring with the \<open>DropNew\<close> policy interprets it.

  \<^item> \<open>Monitor\<close>: condition variables and the locale \<open>wait_set\<close>.  \<open>Blocking_Queue\<close> (\<open>BlockingImpl\<close>),
    \<open>Thread_Safe_Queue\<close> (\<open>queue.hpp\<close>) and \<open>Thread_Pool\<close> (\<open>thread_pool.hpp\<close>) interpret it: the first has no
    lost wake-up, the second has, and the pool runs every task once and drains.

  \<^item> \<open>Memory_Pool\<close>, \<open>Pool_Contract\<close>, \<open>Pool_Ptr\<close>, \<open>Pooled_Buffer\<close> (\<open>memory_pool.hpp\<close>): size classes, free lists,
    headers and reference counts; the contract (locale \<open>counted_store\<close>) that blocks are disjoint and counts
    exact; handles over any number of variables; the growable buffer.

  \<^item> \<open>Http_Handler\<close> (\<open>net_components/http_handler.hpp\<close>): parsing with the stream state of
    \<open>istringstream\<close>, responses, path resolution and the file cache, with the file system as a parameter, including the sizes it
    reports and the memory there is for them.  Only files under the root are served, responses are framed, and
    the requests on which the handler throws or is undefined are named.

  \<^item> \<open>Poller\<close> (\<open>net/poller.hpp\<close>, \<open>net/epoll_poller.hpp\<close>, \<open>net/kqueue_poller.hpp\<close>): event masks and both back
    ends, with the registrations that the kernel accepts as a parameter.  The locale \<open>poller\<close> is the interest set;
    on legal calls the back ends agree on it, but a flush of the kqueue back end can block or lose events.

  \<^item> \<open>Connection\<close> (\<open>net/reactor.hpp\<close>, \<open>struct Connection\<close>): one connection's reading, searching, carving and
    writing; the incremental search for the end of the headers finds what a search of the whole buffer finds.

  \<^item> \<open>Reactor\<close> (\<open>net/reactor.hpp\<close>, classes \<open>Reactor\<close>, \<open>ReactorPool\<close>, \<open>TCPListener\<close>): every handler of the reactor
    thread, the worker's task, accepting with its two gates, the sweeps, one round of the loop, start and stop,
    the pool of shards and the listener.  \<open>reactor_reach\<close> has the handlers in any order, with any answers of the
    kernel and any schedule of the workers; bytes are conserved, bounds hold, nothing is undefined.

  \<^item> \<open>Reactor_Delivery\<close>: how a response is written over several events, and two ways in which requests and answers
    get mixed up.

  \<^item> \<open>Proxy\<close> (\<open>net_components/proxy.hpp\<close>): routes, header rewriting, the pools of upstream connections, health, the
    I/O helpers and \<open>serve_client\<close>.  A socket is the portions in which bytes will arrive and how the stream ends.
    Requests and responses are relayed exactly, connections are never shared, giving up takes \<open>max_retries + 1\<close>
    failures, and two answers of an upstream stop the proxy.

  \<^bold>\<open>Idealisations.\<close>  The interleaving of the ring is sequentially consistent, its cursors and its semaphore are natural
  numbers there; the sequential theory has the cursors as words and the bound of the semaphore.  Real time is a clock
  that is read once per handler or attempt; a timeout may expire at any moment.  Worker threads reach the reactor
  only through the outbox, whose operations are atomic in \<open>Reactor\<close>.

  \<^bold>\<open>Not modelled.\<close>  The weak memory orders of the atomics; the event loop, accepting, starting and stopping of the proxy,
  which poll descriptors and resume coroutines, and the coroutine frames of \<open>task.hpp\<close>, which the compiler
  generates (only how an exception passes through an awaited task is modelled); the logger, the profiler, the
  command-line programs and the configuration macros, which only format, print or select.
\<close>

end
